(* ===== verification/Net_Prelude.thy ===== *)
theory Net_Prelude
  imports Main "HOL-Library.Word"
begin

text \<open>
  Shared vocabulary of the development: the fixed-width integers of
  \<^verbatim>\<open>include/types.h\<close>, byte buffers, byte order, failures as values, and the generic
  lemmas on lists, sums and words that the component theories rely on.

  The programs are C. A failure that C leaves undefined (an access outside a buffer, a null
  or dangling pointer) or that stops the process (a failed \<^verbatim>\<open>assert\<close>, \<^verbatim>\<open>exit\<close>) is a value
  of type \<open>fault\<close>; an operation that may fail returns \<open>fault + 'a\<close>. All machines the code
  is built for are little endian, so a \<^verbatim>\<open>u16\<close> or \<^verbatim>\<open>u32\<close> read through a pointer takes its low
  byte first (\<open>le16\<close>, \<open>le32\<close>) and \<^verbatim>\<open>ntohs\<close>, \<^verbatim>\<open>ntohl\<close>, \<^verbatim>\<open>htons\<close>, \<^verbatim>\<open>htonl\<close> swap bytes.
\<close>

unbundle bit_operations_syntax

section \<open>Machine integers and buffers\<close>

type_synonym u8 = "8 word"
type_synonym u16 = "16 word"
type_synonym u32 = "32 word"
type_synonym bytes = "u8 list"

named_theorems byte_simps \<open>loads, stores and byte order\<close>
named_theorems res_simps \<open>failures as values\<close>

section \<open>Failures\<close>

datatype fault =
    Null_Deref
  | Use_After_Free
  | Out_Of_Bounds
  | Assert_Failed
  | Diverges
  | Deadlock
  | Uninitialised
  | Int_Overflow
  | Exited

type_synonym 'a res = "fault + 'a"

definition res_bind :: "'a res \<Rightarrow> ('a \<Rightarrow> 'b res) \<Rightarrow> 'b res" where
  "res_bind m f = (case m of Inl e \<Rightarrow> Inl e | Inr x \<Rightarrow> f x)"

definition res_map :: "('a \<Rightarrow> 'b) \<Rightarrow> 'a res \<Rightarrow> 'b res" where
  "res_map f m = res_bind m (\<lambda>x. Inr (f x))"

definition ok :: "'a res \<Rightarrow> bool" where
  "ok m = (case m of Inl _ \<Rightarrow> False | Inr _ \<Rightarrow> True)"

lemma res_bind_simps [simp, res_simps]:
  "res_bind (Inl e) f = Inl e"
  "res_bind (Inr x) f = f x"
  by (simp_all add: res_bind_def)

lemma res_map_simps [simp, res_simps]:
  "res_map f (Inl e) = Inl e"
  "res_map f (Inr x) = Inr (f x)"
  by (simp_all add: res_map_def)

lemma ok_simps [simp, res_simps]:
  "ok (Inr x)"
  "\<not> ok (Inl e)"
  by (simp_all add: ok_def)

lemma res_bind_cong [fundef_cong]:
  "m = m' \<Longrightarrow> (\<And>x. m' = Inr x \<Longrightarrow> f x = g x) \<Longrightarrow> res_bind m f = res_bind m' g"
  by (cases m') auto

lemma ok_iff: "ok m \<longleftrightarrow> (\<exists>x. m = Inr x)"
  by (cases m) auto

lemma res_bind_Inr_iff [res_simps]:
  "res_bind m f = Inr y \<longleftrightarrow> (\<exists>x. m = Inr x \<and> f x = Inr y)"
  by (cases m) auto

lemma res_bind_assoc: "res_bind (res_bind m f) g = res_bind m (\<lambda>x. res_bind (f x) g)"
  by (cases m) auto

lemma ok_res_bind: "ok (res_bind m f) \<longleftrightarrow> (\<exists>x. m = Inr x \<and> ok (f x))"
  by (cases m) auto

section \<open>Byte order\<close>

definition le16 :: "u8 \<Rightarrow> u8 \<Rightarrow> u16" where
  "le16 a b = of_nat (unat a + 256 * unat b)"

definition lo8 :: "u16 \<Rightarrow> u8" where
  "lo8 w = of_nat (unat w mod 256)"

definition hi8 :: "u16 \<Rightarrow> u8" where
  "hi8 w = of_nat (unat w div 256)"

definition le32 :: "u16 \<Rightarrow> u16 \<Rightarrow> u32" where
  "le32 a b = of_nat (unat a + 65536 * unat b)"

definition lo16 :: "u32 \<Rightarrow> u16" where
  "lo16 w = of_nat (unat w mod 65536)"

definition hi16 :: "u32 \<Rightarrow> u16" where
  "hi16 w = of_nat (unat w div 65536)"

definition ntohs :: "u16 \<Rightarrow> u16" where
  "ntohs w = le16 (hi8 w) (lo8 w)"

abbreviation htons :: "u16 \<Rightarrow> u16" where
  "htons \<equiv> ntohs"

definition ntohl :: "u32 \<Rightarrow> u32" where
  "ntohl w = le32 (ntohs (hi16 w)) (ntohs (lo16 w))"

abbreviation htonl :: "u32 \<Rightarrow> u32" where
  "htonl \<equiv> ntohl"

lemma unat_u8_less [simp]: "unat (a :: u8) < 256"
  using unsigned_less [of a] by simp

lemma unat_u16_less [simp]: "unat (a :: u16) < 65536"
  using unsigned_less [of a] by simp

lemma unat_u32_less [simp]: "unat (a :: u32) < 4294967296"
  using unsigned_less [of a] by simp

lemma unat_of_nat_u8: "n < 256 \<Longrightarrow> unat (of_nat n :: u8) = n"
  by (simp add: unat_of_nat)

lemma unat_of_nat_u16: "n < 65536 \<Longrightarrow> unat (of_nat n :: u16) = n"
  by (simp add: unat_of_nat)

lemma unat_of_nat_u32: "n < 4294967296 \<Longrightarrow> unat (of_nat n :: u32) = n"
  by (simp add: unat_of_nat)

lemma unat_le16 [byte_simps]: "unat (le16 a b) = unat a + 256 * unat b"
proof -
  have "unat a + 256 * unat b < 65536"
    using unat_u8_less [of a] unat_u8_less [of b] by linarith
  then show ?thesis unfolding le16_def by (rule unat_of_nat_u16)
qed

lemma unat_le32 [byte_simps]: "unat (le32 a b) = unat a + 65536 * unat b"
proof -
  have "unat a + 65536 * unat b < 4294967296"
    using unat_u16_less [of a] unat_u16_less [of b] by linarith
  then show ?thesis unfolding le32_def by (rule unat_of_nat_u32)
qed

lemma unat_lo8 [byte_simps]: "unat (lo8 w) = unat w mod 256"
  by (simp add: lo8_def unat_of_nat_u8)

lemma unat_hi8 [byte_simps]: "unat (hi8 w) = unat w div 256"
proof -
  have "unat w div 256 < 256" using unat_u16_less [of w] by linarith
  then show ?thesis by (simp add: hi8_def unat_of_nat_u8)
qed

lemma unat_lo16 [byte_simps]: "unat (lo16 w) = unat w mod 65536"
  by (simp add: lo16_def unat_of_nat_u16)

lemma unat_hi16 [byte_simps]: "unat (hi16 w) = unat w div 65536"
proof -
  have "unat w div 65536 < 65536" using unat_u32_less [of w] by linarith
  then show ?thesis by (simp add: hi16_def unat_of_nat_u16)
qed

lemma le16_bytes [simp]: "le16 (lo8 w) (hi8 w) = w"
  by (rule word_unat_eq_iff [THEN iffD2]) (simp add: byte_simps)

lemma lo8_le16 [simp]: "lo8 (le16 a b) = a"
  by (rule word_unat_eq_iff [THEN iffD2]) (simp add: byte_simps)

lemma hi8_le16 [simp]: "hi8 (le16 a b) = b"
  by (rule word_unat_eq_iff [THEN iffD2]) (simp add: byte_simps)

lemma le32_halves [simp]: "le32 (lo16 w) (hi16 w) = w"
  by (rule word_unat_eq_iff [THEN iffD2]) (simp add: byte_simps)

lemma lo16_le32 [simp]: "lo16 (le32 a b) = a"
  by (rule word_unat_eq_iff [THEN iffD2]) (simp add: byte_simps)

lemma hi16_le32 [simp]: "hi16 (le32 a b) = b"
  by (rule word_unat_eq_iff [THEN iffD2]) (simp add: byte_simps)

lemma ntohs_ntohs [simp]: "ntohs (ntohs w) = w"
  by (simp add: ntohs_def)

lemma ntohl_ntohl [simp]: "ntohl (ntohl w) = w"
  by (simp add: ntohl_def)

lemma ntohs_eq_iff [simp]: "ntohs a = ntohs b \<longleftrightarrow> a = b"
  by (metis ntohs_ntohs)

lemma ntohl_eq_iff [simp]: "ntohl a = ntohl b \<longleftrightarrow> a = b"
  by (metis ntohl_ntohl)

section \<open>Loads and stores in a buffer\<close>

definition sub :: "nat \<Rightarrow> nat \<Rightarrow> 'a list \<Rightarrow> 'a list" where
  "sub i n p = take n (drop i p)"

definition put :: "nat \<Rightarrow> 'a list \<Rightarrow> 'a list \<Rightarrow> 'a list" where
  "put i bs p = take i p @ bs @ drop (i + length bs) p"

definition bytes16 :: "u16 \<Rightarrow> bytes" where
  "bytes16 w = [lo8 w, hi8 w]"

definition bytes32 :: "u32 \<Rightarrow> bytes" where
  "bytes32 w = bytes16 (lo16 w) @ bytes16 (hi16 w)"

definition ld16 :: "nat \<Rightarrow> bytes \<Rightarrow> u16" where
  "ld16 i p = le16 (p ! i) (p ! (i + 1))"

definition ld32 :: "nat \<Rightarrow> bytes \<Rightarrow> u32" where
  "ld32 i p = le32 (ld16 i p) (ld16 (i + 2) p)"

lemma length_sub [simp]: "i + n \<le> length p \<Longrightarrow> length (sub i n p) = n"
  by (simp add: sub_def)

lemma length_put [simp]: "i + length bs \<le> length p \<Longrightarrow> length (put i bs p) = length p"
  by (simp add: put_def)

lemma length_bytes16 [simp]: "length (bytes16 w) = 2"
  by (simp add: bytes16_def)

lemma length_bytes32 [simp]: "length (bytes32 w) = 4"
  by (simp add: bytes32_def)

lemma nth_put:
  assumes "i + length bs \<le> length p" "k < length p"
  shows "put i bs p ! k = (if i \<le> k \<and> k < i + length bs then bs ! (k - i) else p ! k)"
  using assms by (auto simp: put_def nth_append min_def)

lemma nth_put_outside [byte_simps]:
  "i + length bs \<le> length p \<Longrightarrow> k < i \<or> i + length bs \<le> k \<Longrightarrow> k < length p \<Longrightarrow>
   put i bs p ! k = p ! k"
  by (auto simp: nth_put)

lemma nth_put_inside [byte_simps]:
  "i + length bs \<le> length p \<Longrightarrow> i \<le> k \<Longrightarrow> k < i + length bs \<Longrightarrow>
   put i bs p ! k = bs ! (k - i)"
  by (simp add: nth_put)

lemma sub_put_same [simp]:
  "i + length bs \<le> length p \<Longrightarrow> n = length bs \<Longrightarrow> sub i n (put i bs p) = bs"
  by (simp add: sub_def put_def)

lemma sub_put_disjoint:
  assumes "i + length bs \<le> length p" "j + n \<le> length p" "j + n \<le> i \<or> i + length bs \<le> j"
  shows "sub j n (put i bs p) = sub j n p"
proof (rule nth_equalityI)
  show "length (sub j n (put i bs p)) = length (sub j n p)"
    using assms by simp
next
  fix k assume "k < length (sub j n (put i bs p))"
  then have "k < n" using assms by simp
  then show "sub j n (put i bs p) ! k = sub j n p ! k"
    using assms by (auto simp: sub_def nth_put_outside)
qed

lemma sub_put_inside:
  assumes "j \<le> i" "i + length bs \<le> j + n" "j + n \<le> length p"
  shows "sub j n (put i bs p) = put (i - j) bs (sub j n p)"
proof (rule nth_equalityI)
  show "length (sub j n (put i bs p)) = length (put (i - j) bs (sub j n p))"
    using assms by simp
next
  fix k assume "k < length (sub j n (put i bs p))"
  then have "k < n" using assms by simp
  then show "sub j n (put i bs p) ! k = put (i - j) bs (sub j n p) ! k"
    using assms by (auto simp: sub_def nth_put less_diff_conv2 diff_diff_eq2 add.commute)
qed

lemma nth_sub [simp]: "k < n \<Longrightarrow> j + n \<le> length p \<Longrightarrow> sub j n p ! k = p ! (j + k)"
  by (simp add: sub_def)

lemma ld16_put_same [simp]: "i + 2 \<le> length p \<Longrightarrow> ld16 i (put i (bytes16 w) p) = w"
  by (simp add: ld16_def nth_put bytes16_def)

lemma ld16_put_outside:
  "i + length bs \<le> length p \<Longrightarrow> j + 2 \<le> length p \<Longrightarrow> j + 2 \<le> i \<or> i + length bs \<le> j \<Longrightarrow>
   ld16 j (put i bs p) = ld16 j p"
  by (auto simp: ld16_def nth_put_outside)

lemma ld32_put_same [simp]: "i + 4 \<le> length p \<Longrightarrow> ld32 i (put i (bytes32 w) p) = w"
  by (simp add: ld32_def ld16_def nth_put bytes32_def bytes16_def)

lemma ld32_put_outside:
  "i + length bs \<le> length p \<Longrightarrow> j + 4 \<le> length p \<Longrightarrow> j + 4 \<le> i \<or> i + length bs \<le> j \<Longrightarrow>
   ld32 j (put i bs p) = ld32 j p"
  by (auto simp: ld32_def ld16_put_outside)

lemma sub_all [simp]: "length p = n \<Longrightarrow> sub 0 n p = p"
  by (simp add: sub_def)

lemma put_put_same [simp]:
  "length as = length bs \<Longrightarrow> i + length bs \<le> length p \<Longrightarrow> put i as (put i bs p) = put i as p"
  by (simp add: put_def)

lemma put_sub_same [simp]: "i + n \<le> length p \<Longrightarrow> put i (sub i n p) p = p"
proof -
  assume "i + n \<le> length p"
  then have "sub i n p @ drop (i + n) p = drop i p"
    by (simp add: sub_def) (metis append_take_drop_id drop_drop add.commute)
  with \<open>i + n \<le> length p\<close> show ?thesis
    by (simp add: put_def)
qed

lemmas buffer_simps =
  ld16_put_outside ld32_put_outside sub_put_disjoint nth_put_outside nth_put_inside

end
