(* ===== verification/Checksum.thy ===== *)
theory Checksum
  imports Net_Prelude
begin

text \<open>
  The Internet checksum and the byte hashes that every stack uses. The repository has three
  versions of \<^verbatim>\<open>checksum\<close>: \<^verbatim>\<open>code-exp2/include/checksum.h\<close> (\<open>checksum\<close>) folds in a loop,
  \<^verbatim>\<open>code-exp5/include/checksum.h\<close> (\<open>checksum5\<close>) adds the odd byte first and folds twice,
  \<^verbatim>\<open>code-exp7/include/checksum.h\<close> (\<open>checksum7\<close>) adds the odd byte after folding. The pointer
  and the byte count become one byte list. The specification is the ones' complement sum of
  the 16-bit words (\<open>wsum\<close>, \<open>oc16\<close>).
\<close>

section \<open>The code\<close>

fun csum_words :: "bytes \<Rightarrow> u32 \<Rightarrow> u32" where
  "csum_words (a # b # r) s = csum_words r (s + ucast (le16 a b))"
| "csum_words _ s = s"

function csum_fold :: "u32 \<Rightarrow> u32" where
  "csum_fold s =
     (if drop_bit 16 s \<noteq> 0 then csum_fold (drop_bit 16 s + (s AND 0xffff)) else s)"
  by pat_completeness auto

definition checksum5 :: "bytes \<Rightarrow> u32 \<Rightarrow> u16" where
  "checksum5 bs s =
     (let s1 = (if odd (length bs) then s + ucast (last bs) else s);
          s2 = csum_words bs s1;
          s3 = drop_bit 16 s2 + (s2 AND 0xffff);
          s4 = s3 + drop_bit 16 s3
      in ucast (NOT s4))"

definition checksum7 :: "bytes \<Rightarrow> u32 \<Rightarrow> u16" where
  "checksum7 bs s =
     (let s1 = csum_words bs s;
          s2 = drop_bit 16 s1 + (s1 AND 0xffff);
          s3 = s2 + drop_bit 16 s2;
          s4 = (if odd (length bs) then s3 + ucast (last bs) else s3)
      in ucast (NOT s4))"

definition hash8 :: "bytes \<Rightarrow> u8" where
  "hash8 bs = fold (\<lambda>b r. r XOR b) bs 0"

fun hash16 :: "bytes \<Rightarrow> u16" where
  "hash16 (a # b # r) = le16 a b XOR hash16 r"
| "hash16 [a] = ucast a"
| "hash16 [] = 0"

section \<open>Folding is reduction to a ones' complement representative\<close>

lemma unat_drop16: "unat (drop_bit 16 (s :: u32)) = unat s div 65536"
  by (simp add: drop_bit_eq_div unat_div)

lemma unat_low16: "unat ((s :: u32) AND 0xffff) = unat s mod 65536"
proof -
  have "(0xffff :: u32) = mask 16" by (simp add: mask_eq_exp_minus_1)
  then have "s AND 0xffff = take_bit 16 s" by (simp add: take_bit_eq_mask)
  then show ?thesis by (simp add: take_bit_eq_mod unat_mod)
qed

lemma unat_ucast_u8 [simp]: "unat (ucast (b :: u8) :: u32) = unat b"
  by (simp add: unsigned_ucast_eq take_bit_nat_eq_self_iff order_less_trans [OF unat_u8_less])

lemma unat_ucast_u16 [simp]: "unat (ucast (b :: u16) :: u32) = unat b"
  by (simp add: unsigned_ucast_eq take_bit_nat_eq_self_iff order_less_trans [OF unat_u16_less])

lemma unat_fold_step:
  "unat (drop_bit 16 s + ((s :: u32) AND 0xffff)) = unat s div 65536 + unat s mod 65536"
proof -
  have "unat s div 65536 + unat s mod 65536 < 4294967296"
    using unat_u32_less [of s] by linarith
  then show ?thesis by (simp add: unat_word_ariths unat_drop16 unat_low16)
qed

termination csum_fold
proof (relation "measure unat")
  fix s :: u32
  assume "drop_bit 16 s \<noteq> 0"
  then have "unat s div 65536 \<noteq> 0" by (metis unat_drop16 unat_eq_zero)
  then have "unat s div 65536 + unat s mod 65536 < unat s"
    using mult_div_mod_eq [of 65536 "unat s"] by linarith
  then show "(drop_bit 16 s + (s AND 0xffff), s) \<in> measure unat"
    by (simp add: unat_fold_step)
qed simp

declare csum_fold.simps [simp del]

definition checksum :: "bytes \<Rightarrow> u32 \<Rightarrow> u16" where
  "checksum bs s =
     (let s1 = csum_words bs s;
          s2 = (if odd (length bs) then s1 + ucast (last bs) else s1)
      in ucast (NOT (csum_fold s2)))"

definition oc16 :: "nat \<Rightarrow> nat" where
  "oc16 n = (if n = 0 then 0 else (n - 1) mod 65535 + 1)"

fun wsum :: "bytes \<Rightarrow> nat" where
  "wsum (a # b # r) = unat (le16 a b) + wsum r"
| "wsum [a] = unat a"
| "wsum [] = 0"

lemma oc16_le [simp]: "oc16 n \<le> 65535"
  by (simp add: oc16_def Suc_le_eq)

lemma oc16_small: "n \<le> 65535 \<Longrightarrow> oc16 n = n"
  by (auto simp: oc16_def)

lemma oc16_cong_mod: "oc16 n mod 65535 = n mod 65535"
  by (cases n) (auto simp: oc16_def mod_simps simp flip: Suc_eq_plus1)

lemma oc16_fold: "oc16 (n div 65536 + n mod 65536) = oc16 n"
proof (cases "n = 0")
  case False
  let ?m = "n div 65536 + n mod 65536"
  have n: "n = ?m + 65535 * (n div 65536)"
    using mult_div_mod_eq [of 65536 n] by linarith
  have "?m \<noteq> 0" using False by (metis add_is_0 mod_div_trivial mult_div_mod_eq mult_0_right)
  then have "n - 1 = (?m - 1) + 65535 * (n div 65536)" using n by linarith
  then have "(n - 1) mod 65535 = (?m - 1) mod 65535" by (metis mod_mult_self2)
  then show ?thesis using False \<open>?m \<noteq> 0\<close> by (simp add: oc16_def)
qed (simp add: oc16_def)

lemma unat_csum_fold: "unat (csum_fold s) = oc16 (unat s)"
proof (induction s rule: csum_fold.induct)
  case (1 s)
  show ?case
  proof (cases "drop_bit 16 s = 0")
    case True
    then have "unat s div 65536 = 0" by (metis unat_drop16 unat_0)
    then have "unat s \<le> 65535" by (simp add: div_eq_0_iff)
    with True show ?thesis by (simp add: csum_fold.simps [of s] oc16_small)
  next
    case False
    with 1 show ?thesis
      by (simp add: csum_fold.simps [of s] unat_fold_step oc16_fold)
  qed
qed

lemma unat_csum_words_even:
  "unat (csum_words bs s) = (unat s + wsum (take (2 * (length bs div 2)) bs)) mod 4294967296"
proof (induction bs s rule: csum_words.induct)
  case (1 a b r s)
  have "unat (s + ucast (le16 a b)) = (unat s + unat (le16 a b)) mod 4294967296"
    by (simp add: unat_word_ariths)
  with 1 show ?case by (simp add: mod_simps add.assoc)
qed simp_all

lemma wsum_odd: "odd (length bs) \<Longrightarrow>
  wsum bs = wsum (take (2 * (length bs div 2)) bs) + unat (last bs)"
proof (induction bs rule: wsum.induct)
  case (1 a b r)
  then have "2 * (length (a # b # r) div 2) = Suc (Suc (2 * (length r div 2)))" by simp
  with 1 show ?case by (auto simp del: odd_two_times_div_two_nat)
qed auto

lemma wsum_even: "even (length bs) \<Longrightarrow> take (2 * (length bs div 2)) bs = bs"
  by simp

lemma unat_csum_odd_byte:
  "unat (if odd (length bs) then csum_words bs s + ucast (last bs) else csum_words bs s)
     = (unat s + wsum bs) mod 4294967296"
  using wsum_odd [of bs]
  by (auto simp: unat_word_ariths unat_csum_words_even mod_simps add.assoc)

lemma unat_not_u16: "unat (NOT (w :: u16)) = 65535 - unat w"
proof -
  have "NOT w = - 1 - w" by (simp add: not_eq_complement)
  moreover have "w \<le> - 1" by simp
  moreover have "unat (- 1 :: u16) = 65535"
    by (simp add: unsigned_minus_1_eq_mask mask_eq_exp_minus_1)
  ultimately show ?thesis by (simp add: unat_sub)
qed

lemma unat_ucast_not: "unat (ucast (NOT (x :: u32)) :: u16) = 65535 - unat x mod 65536"
proof -
  have "(ucast (NOT x) :: u16) = NOT (ucast x)"
    by (rule bit_word_eqI) (auto simp: bit_simps)
  moreover have "unat (ucast x :: u16) = unat x mod 65536"
    by (simp add: unsigned_ucast_eq take_bit_eq_mod)
  ultimately show ?thesis by (simp add: unat_not_u16)
qed

lemma unat_checksum: "unat (checksum bs s) = 65535 - oc16 ((unat s + wsum bs) mod 4294967296)"
proof -
  let ?n = "oc16 ((unat s + wsum bs) mod 4294967296)"
  have "?n < 65536" by (rule le_less_trans [OF oc16_le]) simp
  then have "?n mod 65536 = ?n" by (rule mod_less)
  then show ?thesis
    unfolding checksum_def Let_def unat_ucast_not unat_csum_fold unat_csum_odd_byte by simp
qed

lemma two_folds: "(m :: nat) \<le> 131070 \<Longrightarrow> (m + m div 65536) mod 65536 = oc16 m"
proof -
  assume "m \<le> 131070"
  show ?thesis
  proof (cases "m < 65536")
    case True
    then show ?thesis by (simp add: oc16_small)
  next
    case False
    define l where "l = m - 65536"
    have m: "m = 65536 + l" "l < 65535" using False \<open>m \<le> 131070\<close> by (auto simp: l_def)
    have "m div 65536 = 1" using m by simp
    moreover have "(65536 + l + 1) mod 65536 = l + 1"
    proof -
      have "(65536 + l + 1) mod 65536 = (l + 1) mod 65536"
        by (metis add.assoc mod_add_self1)
      then show ?thesis using m by simp
    qed
    moreover have "oc16 (65536 + l) = l + 1" using m by (simp add: oc16_def)
    ultimately show ?thesis using m by simp
  qed
qed

lemma unat_two_folds:
  fixes x :: u32
  defines "y \<equiv> drop_bit 16 x + (x AND 0xffff)"
  shows "unat (y + drop_bit 16 y) mod 65536 = oc16 (unat x)"
proof -
  let ?m = "unat x div 65536 + unat x mod 65536"
  have y: "unat y = ?m" by (simp add: y_def unat_fold_step)
  have m: "?m \<le> 131070" using unat_u32_less [of x] by linarith
  then have "?m + ?m div 65536 < 4294967296" by linarith
  then have "unat (y + drop_bit 16 y) = ?m + ?m div 65536"
    by (simp add: unat_word_ariths unat_drop16 y)
  then show ?thesis using two_folds [OF m] by (simp add: oc16_fold)
qed

lemma csum_words_commute: "csum_words bs (s + t) = csum_words bs s + t"
  by (induction bs s rule: csum_words.induct) (simp_all add: ac_simps)

lemma unat_checksum5: "unat (checksum5 bs s) = 65535 - oc16 ((unat s + wsum bs) mod 4294967296)"
proof -
  have eq: "csum_words bs (if odd (length bs) then s + ucast (last bs) else s) =
     (if odd (length bs) then csum_words bs s + ucast (last bs) else csum_words bs s)"
    by (simp add: csum_words_commute)
  show ?thesis
    unfolding checksum5_def Let_def unat_ucast_not eq unat_two_folds unat_csum_odd_byte ..
qed

lemma checksum5_checksum: "checksum5 bs s = checksum bs s"
  by (simp add: word_unat_eq_iff unat_checksum5 unat_checksum)

lemma checksum7_even: "even (length bs) \<Longrightarrow> checksum7 bs s = checksum5 bs s"
  by (simp add: checksum7_def checksum5_def)

section \<open>Storing a checksum makes the buffer verify\<close>

lemma wsum_le: "wsum bs \<le> 65535 * ((length bs + 1) div 2)"
proof (induction bs rule: wsum.induct)
  case (1 a b r)
  have "unat (le16 a b) \<le> 65535" using unat_u16_less [of "le16 a b"] by linarith
  with 1 show ?case by simp
next
  case (2 a)
  have "unat a \<le> 65535" using unat_u8_less [of a] by linarith
  then show ?case by simp
qed simp

lemma wsum_put:
  "even i \<Longrightarrow> i + 2 \<le> length bs \<Longrightarrow>
   wsum (put i (bytes16 c) bs) + unat (ld16 i bs) = wsum bs + unat c"
proof (induction bs arbitrary: i rule: wsum.induct)
  case (1 a b r)
  show ?case
  proof (cases "i = 0")
    case True
    then show ?thesis
      by (simp add: put_def bytes16_def ld16_def le16_bytes)
  next
    case False
    with 1 obtain j where j: "i = j + 2" "even j" "j + 2 \<le> length r"
      using that [of "i - 2"] by (cases i) (auto elim: oddE)
    then have "put i (bytes16 c) (a # b # r) = a # b # put j (bytes16 c) r"
      by (simp add: put_def numeral_2_eq_2)
    moreover have "ld16 i (a # b # r) = ld16 j r"
      using j by (simp add: ld16_def)
    ultimately show ?thesis using "1.IH" [OF j(2,3)] by simp
  qed
qed simp_all

lemma oc16_complete: "oc16 (n + (65535 - oc16 n)) = 65535"
proof (cases "n = 0")
  case True
  then show ?thesis by (simp add: oc16_def)
next
  case False
  let ?q = "(n - 1) div 65535"
  have "n - 1 = 65535 * ?q + (n - 1) mod 65535" by simp
  moreover have "(n - 1) mod 65535 < 65535" by simp
  moreover have "oc16 n = (n - 1) mod 65535 + 1" using False by (simp add: oc16_def)
  ultimately have "n + (65535 - oc16 n) = 65535 * ?q + 65535"
    using False by linarith
  then have "n + (65535 - oc16 n) - 1 = 65534 + 65535 * ?q" by linarith
  then have "(n + (65535 - oc16 n) - 1) mod 65535 = 65534" by simp
  then show ?thesis using False by (simp add: oc16_def)
qed

lemma checksum_zero_iff: "checksum bs s = 0 \<longleftrightarrow> oc16 ((unat s + wsum bs) mod 4294967296) = 65535"
proof -
  have "checksum bs s = 0 \<longleftrightarrow> unat (checksum bs s) = 0" by (simp add: unat_eq_zero)
  also have "\<dots> \<longleftrightarrow> oc16 ((unat s + wsum bs) mod 4294967296) = 65535"
    unfolding unat_checksum diff_is_0_eq by (metis le_antisym oc16_le order_refl)
  finally show ?thesis .
qed

lemma checksum_stored:
  assumes "even i" "i + 2 \<le> length bs" "length bs \<le> 65535" "unat s \<le> 0xfffff"
  shows "checksum (put i (bytes16 (checksum (put i [0, 0] bs) s)) bs) s = 0"
proof -
  let ?z = "put i [0, 0] bs" and ?c = "checksum (put i [0, 0] bs) s"
  have z: "?z = put i (bytes16 0) bs"
    by (simp add: bytes16_def lo8_def hi8_def)
  have "wsum ?z \<le> 65535 * 32768"
  proof -
    have "length ?z \<le> 65535" using assms by simp
    then have "(length ?z + 1) div 2 \<le> 32768" by linarith
    then show ?thesis using wsum_le [of ?z] by (meson le_trans mult_le_mono2)
  qed
  then have small: "unat s + wsum ?z + 65535 < 4294967296" using assms(4) by simp
  have "ld16 i ?z = 0" using assms(2) by (simp add: z)
  then have "wsum (put i (bytes16 ?c) ?z) = wsum ?z + unat ?c"
    using wsum_put [of i ?z ?c] assms by simp
  moreover have "put i (bytes16 ?c) ?z = put i (bytes16 ?c) bs"
    using assms by simp
  moreover have "unat ?c = 65535 - oc16 (unat s + wsum ?z)"
    using small by (simp add: unat_checksum)
  ultimately show ?thesis
    using small oc16_complete [of "unat s + wsum ?z"] by (simp add: checksum_zero_iff add.assoc)
qed

lemma oc16_inj_mod: "oc16 m = oc16 n \<Longrightarrow> m mod 65535 = n mod 65535"
  by (metis oc16_cong_mod)

lemma mod_65535_u16:
  assumes "unat (v :: u16) mod 65535 = unat w mod 65535" "v \<noteq> w"
  shows "unat v = 0 \<and> unat w = 65535 \<or> unat v = 65535 \<and> unat w = 0"
proof -
  have "unat v \<noteq> unat w" using assms(2) by (simp add: word_unat_eq_iff)
  moreover have "unat v \<le> 65535" "unat w \<le> 65535"
    using unat_u16_less [of v] unat_u16_less [of w] by linarith+
  moreover have "n \<le> 65535 \<Longrightarrow> n mod 65535 = (if n = 65535 then 0 else n)" for n :: nat
    by auto
  ultimately show ?thesis using assms(1) by (metis (full_types))
qed

section \<open>Properties\<close>

text \<open>
  Property C38: the checksum of the IP and ARP router (\<^verbatim>\<open>code-exp5\<close>) and the checksum of the TCP
  stack (\<^verbatim>\<open>code-exp2\<close>) compute the same value on every buffer and every initial sum, although
  one folds twice and the other folds in a loop, and that value is the complement of the ones'
  complement sum of the buffer's 16-bit words.
\<close>
theorem checksum_versions_agree:
  "checksum5 bs s = checksum bs s \<and>
   unat (checksum bs s) = 65535 - oc16 ((unat s + wsum bs) mod 2 ^ 32)"
  by (simp add: word_unat_eq_iff unat_checksum5 unat_checksum)

text \<open>
  Writing the checksum of a buffer into its (zeroed, 16-bit aligned) checksum field
  makes the checksum of the whole buffer zero, which is how a receiver verifies a header.
\<close>
theorem checksum_verifies:
  assumes "even i" "i + 2 \<le> length bs" "length bs \<le> 65535" "unat s \<le> 0xfffff"
  shows "checksum (put i (bytes16 (checksum (put i [0, 0] bs) s)) bs) s = 0"
  using assms by (rule checksum_stored)

theorem checksum_verifies_witness:
  "checksum (put 2 (bytes16 (checksum (put 2 [0, 0] [69, 0, 7, 7, 200, 33, 5]) 0))
     [69, 0, 7, 7, 200, 33, 5]) 0 = 0"
  by (rule checksum_verifies) simp_all

text \<open>
  the checksum detects the corruption of any single 16-bit word, except for the
  exchange of the two ones' complement zeros 0 and 0xffff.
\<close>
theorem checksum_detects_corruption:
  assumes "even i" "i + 2 \<le> length bs" "length bs \<le> 65535"
    and "w \<noteq> ld16 i bs" "{w, ld16 i bs} \<noteq> {0, 0xffff}"
  shows "checksum (put i (bytes16 w) bs) 0 \<noteq> checksum bs 0"
proof
  let ?b = "put i (bytes16 w) bs" and ?v = "ld16 i bs"
  assume eq: "checksum ?b 0 = checksum bs 0"
  have small: "wsum xs mod 4294967296 = wsum xs" if "length xs \<le> 65535" for xs
  proof -
    have "(length xs + 1) div 2 \<le> 32768" using that by linarith
    then have "wsum xs \<le> 65535 * 32768" using wsum_le [of xs] by (meson le_trans mult_le_mono2)
    then show ?thesis by simp
  qed
  have "65535 - oc16 (wsum ?b) = 65535 - oc16 (wsum bs)"
    using arg_cong [OF eq, of unat] assms by (simp add: unat_checksum small)
  then have "oc16 (wsum ?b) = oc16 (wsum bs)"
    using oc16_le [of "wsum ?b"] oc16_le [of "wsum bs"] by linarith
  then have "(wsum ?b + unat ?v) mod 65535 = (wsum bs + unat ?v) mod 65535"
    by (metis mod_add_left_eq oc16_inj_mod)
  then have "(wsum bs + unat w) mod 65535 = (wsum bs + unat ?v) mod 65535"
    using wsum_put [OF assms(1,2)] by simp
  then have "unat w mod 65535 = unat ?v mod 65535"
    by (auto simp: nat_mod_eq_iff)
  then have "{w, ?v} = {0, 0xffff}"
    using mod_65535_u16 [OF _ assms(4)] by (auto simp: word_unat_eq_iff)
  with assms(5) show False ..
qed

theorem checksum_detects_corruption_witness:
  "checksum (put 2 (bytes16 0x0102) [69, 0, 7, 7, 200, 33, 5]) 0
     \<noteq> checksum [69, 0, 7, 7, 200, 33, 5] 0"
  by (rule checksum_detects_corruption) (simp_all add: ld16_def le16_def doubleton_eq_iff)

text \<open>
  the checksum of the MOSPF router (\<^verbatim>\<open>code-exp7\<close>) is the Internet checksum on
  buffers of even length, but not on buffers of odd length: it adds the last byte after the
  carries have been folded, so the carry this addition produces is lost.
\<close>
theorem checksum7_only_even:
  "(\<forall>bs s. even (length bs) \<longrightarrow> checksum7 bs s = checksum bs s) \<and>
   checksum7 [0xff, 0xff, 1] 0 \<noteq> checksum [0xff, 0xff, 1] 0"
proof
  show "\<forall>bs s. even (length bs) \<longrightarrow> checksum7 bs s = checksum bs s"
    by (simp add: checksum7_even word_unat_eq_iff unat_checksum5 unat_checksum)
  have "unat (checksum [0xff, 0xff, 1] 0) = 65534"
    by (simp add: unat_checksum byte_simps oc16_def)
  moreover have "unat (checksum7 [0xff, 0xff, 1] 0) = 65535"
    by (simp add: checksum7_def unat_ucast_not le16_def)
  ultimately show "checksum7 [0xff, 0xff, 1] 0 \<noteq> checksum [0xff, 0xff, 1] 0" by auto
qed

theorem checksum7_only_even_witness: "checksum7 [1, 2, 3, 4] 5 = checksum [1, 2, 3, 4] 5"
  using checksum7_only_even by simp

end
