(* ===== verification/List_Head.thy ===== *)
theory List_Head
  imports Net_Prelude
begin

text \<open>
  The intrusive doubly linked lists of \<^verbatim>\<open>include/list.h\<close>, on an explicit store: a node is an
  address, \<open>nxt\<close> and \<open>prv\<close> are its two pointer fields (\<open>None\<close> is \<^verbatim>\<open>NULL\<close>), and an operation
  that follows a null pointer faults. \<open>is_list h l xs\<close> says that the circular list with head
  \<open>l\<close> links exactly the nodes \<open>xs\<close>, in order and in both directions. Every operation is
  proved to implement the corresponding operation on \<open>xs\<close>; what happens when a node that is
  already linked is inserted again is proved too, since the TCP socket tables do that.
\<close>

section \<open>The code\<close>

record 'n lheap =
  nxt :: "'n \<Rightarrow> 'n option"
  prv :: "'n \<Rightarrow> 'n option"

definition list_empty :: "'n lheap \<Rightarrow> 'n \<Rightarrow> bool" where
  "list_empty h l = (nxt h l = Some l)"

definition init_list_head :: "'n lheap \<Rightarrow> 'n \<Rightarrow> 'n lheap" where
  "init_list_head h l = h\<lparr>nxt := (nxt h)(l := Some l), prv := (prv h)(l := Some l)\<rparr>"

definition list_insert :: "'n lheap \<Rightarrow> 'n \<Rightarrow> 'n \<Rightarrow> 'n \<Rightarrow> 'n lheap" where
  "list_insert h new p n =
     (let h1 = h\<lparr>prv := (prv h)(n := Some new)\<rparr>;
          h2 = h1\<lparr>nxt := (nxt h1)(p := Some new)\<rparr>;
          h3 = h2\<lparr>nxt := (nxt h2)(new := Some n)\<rparr>
      in h3\<lparr>prv := (prv h3)(new := Some p)\<rparr>)"

definition list_add_head :: "'n lheap \<Rightarrow> 'n \<Rightarrow> 'n \<Rightarrow> 'n lheap res" where
  "list_add_head h new l =
     (case nxt h l of None \<Rightarrow> Inl Null_Deref | Some n \<Rightarrow> Inr (list_insert h new l n))"

definition list_add_tail :: "'n lheap \<Rightarrow> 'n \<Rightarrow> 'n \<Rightarrow> 'n lheap res" where
  "list_add_tail h new l =
     (case prv h l of None \<Rightarrow> Inl Null_Deref | Some p \<Rightarrow> Inr (list_insert h new p l))"

definition list_delete_entry :: "'n lheap \<Rightarrow> 'n \<Rightarrow> 'n lheap res" where
  "list_delete_entry h e =
     (case nxt h e of None \<Rightarrow> Inl Null_Deref
      | Some n \<Rightarrow>
          (let h1 = h\<lparr>prv := (prv h)(n := prv h e)\<rparr>
           in case prv h1 e of None \<Rightarrow> Inl Null_Deref
              | Some p \<Rightarrow> Inr (h1\<lparr>nxt := (nxt h1)(p := nxt h1 e)\<rparr>)))"

text \<open>
  \<open>list_find\<close> is a \<^verbatim>\<open>list_for_each_entry\<close> loop whose body returns at the first node that
  satisfies \<open>test\<close>; \<open>None\<close> means that the loop does not end.
\<close>

partial_function (option) list_find ::
    "'n lheap \<Rightarrow> ('n \<Rightarrow> bool) \<Rightarrow> 'n \<Rightarrow> 'n \<Rightarrow> 'n option res option" where
  "list_find h test l pos =
     (if pos = l then Some (Inr None)
      else if test pos then Some (Inr (Some pos))
      else (case nxt h pos of None \<Rightarrow> Some (Inl Null_Deref) | Some q \<Rightarrow> list_find h test l q))"

definition list_for_each_find ::
    "'n lheap \<Rightarrow> ('n \<Rightarrow> bool) \<Rightarrow> 'n \<Rightarrow> 'n option res option" where
  "list_for_each_find h P l =
     (case nxt h l of None \<Rightarrow> Some (Inl Null_Deref) | Some pos \<Rightarrow> list_find h P l pos)"

text \<open>
  \<open>list_delete_where\<close> is a \<^verbatim>\<open>list_for_each_entry_safe\<close> loop whose body unlinks the nodes that
  satisfy \<open>test\<close>: the successor is read before the body runs.
\<close>

partial_function (option) list_delete_loop ::
    "'n lheap \<Rightarrow> ('n \<Rightarrow> bool) \<Rightarrow> 'n \<Rightarrow> 'n \<Rightarrow> 'n lheap res option" where
  "list_delete_loop h test l pos =
     (if pos = l then Some (Inr h)
      else (case nxt h pos of None \<Rightarrow> Some (Inl Null_Deref)
            | Some q \<Rightarrow>
                (if test pos
                 then (case list_delete_entry h pos of Inl e \<Rightarrow> Some (Inl e)
                       | Inr h' \<Rightarrow> list_delete_loop h' test l q)
                 else list_delete_loop h test l q)))"

definition list_delete_where :: "'n lheap \<Rightarrow> ('n \<Rightarrow> bool) \<Rightarrow> 'n \<Rightarrow> 'n lheap res option" where
  "list_delete_where h test l =
     (case nxt h l of None \<Rightarrow> Some (Inl Null_Deref) | Some pos \<Rightarrow> list_delete_loop h test l pos)"

fun list_add_all :: "'n lheap \<Rightarrow> 'n list \<Rightarrow> 'n \<Rightarrow> 'n lheap res" where
  "list_add_all h [] l = Inr h"
| "list_add_all h (x # xs) l = res_bind (list_add_tail h x l) (\<lambda>h'. list_add_all h' xs l)"

text \<open>
  \<^verbatim>\<open>list_example\<close> of \<^verbatim>\<open>code-exp8/example/list_example.c\<close>: node \<open>Some i\<close> is the entry with
  number \<open>i\<close>, node \<open>None\<close> the list head. The result is the store at the end.
\<close>

definition list_example :: "nat option lheap \<Rightarrow> nat option lheap res option" where
  "list_example h =
     (case list_add_all (init_list_head h None) (map Some [0..<10]) None of
        Inl e \<Rightarrow> Some (Inl e)
      | Inr h' \<Rightarrow> list_delete_where h' (\<lambda>x. case x of None \<Rightarrow> False | Some i \<Rightarrow> i mod 2 = 0) None)"

section \<open>Segments and lists\<close>

fun seg :: "'n lheap \<Rightarrow> 'n \<Rightarrow> 'n list \<Rightarrow> 'n \<Rightarrow> bool" where
  "seg h a [] b \<longleftrightarrow> nxt h a = Some b \<and> prv h b = Some a"
| "seg h a (x # xs) b \<longleftrightarrow> nxt h a = Some x \<and> prv h x = Some a \<and> seg h x xs b"

definition is_list :: "'n lheap \<Rightarrow> 'n \<Rightarrow> 'n list \<Rightarrow> bool" where
  "is_list h l xs \<longleftrightarrow> distinct (l # xs) \<and> seg h l xs l"

lemma seg_append: "seg h a (xs @ y # ys) b \<longleftrightarrow> seg h a xs y \<and> seg h y ys b"
  by (induction xs arbitrary: a) auto

lemma seg_frame:
  assumes "\<And>x. x \<in> set (a # xs) \<Longrightarrow> nxt h' x = nxt h x"
    and "\<And>x. x \<in> set (xs @ [b]) \<Longrightarrow> prv h' x = prv h x"
  shows "seg h' a xs b \<longleftrightarrow> seg h a xs b"
  using assms by (induction xs arbitrary: a) auto

lemma seg_first: "seg h a xs b \<Longrightarrow> nxt h a = Some (hd (xs @ [b]))"
  by (cases xs) auto

lemma seg_last: "seg h a xs b \<Longrightarrow> prv h b = Some (last (a # xs))"
  by (induction xs arbitrary: a) auto

lemma nxt_list_insert: "nxt (list_insert h new p n) =
    (nxt h)(p := Some new, new := Some n)"
  by (simp add: list_insert_def Let_def)

lemma prv_list_insert: "prv (list_insert h new p n) =
    (prv h)(n := Some new, new := Some p)"
  by (simp add: list_insert_def Let_def)

lemmas list_insert_fields = nxt_list_insert prv_list_insert

lemma is_list_fields:
  "is_list h l xs \<Longrightarrow> nxt h l = Some (hd (xs @ [l]))"
  "is_list h l xs \<Longrightarrow> prv h l = Some (last (l # xs))"
  by (auto simp: is_list_def dest: seg_first seg_last)

lemma is_list_frame:
  assumes "\<And>x. x \<in> set (l # xs) \<Longrightarrow> nxt h' x = nxt h x \<and> prv h' x = prv h x"
  shows "is_list h' l xs \<longleftrightarrow> is_list h l xs"
  unfolding is_list_def using assms by (subst seg_frame [where h = h]) auto

lemma is_list_unique: "is_list h l xs \<Longrightarrow> is_list h l ys \<Longrightarrow> xs = ys"
proof -
  have "seg h a xs l \<Longrightarrow> seg h a ys l \<Longrightarrow> l \<notin> set xs \<Longrightarrow> l \<notin> set ys \<Longrightarrow> xs = ys" for a
  proof (induction xs arbitrary: a ys)
    case Nil
    then show ?case by (cases ys) auto
  next
    case (Cons x xs)
    then show ?case by (cases ys) auto
  qed
  then show "is_list h l xs \<Longrightarrow> is_list h l ys \<Longrightarrow> xs = ys" by (auto simp: is_list_def)
qed

section \<open>Each operation implements the list operation\<close>

lemma init_list_head_is_list: "is_list (init_list_head h l) l []"
  by (simp add: init_list_head_def is_list_def)

lemma list_empty_iff: "is_list h l xs \<Longrightarrow> list_empty h l \<longleftrightarrow> xs = []"
  by (cases xs) (auto simp: is_list_def list_empty_def)

lemma list_add_head_is_list:
  assumes "is_list h l xs" "new \<notin> set (l # xs)"
  shows "\<exists>h'. list_add_head h new l = Inr h' \<and> is_list h' l (new # xs)"
proof -
  let ?n = "hd (xs @ [l])"
  let ?h = "list_insert h new l ?n"
  have "seg ?h new xs l"
  proof (cases xs)
    case Nil
    then show ?thesis using assms by (simp add: list_insert_fields)
  next
    case (Cons x ys)
    then have "seg ?h x ys l \<longleftrightarrow> seg h x ys l"
      using assms by (intro seg_frame) (auto simp: list_insert_fields is_list_def)
    then show ?thesis using assms Cons by (auto simp: is_list_def list_insert_fields)
  qed
  then have "is_list ?h l (new # xs)"
    using assms by (auto simp: is_list_def list_insert_fields)
  then show ?thesis
    using is_list_fields(1) [OF assms(1)] by (simp add: list_add_head_def)
qed

lemma list_add_tail_is_list:
  assumes "is_list h l xs" "new \<notin> set (l # xs)"
  shows "\<exists>h'. list_add_tail h new l = Inr h' \<and> is_list h' l (xs @ [new])"
proof -
  let ?p = "last (l # xs)"
  let ?h = "list_insert h new ?p l"
  have "seg ?h l xs new"
  proof (cases xs rule: rev_cases)
    case Nil
    then show ?thesis using assms by (simp add: list_insert_fields)
  next
    case (snoc ys y)
    then have "seg ?h l ys y \<longleftrightarrow> seg h l ys y"
      using assms by (intro seg_frame) (auto simp: list_insert_fields is_list_def)
    then show ?thesis
      using assms snoc by (auto simp: is_list_def list_insert_fields seg_append)
  qed
  then have "is_list ?h l (xs @ [new])"
    using assms by (auto simp: is_list_def list_insert_fields seg_append)
  then show ?thesis
    using is_list_fields(2) [OF assms(1)] by (simp add: list_add_tail_def)
qed

lemma seg_bypass:
  assumes "seg h l as e" "seg h e bs l" "distinct (l # as @ e # bs)"
  shows "seg (h\<lparr>prv := (prv h)(hd (bs @ [l]) := Some (last (l # as))),
              nxt := (nxt h)(last (l # as) := Some (hd (bs @ [l])))\<rparr>) l (as @ bs) l"
    (is "seg ?h l (as @ bs) l")
proof (cases bs)
  case Nil
  show ?thesis
  proof (cases as rule: rev_cases)
    case (snoc ys y)
    then have "seg ?h l ys y \<longleftrightarrow> seg h l ys y"
      using assms Nil by (intro seg_frame) auto
    then show ?thesis using assms Nil snoc by (auto simp: seg_append)
  qed (use Nil in simp)
next
  case (Cons b cs)
  have b: "seg ?h b cs l \<longleftrightarrow> seg h b cs l"
    using assms Cons by (intro seg_frame) (auto split: if_splits dest: last_in_set)
  show ?thesis
  proof (cases as rule: rev_cases)
    case Nil
    then show ?thesis using assms Cons b by auto
  next
    case (snoc ys y)
    then have "seg ?h l ys y \<longleftrightarrow> seg h l ys y"
      using assms Cons by (intro seg_frame) auto
    then show ?thesis using assms Cons snoc b by (auto simp: seg_append)
  qed
qed

lemma list_delete_entry_is_list:
  assumes "is_list h l xs" "e \<in> set xs"
  shows "\<exists>h'. list_delete_entry h e = Inr h' \<and> is_list h' l (remove1 e xs)"
proof -
  obtain as bs where xs: "xs = as @ e # bs" "e \<notin> set as"
    using split_list_first [OF assms(2)] by blast
  have s: "seg h l as e" "seg h e bs l" and d: "distinct (l # as @ e # bs)"
    using assms(1) by (auto simp: is_list_def xs seg_append)
  have ne: "nxt h e = Some (hd (bs @ [l]))" "prv h e = Some (last (l # as))"
    using s by (auto dest: seg_first seg_last)
  have "hd (bs @ [l]) \<noteq> e" using d by (cases bs) auto
  then have "list_delete_entry h e =
      Inr (h\<lparr>prv := (prv h)(hd (bs @ [l]) := Some (last (l # as))),
            nxt := (nxt h)(last (l # as) := Some (hd (bs @ [l])))\<rparr>)"
    using ne by (simp add: list_delete_entry_def Let_def)
  moreover have "remove1 e xs = as @ bs" using xs by (simp add: remove1_append)
  moreover have "distinct (l # as @ bs)" using d by auto
  ultimately show ?thesis using seg_bypass [OF s d] by (simp add: is_list_def)
qed

lemma list_find_seg:
  "seg h a xs l \<Longrightarrow> l \<notin> set xs \<Longrightarrow> list_find h P l (hd (xs @ [l])) = Some (Inr (find P xs))"
proof (induction xs arbitrary: a)
  case Nil
  then show ?case by (simp add: list_find.simps)
next
  case (Cons x xs)
  then have "seg h x xs l" "nxt h x = Some (hd (xs @ [l]))" by (auto dest: seg_first)
  with Cons show ?case by (auto simp: list_find.simps [of h P l x])
qed

lemma list_for_each_find_is_list:
  "is_list h l xs \<Longrightarrow> list_for_each_find h P l = Some (Inr (find P xs))"
  using list_find_seg [of h l xs l P]
  by (auto simp: list_for_each_find_def is_list_def is_list_fields dest: seg_first)

lemma list_insert_frame:
  assumes "is_list h l2 ys" "set (l2 # ys) \<inter> {new, p, n} = {}"
  shows "is_list (list_insert h new p n) l2 ys"
  using assms by (subst is_list_frame [where h = h]) (auto simp: list_insert_fields)

section \<open>Inserting a node that is already first\<close>

lemma list_add_head_twice:
  assumes "nxt h l = Some new" "new \<noteq> l"
  shows "\<exists>h'. list_add_head h new l = Inr h' \<and> nxt h' l = Some new \<and> nxt h' new = Some new"
  using assms by (simp add: list_add_head_def list_insert_fields)

lemma list_find_self_loop:
  assumes "nxt h x = Some x" "x \<noteq> l" "\<not> P x"
  shows "list_find h P l x = None"
proof -
  have "h = h \<and> P = P \<and> l = l \<longrightarrow> pos \<noteq> x" if "list_find h P l pos = Some r" for pos r
  proof (rule list_find.raw_induct
      [where P = "\<lambda>h' test l' pos r. h' = h \<and> test = P \<and> l' = l \<longrightarrow> pos \<noteq> x", OF _ that])
    fix f :: "'a lheap \<Rightarrow> ('a \<Rightarrow> bool) \<Rightarrow> 'a \<Rightarrow> 'a \<Rightarrow> 'a option res option" and h' test l' pos r
    assume IH: "\<And>h' test l' pos r. f h' test l' pos = Some r \<Longrightarrow>
        h' = h \<and> test = P \<and> l' = l \<longrightarrow> pos \<noteq> x"
      and eq: "(if pos = l' then Some (Inr None)
            else if test pos then Some (Inr (Some pos))
            else (case nxt h' pos of None \<Rightarrow> Some (Inl Null_Deref) | Some q \<Rightarrow> f h' test l' q))
            = Some r"
    show "h' = h \<and> test = P \<and> l' = l \<longrightarrow> pos \<noteq> x"
      using eq IH [of h P l x r] assms by (auto split: if_splits)
  qed
  then show ?thesis by (cases "list_find h P l x") auto
qed

section \<open>Removing in a loop\<close>

lemma list_delete_loop_is_list:
  "is_list h l (ys @ zs) \<Longrightarrow>
   \<exists>h'. list_delete_loop h P l (hd (zs @ [l])) = Some (Inr h') \<and>
        is_list h' l (ys @ filter (\<lambda>x. \<not> P x) zs)"
proof (induction zs arbitrary: h ys)
  case Nil
  then show ?case by (simp add: list_delete_loop.simps)
next
  case (Cons z zs)
  have z: "z \<noteq> l" "nxt h z = Some (hd (zs @ [l]))"
    using Cons.prems by (auto simp: is_list_def seg_append dest: seg_first)
  show ?case
  proof (cases "P z")
    case True
    have "remove1 z (ys @ z # zs) = ys @ zs"
      using Cons.prems by (auto simp: is_list_def remove1_append)
    then obtain h1 where h1: "list_delete_entry h z = Inr h1" "is_list h1 l (ys @ zs)"
      using list_delete_entry_is_list [OF Cons.prems, of z] by auto
    then show ?thesis
      using Cons.IH [OF h1(2)] z True by (simp add: list_delete_loop.simps [of h P l z])
  next
    case False
    then show ?thesis
      using Cons.IH [of h "ys @ [z]"] Cons.prems z
      by (simp add: list_delete_loop.simps [of h P l z])
  qed
qed

lemma list_delete_where_is_list:
  "is_list h l xs \<Longrightarrow>
   \<exists>h'. list_delete_where h P l = Some (Inr h') \<and> is_list h' l (filter (\<lambda>x. \<not> P x) xs)"
  using list_delete_loop_is_list [of h l "[]" xs P]
  by (simp add: list_delete_where_def is_list_fields)

section \<open>The list interface\<close>

text \<open>
  What the clients of \<^verbatim>\<open>list.h\<close> rely on: the store represents an abstract list, appending
  appends, unlinking removes, and the two loops search and filter.
\<close>

locale intrusive_list =
  fixes rep :: "'h \<Rightarrow> 'n \<Rightarrow> 'n list \<Rightarrow> bool"
    and init :: "'h \<Rightarrow> 'n \<Rightarrow> 'h"
    and add_tail :: "'h \<Rightarrow> 'n \<Rightarrow> 'n \<Rightarrow> 'h res"
    and search :: "'h \<Rightarrow> ('n \<Rightarrow> bool) \<Rightarrow> 'n \<Rightarrow> 'n option res option"
    and delete_where :: "'h \<Rightarrow> ('n \<Rightarrow> bool) \<Rightarrow> 'n \<Rightarrow> 'h res option"
    and add_all :: "'h \<Rightarrow> 'n list \<Rightarrow> 'n \<Rightarrow> 'h res"
  assumes rep_init: "rep (init h l) l []"
    and rep_add_tail: "rep h l xs \<Longrightarrow> x \<notin> set (l # xs) \<Longrightarrow>
      \<exists>h'. add_tail h x l = Inr h' \<and> rep h' l (xs @ [x])"
    and rep_search: "rep h l xs \<Longrightarrow> search h P l = Some (Inr (find P xs))"
    and rep_delete_where: "rep h l xs \<Longrightarrow>
      \<exists>h'. delete_where h P l = Some (Inr h') \<and> rep h' l (filter (\<lambda>x. \<not> P x) xs)"
    and add_all_Nil: "add_all h [] l = Inr h"
    and add_all_Cons: "add_all h (x # xs) l = res_bind (add_tail h x l) (\<lambda>h'. add_all h' xs l)"
begin

lemma rep_add_all:
  "rep h l xs \<Longrightarrow> distinct (l # xs @ ys) \<Longrightarrow>
   \<exists>h'. add_all h ys l = Inr h' \<and> rep h' l (xs @ ys)"
proof (induction ys arbitrary: h xs)
  case Nil
  then show ?case by (simp add: add_all_Nil)
next
  case (Cons y ys)
  then obtain h1 where "add_tail h y l = Inr h1" "rep h1 l (xs @ [y])"
    using rep_add_tail [of h l xs y] by auto
  with Cons.IH [of h1 "xs @ [y]"] Cons.prems show ?case by (simp add: add_all_Cons)
qed

lemma build_then_filter:
  assumes "distinct (l # ys)"
  shows "\<exists>h1 h2. add_all (init h l) ys l = Inr h1 \<and> delete_where h1 P l = Some (Inr h2) \<and>
           rep h2 l (filter (\<lambda>x. \<not> P x) ys) \<and>
           search h2 P l = Some (Inr None)"
proof -
  obtain h1 where h1: "add_all (init h l) ys l = Inr h1" "rep h1 l ys"
    using rep_add_all [OF rep_init, of l ys h] assms by auto
  obtain h2 where "delete_where h1 P l = Some (Inr h2)" "rep h2 l (filter (\<lambda>x. \<not> P x) ys)"
    using rep_delete_where [OF h1(2)] by blast
  moreover have "find P (filter (\<lambda>x. \<not> P x) ys) = None"
    by (auto simp: find_None_iff)
  ultimately show ?thesis using h1 rep_search [of h2 l] by auto
qed

end

interpretation lh: intrusive_list is_list init_list_head list_add_tail list_for_each_find
    list_delete_where list_add_all
  by unfold_locales
    (simp_all add: init_list_head_is_list list_add_tail_is_list list_for_each_find_is_list
      list_delete_where_is_list)

section \<open>Properties\<close>

text \<open>
  Property C37: on a well-formed circular list, and for a node that is not linked yet, every
  mutating operation of \<^verbatim>\<open>list.h\<close> runs without following a null pointer and implements the
  operation on the abstract list: insertion at the head, insertion at the tail, and removal.
\<close>
theorem list_ops_refine:
  assumes "is_list h l xs"
  shows "(new \<notin> set (l # xs) \<longrightarrow>
            (\<exists>h1. list_add_head h new l = Inr h1 \<and> is_list h1 l (new # xs)) \<and>
            (\<exists>h2. list_add_tail h new l = Inr h2 \<and> is_list h2 l (xs @ [new]))) \<and>
         (e \<in> set xs \<longrightarrow>
            (\<exists>h3. list_delete_entry h e = Inr h3 \<and> is_list h3 l (remove1 e xs))) \<and>
         (list_empty h l \<longleftrightarrow> xs = [])"
  using assms list_add_head_is_list [of h l xs new] list_add_tail_is_list [of h l xs new]
    list_delete_entry_is_list [of h l xs e] list_empty_iff [of h l xs]
  by blast

theorem list_ops_refine_witness:
  "\<exists>h3. list_delete_entry
      (list_insert (init_list_head \<lparr>nxt = \<lambda>_. None, prv = \<lambda>_. None\<rparr> (0 :: nat)) 1 0 0) 1 = Inr h3 \<and>
     is_list h3 0 []"
proof -
  have "is_list (list_insert (init_list_head \<lparr>nxt = \<lambda>_. None, prv = \<lambda>_. None\<rparr> (0 :: nat)) 1 0 0) 0 [1]"
    by (simp add: is_list_def list_insert_fields init_list_head_def)
  from list_ops_refine [OF this, of _ 1] show ?thesis by simp
qed

text \<open>
  the loop \<^verbatim>\<open>list_for_each_entry_safe\<close> with a body that unlinks some of the nodes
  terminates on every well-formed list and leaves exactly the other nodes, in order; the search
  loop \<^verbatim>\<open>list_for_each_entry\<close> terminates and returns the first match.
\<close>
theorem list_loops_correct:
  assumes "is_list h l xs"
  shows "(\<exists>h'. list_delete_where h P l = Some (Inr h') \<and> is_list h' l (filter (\<lambda>x. \<not> P x) xs)) \<and>
         list_for_each_find h P l = Some (Inr (find P xs))"
  using assms by (blast intro: lh.rep_delete_where lh.rep_search)

theorem list_loops_correct_witness:
  "list_for_each_find (init_list_head \<lparr>nxt = \<lambda>_. None, prv = \<lambda>_. None\<rparr> (0 :: nat)) (\<lambda>x. x = 3) 0
     = Some (Inr None)"
  using list_loops_correct [OF lh.rep_init [of "\<lparr>nxt = \<lambda>_. None, prv = \<lambda>_. None\<rparr>" "0 :: nat"], of "\<lambda>x. x = 3"]
  by simp

text \<open>
  inserting at the head a node that is already the first node of a list makes the
  node its own successor, and from then on every search that does not stop at that node loops
  forever: the loop of \<^verbatim>\<open>list_for_each_entry\<close> never reaches the head again.
\<close>
theorem list_double_insert_diverges:
  assumes "is_list h l (x # xs)" "\<not> P x"
  shows "\<exists>h'. list_add_head h x l = Inr h' \<and> nxt h' x = Some x \<and> list_for_each_find h' P l = None"
proof -
  have "nxt h l = Some x" "x \<noteq> l" using assms(1) by (auto simp: is_list_def)
  then obtain h' where "list_add_head h x l = Inr h'" "nxt h' l = Some x" "nxt h' x = Some x"
    using list_add_head_twice [of h l x] by auto
  then show ?thesis
    using list_find_self_loop [of h' x l P] \<open>x \<noteq> l\<close> assms(2) by (simp add: list_for_each_find_def)
qed

theorem list_double_insert_diverges_witness:
  "\<exists>h'. list_add_head (list_insert (init_list_head \<lparr>nxt = \<lambda>_. None, prv = \<lambda>_. None\<rparr> 0) 1 0 0) (1 :: nat) 0
     = Inr h' \<and> nxt h' 1 = Some 1 \<and> list_for_each_find h' (\<lambda>x. x = 2) 0 = None"
  by (rule list_double_insert_diverges [of _ 0 1 "[]"])
    (simp_all add: is_list_def list_insert_fields init_list_head_def)

text \<open>
  the repository's list example terminates, and its list then holds exactly the odd
  numbers below ten in increasing order.
\<close>
theorem list_example_odd:
  "\<exists>h'. list_example h = Some (Inr h') \<and> is_list h' None (map Some [1, 3, 5, 7, 9])"
proof -
  have "distinct (None # map Some [0..<10 :: nat])" by (auto simp: distinct_map)
  from lh.build_then_filter [OF this, of h "\<lambda>x. case x of None \<Rightarrow> False | Some i \<Rightarrow> i mod 2 = 0"]
  obtain h1 h2 where
    "list_add_all (init_list_head h None) (map Some [0..<10]) None = Inr h1"
    "list_delete_where h1 (\<lambda>x. case x of None \<Rightarrow> False | Some i \<Rightarrow> i mod 2 = 0) None = Some (Inr h2)"
    "is_list h2 None
       (filter (\<lambda>x. \<not> (case x of None \<Rightarrow> False | Some i \<Rightarrow> i mod 2 = 0)) (map Some [0..<10]))"
    by blast
  moreover have "filter (\<lambda>x. \<not> (case x of None \<Rightarrow> False | Some i \<Rightarrow> i mod 2 = 0)) (map Some [0..<10])
      = map Some [1, 3, 5, 7, 9 :: nat]"
    by code_simp
  ultimately show ?thesis by (auto simp: list_example_def)
qed

end
