(* ===== verification/Ring_Buffer.thy ===== *)
theory Ring_Buffer
  imports Net_Prelude "HOL-Library.Signed_Division"
begin

text \<open>
  The receive buffer of a TCP socket, \<^verbatim>\<open>code-exp2/include/ring_buffer.h\<close>: a circular byte array
  with one cell kept free. The indices are C integers and \<^verbatim>\<open>%\<close> is \<open>smod\<close>; the bytes a
  \<^verbatim>\<open>memcpy\<close> moves are taken with \<open>sub\<close> and stored with \<open>put\<close>; the failed \<^verbatim>\<open>assert\<close> of
  \<^verbatim>\<open>write_ring_buffer\<close> is a fault. \<open>rb_list\<close> reads the buffer as the queue of bytes it holds,
  and the locale \<open>byte_fifo\<close> is the contract the socket code relies on.
\<close>

section \<open>The code\<close>

record ring_buffer =
  rsize :: int
  head :: int
  tail :: int
  rbuf :: bytes

definition alloc_ring_buffer :: "int \<Rightarrow> ring_buffer" where
  "alloc_ring_buffer n =
     \<lparr>rsize = n + 1, head = 0, tail = 0, rbuf = replicate (nat (n + 1)) 0\<rparr>"

definition ring_buffer_used :: "ring_buffer \<Rightarrow> int" where
  "ring_buffer_used rb = (tail rb - head rb + rsize rb) smod rsize rb"

definition ring_buffer_free :: "ring_buffer \<Rightarrow> int" where
  "ring_buffer_free rb = rsize rb - ring_buffer_used rb - 1"

definition ring_buffer_empty :: "ring_buffer \<Rightarrow> bool" where
  "ring_buffer_empty rb = (ring_buffer_used rb = 0)"

definition ring_buffer_full :: "ring_buffer \<Rightarrow> bool" where
  "ring_buffer_full rb = (ring_buffer_free rb = 0)"

text \<open>The result is the returned length, the bytes written to \<^verbatim>\<open>buf\<close>, and the new buffer.\<close>

definition read_ring_buffer :: "ring_buffer \<Rightarrow> int \<Rightarrow> int \<times> bytes \<times> ring_buffer" where
  "read_ring_buffer rb n =
     (let len = min (ring_buffer_used rb) n
      in if len > 0 then
           (let out = (if head rb + len > rsize rb
                       then (let right = rsize rb - head rb; left = len - right
                             in sub (nat (head rb)) (nat right) (rbuf rb) @
                                sub 0 (nat left) (rbuf rb))
                       else sub (nat (head rb)) (nat len) (rbuf rb))
            in (len, out, rb\<lparr>head := (head rb + len) smod rsize rb\<rparr>))
         else (len, [], rb))"

definition write_ring_buffer :: "ring_buffer \<Rightarrow> bytes \<Rightarrow> ring_buffer res" where
  "write_ring_buffer rb d =
     (let len = int (length d)
      in if \<not> (len > 0 \<and> ring_buffer_free rb \<ge> len) then Inl Assert_Failed
         else
           (let b = (if tail rb + len > rsize rb
                     then (let right = rsize rb - tail rb
                           in put 0 (drop (nat right) d)
                                (put (nat (tail rb)) (take (nat right) d) (rbuf rb)))
                     else put (nat (tail rb)) d (rbuf rb))
            in Inr (rb\<lparr>rbuf := b, tail := (tail rb + len) smod rsize rb\<rparr>)))"

section \<open>The buffer as a queue of bytes\<close>

definition rb_inv :: "ring_buffer \<Rightarrow> bool" where
  "rb_inv rb \<longleftrightarrow> 0 < rsize rb \<and> 0 \<le> head rb \<and> head rb < rsize rb \<and>
     0 \<le> tail rb \<and> tail rb < rsize rb \<and> int (length (rbuf rb)) = rsize rb"

definition rb_list :: "ring_buffer \<Rightarrow> bytes" where
  "rb_list rb = take (nat (ring_buffer_used rb)) (rotate (nat (head rb)) (rbuf rb))"

lemma smod_nonneg: "0 \<le> (a :: int) \<Longrightarrow> 0 < b \<Longrightarrow> a smod b = a mod b"
  by (cases "a = 0") (auto simp: smod_int_alt_def)

text \<open>Under the invariant every index is a natural number.\<close>

lemma rb_inv_nat:
  assumes "rb_inv rb"
  obtains n h t where "rsize rb = int n" "head rb = int h" "tail rb = int t"
    "length (rbuf rb) = n" "h < n" "t < n" "ring_buffer_used rb = int ((t + n - h) mod n)"
proof -
  obtain n h t where e: "rsize rb = int n" "head rb = int h" "tail rb = int t" "h < n" "t < n"
    using assms unfolding rb_inv_def by (metis less_imp_le nonneg_int_cases of_nat_less_iff)
  then have "tail rb - head rb + rsize rb = int (t + n - h)" by linarith
  then have "ring_buffer_used rb = int (t + n - h) smod int n"
    unfolding ring_buffer_used_def e(1) by simp
  then have "ring_buffer_used rb = int (t + n - h) mod int n"
    using e by (metis gr_implies_not0 neq0_conv of_nat_0_le_iff of_nat_0_less_iff smod_nonneg)
  then have "ring_buffer_used rb = int ((t + n - h) mod n)" by (simp add: zmod_int)
  moreover have "length (rbuf rb) = n" using assms e by (simp add: rb_inv_def)
  ultimately show thesis using that e by blast
qed

lemma used_bounds: "rb_inv rb \<Longrightarrow> 0 \<le> ring_buffer_used rb \<and> ring_buffer_used rb < rsize rb"
  by (erule rb_inv_nat) simp

lemma length_rb_list: "rb_inv rb \<Longrightarrow> int (length (rb_list rb)) = ring_buffer_used rb"
  by (erule rb_inv_nat) (simp add: rb_list_def order_less_imp_le)

lemma alloc_inv: "0 \<le> n \<Longrightarrow> rb_inv (alloc_ring_buffer n) \<and> rb_list (alloc_ring_buffer n) = []"
  by (simp add: rb_inv_def alloc_ring_buffer_def rb_list_def ring_buffer_used_def smod_nonneg)

lemma tail_position:
  assumes "h < n" "t < (n :: nat)" shows "(h + (t + n - h) mod n) mod n = t"
proof -
  have "(h + (t + n - h) mod n) mod n = (h + (t + n - h)) mod n" by (simp add: mod_simps)
  also have "\<dots> = t" using assms by simp
  finally show ?thesis .
qed

lemma distance_unique:
  assumes "(a + x) mod n = t" "a < n" "x < (n :: nat)"
  shows "(t + n - a) mod n = x"
proof (cases "a + x < n")
  case True
  then have "t + n - a = x + n" using assms by simp
  then show ?thesis using assms by simp
next
  case False
  then have "a + x - n < n" using assms by linarith
  then have "t = a + x - n" using assms False by (simp add: mod_if)
  then show ?thesis using assms False by simp
qed

lemma mod_shift: "k \<le> u \<Longrightarrow> ((h + k) mod s + (u - k)) mod s = (h + u) mod (s :: nat)"
  by (metis add.assoc le_add_diff_inverse mod_add_left_eq)

lemma mod_shift_back:
  assumes "u \<le> (s :: nat)" shows "((h + u) mod s + (i + s - u) mod s) mod s = (h + i) mod s"
proof -
  have "((h + u) mod s + (i + s - u) mod s) mod s = (h + u + (i + s - u)) mod s"
    by (rule mod_add_eq)
  also have "h + u + (i + s - u) = h + i + s" using assms by simp
  finally show ?thesis by simp
qed

lemma used_by_position:
  assumes "rsize rb = int n" "head rb = int h" "tail rb = int ((h + u) mod n)" "h < n" "u < n"
    "length (rbuf rb) = n"
  shows "rb_inv rb" "ring_buffer_used rb = int u"
proof -
  show i: "rb_inv rb" using assms by (simp add: rb_inv_def)
  show "ring_buffer_used rb = int u"
    using i by (rule rb_inv_nat) (use assms distance_unique [of h u n] in auto)
qed

subsection \<open>Reading\<close>

lemma wrapped_read:
  assumes "h < length b" "k \<le> length b"
  shows "(if h + k > length b then sub h (length b - h) b @ sub 0 (k - (length b - h)) b
          else sub h k b) = take k (rotate h b)"
  using assms by (auto simp: sub_def rotate_drop_take)

lemma take_rotate_add:
  assumes "k \<le> u" "u \<le> length b"
  shows "take (u - k) (rotate k b) = drop k (take u b)"
proof (cases "k = length b")
  case False
  then have "k < length b" using assms by simp
  then have "rotate k b = drop k b @ take k b" by (simp add: rotate_drop_take)
  then show ?thesis using assms by (simp add: drop_take)
qed (use assms in simp)

lemma read_ring_buffer_spec:
  assumes "rb_inv rb" "0 \<le> n"
  shows "\<exists>rb'. read_ring_buffer rb n =
           (min (ring_buffer_used rb) n, take (nat n) (rb_list rb), rb') \<and>
         rb_inv rb' \<and> rb_list rb' = drop (nat n) (rb_list rb) \<and> rsize rb' = rsize rb"
proof (cases "min (ring_buffer_used rb) n > 0")
  case False
  then have "ring_buffer_used rb = 0 \<or> n = 0" using used_bounds [OF assms(1)] assms(2) by linarith
  then have "take (nat n) (rb_list rb) = [] \<and> drop (nat n) (rb_list rb) = rb_list rb"
    by (auto simp: rb_list_def)
  moreover have "read_ring_buffer rb n = (min (ring_buffer_used rb) n, [], rb)"
    unfolding read_ring_buffer_def Let_def using False by (simp only: if_False)
  ultimately show ?thesis using assms(1) by auto
next
  case True
  from assms(1) obtain s h t where
    f: "rsize rb = int s" "head rb = int h" "tail rb = int t" "length (rbuf rb) = s"
      "h < s" "t < s" "ring_buffer_used rb = int ((t + s - h) mod s)"
    by (rule rb_inv_nat)
  define u where "u = (t + s - h) mod s"
  obtain m where m: "n = int m" using assms(2) nonneg_int_cases by blast
  define k where "k = min u m"
  have k: "0 < k" "k \<le> u" "u < s" using True f m by (auto simp: k_def u_def)
  have l: "min (ring_buffer_used rb) n = int k" using f m by (simp add: k_def u_def)
  let ?rb = "rb\<lparr>head := int ((h + k) mod s)\<rparr>"
  have out: "(if h + k > s then sub h (s - h) (rbuf rb) @ sub 0 (k - (s - h)) (rbuf rb)
      else sub h k (rbuf rb)) = take k (rotate h (rbuf rb))"
    unfolding f(4) [symmetric] by (rule wrapped_read) (use f k in simp_all)
  have "take k (rotate h (rbuf rb)) = take m (rb_list rb)"
    using f m k by (simp add: rb_list_def k_def u_def min.commute)
  moreover have "(int h + int k) smod int s = int ((h + k) mod s)"
    using f k by (simp add: smod_nonneg zmod_int)
  moreover have "nat (int s - int h) = s - h" "nat (int k - (int s - int h)) = k - (s - h)"
    using f by linarith+
  moreover have "(int h + int k > int s) = (h + k > s)" by linarith
  ultimately have result: "read_ring_buffer rb n = (int k, take m (rb_list rb), ?rb)"
    using k(1) unfolding read_ring_buffer_def Let_def l f(1,2) nat_int
    by (simp only: of_nat_0_less_iff if_True out)
  have tl: "t = (h + u) mod s" using tail_position [of h s t] f by (simp add: u_def)
  have "(h + u) mod s = ((h + k) mod s + (u - k)) mod s" using mod_shift [OF k(2)] ..
  with tl f(3) have "tail ?rb = int (((h + k) mod s + (u - k)) mod s)" by simp
  moreover have "(h + k) mod s < s" using f(5) by (intro mod_less_divisor) linarith
  moreover have "u - k < s" using k by linarith
  ultimately have inv: "rb_inv ?rb" and used: "ring_buffer_used ?rb = int (u - k)"
    using used_by_position [of ?rb s "(h + k) mod s" "u - k"] f(1,4) by simp_all
  moreover have "rb_list ?rb = drop m (rb_list rb)"
  proof -
    have "ring_buffer_used ?rb = int (u - k)" by (rule used)
    then have "rb_list ?rb = take (u - k) (rotate ((h + k) mod s) (rbuf rb))"
      by (simp add: rb_list_def)
    also have "\<dots> = take (u - k) (rotate k (rotate h (rbuf rb)))"
      using f by (metis add.commute rotate_conv_mod rotate_rotate)
    also have "\<dots> = drop k (take u (rotate h (rbuf rb)))"
      using take_rotate_add [of k u "rotate h (rbuf rb)"] f k by simp
    also have "\<dots> = drop m (rb_list rb)"
      using f by (auto simp: rb_list_def k_def u_def min_def)
    finally show ?thesis .
  qed
  ultimately show ?thesis using result l m by simp
qed

subsection \<open>Writing\<close>

lemma wrapped_write_nth:
  assumes "t < length b" "length d \<le> length b" "k < length b"
  defines "b' \<equiv> (if t + length d > length b
      then put 0 (drop (length b - t) d) (put t (take (length b - t) d) b) else put t d b)"
  shows "b' ! k = (if (k + length b - t) mod length b < length d
                   then d ! ((k + length b - t) mod length b) else b ! k)"
    and "length b' = length b"
proof -
  have kt: "(k + length b - t) mod length b = (if t \<le> k then k - t else k + length b - t)"
  proof (cases "t \<le> k")
    case True
    then have "k + length b - t = (k - t) + length b" by simp
    then have "(k + length b - t) mod length b = (k - t) mod length b"
      by (metis mod_add_self2)
    then show ?thesis using True assms(3) by simp
  qed (use assms in simp)
  show "b' ! k = (if (k + length b - t) mod length b < length d
                   then d ! ((k + length b - t) mod length b) else b ! k)"
    using assms by (auto simp: kt nth_put b'_def add.commute)
  show "length b' = length b" using assms by (auto simp: b'_def)
qed

lemma wrapped_write:
  assumes "h < length b" "u + length d < length b" "t = (h + u) mod length b"
  defines "b' \<equiv> (if t + length d > length b
      then put 0 (drop (length b - t) d) (put t (take (length b - t) d) b) else put t d b)"
  shows "take (u + length d) (rotate h b') = take u (rotate h b) @ d" "length b' = length b"
proof -
  have "0 < length b" using assms(1) by linarith
  then have t: "t < length b" unfolding assms(3) by (rule mod_less_divisor)
  show len: "length b' = length b"
    using wrapped_write_nth(2) [of t b d 0] assms t by (simp add: b'_def)
  have pos: "((h + i) mod length b + length b - t) mod length b = (i + length b - u) mod length b"
    if "i < length b" for i
  proof (rule distance_unique)
    show "(t + (i + length b - u) mod length b) mod length b = (h + i) mod length b"
      unfolding assms(3) by (rule mod_shift_back) (use assms(2) in simp)
  next
    show "(i + length b - u) mod length b < length b"
      using t by (intro mod_less_divisor) linarith
  qed (use t in simp)
  show "take (u + length d) (rotate h b') = take u (rotate h b) @ d"
  proof (rule nth_equalityI)
    show "length (take (u + length d) (rotate h b')) = length (take u (rotate h b) @ d)"
      using assms(2) by (simp add: len)
  next
    fix i assume "i < length (take (u + length d) (rotate h b'))"
    then have i: "i < u + length d" "i < length b" using assms(2) len by simp_all
    have k: "(h + i) mod length b < length b"
      using i by (intro mod_less_divisor) linarith
    have "take (u + length d) (rotate h b') ! i = b' ! ((h + i) mod length b)"
      using i len by (simp add: nth_rotate add.commute)
    also have "\<dots> = (if (i + length b - u) mod length b < length d
        then d ! ((i + length b - u) mod length b) else b ! ((h + i) mod length b))"
      unfolding b'_def using wrapped_write_nth(1) [OF t _ k, of d] assms(2) pos [OF i(2)] by simp
    also have "\<dots> = (take u (rotate h b) @ d) ! i"
    proof (cases "i < u")
      case True
      then have "(i + length b - u) mod length b = i + length b - u" using assms(2) by simp
      moreover have "\<not> i + length b - u < length d" using True assms(2) by linarith
      ultimately show ?thesis using True assms(2) i
        by (simp add: nth_append nth_rotate add.commute)
    next
      case False
      then have "i + length b - u = (i - u) + length b" by simp
      then have "(i + length b - u) mod length b = (i - u) mod length b" by (metis mod_add_self2)
      also have "\<dots> = i - u" using i by (intro mod_less) linarith
      finally have e: "(i + length b - u) mod length b = i - u" .
      have "length (take u (rotate h b)) = u" using assms(2) by simp
      moreover have "i - u < length d" using False i by linarith
      ultimately show ?thesis unfolding e using False by (simp add: nth_append)
    qed
    finally show "take (u + length d) (rotate h b') ! i = (take u (rotate h b) @ d) ! i" .
  qed
qed

lemma write_ring_buffer_spec:
  assumes "rb_inv rb" "d \<noteq> []" "int (length d) \<le> ring_buffer_free rb"
  shows "\<exists>rb'. write_ring_buffer rb d = Inr rb' \<and> rb_inv rb' \<and> rb_list rb' = rb_list rb @ d \<and>
           rsize rb' = rsize rb"
proof -
  from assms(1) obtain s h t where
    f: "rsize rb = int s" "head rb = int h" "tail rb = int t" "length (rbuf rb) = s"
      "h < s" "t < s" "ring_buffer_used rb = int ((t + s - h) mod s)"
    by (rule rb_inv_nat)
  define u where "u = (t + s - h) mod s"
  have t: "t = (h + u) mod s" using tail_position [of h s t] f by (simp add: u_def)
  have ud: "u + length d < s" using assms(3) f by (simp add: ring_buffer_free_def u_def)
  define b where "b = (if t + length d > length (rbuf rb)
             then put 0 (drop (length (rbuf rb) - t) d)
                    (put t (take (length (rbuf rb) - t) d) (rbuf rb))
             else put t d (rbuf rb))"
  let ?rb = "rb\<lparr>rbuf := b, tail := int ((t + length d) mod s)\<rparr>"
  have b: "take (u + length d) (rotate h b) = take u (rotate h (rbuf rb)) @ d" "length b = s"
    using wrapped_write [of h "rbuf rb" u d t] f(4,5) ud t unfolding b_def by metis+
  have "(int t + int (length d)) smod int s = int ((t + length d) mod s)"
    using f by (simp add: smod_nonneg zmod_int)
  moreover have "nat (int s - int t) = length (rbuf rb) - t"
    "(int t + int (length d) > int s) = (t + length d > length (rbuf rb))"
    using f by linarith+
  moreover have "\<not> \<not> (int (length d) > 0 \<and> ring_buffer_free rb \<ge> int (length d))"
    using assms(2,3) by simp
  ultimately have "write_ring_buffer rb d = Inr ?rb"
    unfolding write_ring_buffer_def Let_def f(1,3) b_def by (simp only: if_False nat_int)
  moreover have "(t + length d) mod s = (h + (u + length d)) mod s"
    unfolding t by (metis add.assoc mod_add_left_eq)
  then have "rb_inv ?rb" and used: "ring_buffer_used ?rb = int (u + length d)"
    using used_by_position [of ?rb s h "u + length d"] f(1,2,5) ud b(2) by simp_all
  moreover have "rb_list ?rb = rb_list rb @ d"
    unfolding rb_list_def used using b(1) f(2,7) by (simp add: u_def nat_add_distrib)
  ultimately show ?thesis by auto
qed

lemma write_ring_buffer_assert:
  "write_ring_buffer rb d = Inl Assert_Failed \<longleftrightarrow>
     d = [] \<or> ring_buffer_free rb < int (length d)"
  by (auto simp: write_ring_buffer_def Let_def)

section \<open>The contract of the receive buffer\<close>

text \<open>
  What \<^verbatim>\<open>tcp_move_recv_ofo_buffer\<close> and \<^verbatim>\<open>tcp_sock_read\<close> rely on: the buffer holds a list of
  bytes of bounded length, a write appends, a read takes from the front. A client that only
  writes what fits and reads what is there never loses, repeats or reorders a byte.
\<close>

datatype rb_op = Wr bytes | Rd nat

locale byte_fifo =
  fixes inv :: "'q \<Rightarrow> bool"
    and contents :: "'q \<Rightarrow> bytes"
    and capacity :: "'q \<Rightarrow> nat"
    and enqueue :: "'q \<Rightarrow> bytes \<Rightarrow> 'q res"
    and dequeue :: "'q \<Rightarrow> int \<Rightarrow> int \<times> bytes \<times> 'q"
    and run :: "'q \<Rightarrow> rb_op list \<Rightarrow> (bytes \<times> bytes \<times> 'q) res"
  assumes write_ok: "inv q \<Longrightarrow> d \<noteq> [] \<Longrightarrow> length (contents q) + length d \<le> capacity q \<Longrightarrow>
      \<exists>q'. enqueue q d = Inr q' \<and> inv q' \<and> contents q' = contents q @ d \<and> capacity q' = capacity q"
    and write_full: "inv q \<Longrightarrow> d = [] \<or> capacity q < length (contents q) + length d \<Longrightarrow>
      enqueue q d = Inl Assert_Failed"
    and read_ok: "inv q \<Longrightarrow> \<exists>m q'. dequeue q (int n) = (m, take n (contents q), q') \<and> inv q' \<and>
      contents q' = drop n (contents q) \<and> capacity q' = capacity q"
    and run_Nil: "run q [] = Inr ([], [], q)"
    and run_Wr: "run q (Wr d # ops) = res_bind (enqueue q d) (\<lambda>q'. res_bind (run q' ops)
      (\<lambda>(i, r, q''). Inr (d @ i, r, q'')))"
    and run_Rd: "run q (Rd n # ops) = (case dequeue q (int n) of (_, x, q') \<Rightarrow> res_bind (run q' ops)
      (\<lambda>(i, r, q''). Inr (i, x @ r, q'')))"
begin

lemma fifo_stream:
  "inv q \<Longrightarrow> run q ops = Inr (i, out, q') \<Longrightarrow> inv q' \<and> contents q @ i = out @ contents q'"
proof (induction ops arbitrary: q i out)
  case Nil
  then show ?case by (simp add: run_Nil)
next
  case (Cons op ops)
  show ?case
  proof (cases op)
    case (Wr d)
    then obtain q1 i1 where w: "enqueue q d = Inr q1" "run q1 ops = Inr (i1, out, q')" "i = d @ i1"
      using Cons.prems(2) by (auto simp: run_Wr res_simps)
    then have "d \<noteq> [] \<and> length (contents q) + length d \<le> capacity q"
      using write_full [OF Cons.prems(1), of d] by force
    then have "inv q1 \<and> contents q1 = contents q @ d"
      using write_ok [OF Cons.prems(1), of d] w(1) by auto
    with Cons.IH [of q1 i1 out] w show ?thesis by auto
  next
    case (Rd n)
    obtain m q1 where r: "dequeue q (int n) = (m, take n (contents q), q1)" "inv q1"
      "contents q1 = drop n (contents q)"
      using read_ok [OF Cons.prems(1), of n] by blast
    then obtain o1 where "run q1 ops = Inr (i, o1, q')" "out = take n (contents q) @ o1"
      using Cons.prems(2) Rd by (auto simp: run_Rd res_simps)
    with Cons.IH [of q1 i o1] r have "inv q'" "drop n (contents q) @ i = o1 @ contents q'" by auto
    then show ?thesis using \<open>out = _\<close> by (metis append.assoc append_take_drop_id)
  qed
qed

end

fun rb_run :: "ring_buffer \<Rightarrow> rb_op list \<Rightarrow> (bytes \<times> bytes \<times> ring_buffer) res" where
  "rb_run rb [] = Inr ([], [], rb)"
| "rb_run rb (Wr d # ops) = res_bind (write_ring_buffer rb d) (\<lambda>rb'. res_bind (rb_run rb' ops)
     (\<lambda>(i, r, rb''). Inr (d @ i, r, rb'')))"
| "rb_run rb (Rd n # ops) = (case read_ring_buffer rb (int n) of (_, x, rb') \<Rightarrow>
     res_bind (rb_run rb' ops) (\<lambda>(i, r, rb''). Inr (i, x @ r, rb'')))"

definition rb_capacity :: "ring_buffer \<Rightarrow> nat" where
  "rb_capacity rb = nat (rsize rb - 1)"

lemma rb_fits_iff:
  "rb_inv rb \<Longrightarrow> int (length d) \<le> ring_buffer_free rb \<longleftrightarrow>
     length (rb_list rb) + length d \<le> rb_capacity rb"
  using length_rb_list [of rb] used_bounds [of rb]
  by (auto simp: ring_buffer_free_def rb_capacity_def rb_inv_def)

interpretation rb: byte_fifo rb_inv rb_list rb_capacity write_ring_buffer read_ring_buffer rb_run
proof unfold_locales
  fix rb and d :: bytes
  assume i: "rb_inv rb" and "d \<noteq> []" "length (rb_list rb) + length d \<le> rb_capacity rb"
  then show "\<exists>rb'. write_ring_buffer rb d = Inr rb' \<and> rb_inv rb' \<and> rb_list rb' = rb_list rb @ d \<and>
      rb_capacity rb' = rb_capacity rb"
    using write_ring_buffer_spec [of rb d] by (auto simp: rb_fits_iff rb_capacity_def)
next
  fix rb and d :: bytes
  assume "rb_inv rb" "d = [] \<or> rb_capacity rb < length (rb_list rb) + length d"
  then show "write_ring_buffer rb d = Inl Assert_Failed"
    using rb_fits_iff [of rb d] by (auto simp: write_ring_buffer_assert)
next
  fix rb n
  assume "rb_inv rb"
  then show "\<exists>m rb'. read_ring_buffer rb (int n) = (m, take n (rb_list rb), rb') \<and> rb_inv rb' \<and>
      rb_list rb' = drop n (rb_list rb) \<and> rb_capacity rb' = rb_capacity rb"
    using read_ring_buffer_spec [of rb "int n"] by (auto simp: rb_capacity_def)
qed simp_all

section \<open>Properties\<close>

text \<open>
  a write that fits succeeds, keeps the buffer well formed and appends the bytes to
  the queue, also when the write wraps around the end of the array; a write of zero bytes or of
  more bytes than are free fails its assertion.
\<close>
theorem write_ring_buffer_refines:
  assumes "rb_inv rb"
  shows "if d \<noteq> [] \<and> length (rb_list rb) + length d \<le> rb_capacity rb
         then \<exists>rb'. write_ring_buffer rb d = Inr rb' \<and> rb_inv rb' \<and> rb_list rb' = rb_list rb @ d \<and>
                    ring_buffer_used rb' = ring_buffer_used rb + int (length d)
         else write_ring_buffer rb d = Inl Assert_Failed"
proof (cases "d \<noteq> [] \<and> length (rb_list rb) + length d \<le> rb_capacity rb")
  case True
  then obtain rb' where "write_ring_buffer rb d = Inr rb'" "rb_inv rb'" "rb_list rb' = rb_list rb @ d"
    using rb.write_ok [OF assms] by blast
  moreover from this have "ring_buffer_used rb' = ring_buffer_used rb + int (length d)"
    using length_rb_list [of rb'] length_rb_list [OF assms] by simp
  ultimately show ?thesis using True by auto
next
  case False
  then show ?thesis using rb.write_full [OF assms, of d] by (auto simp: not_le)
qed

theorem write_ring_buffer_refines_witness:
  "\<exists>rb'. write_ring_buffer (alloc_ring_buffer 4) [1, 2, 3] = Inr rb' \<and> rb_inv rb' \<and>
     rb_list rb' = rb_list (alloc_ring_buffer 4) @ [1, 2, 3] \<and>
     ring_buffer_used rb' = ring_buffer_used (alloc_ring_buffer 4) + 3"
  using write_ring_buffer_refines [of "alloc_ring_buffer 4" "[1, 2, 3]"] alloc_inv [of 4]
  by (simp add: rb_capacity_def alloc_ring_buffer_def)

text \<open>
  a read of \<open>n\<close> bytes returns the first \<open>min n used\<close> bytes of the queue, also when
  they wrap around the end of the array, and removes exactly these.
\<close>
theorem read_ring_buffer_refines:
  assumes "rb_inv rb" "0 \<le> n"
  shows "\<exists>rb'. read_ring_buffer rb n =
           (min (ring_buffer_used rb) n, take (nat n) (rb_list rb), rb') \<and>
         rb_inv rb' \<and> rb_list rb' = drop (nat n) (rb_list rb) \<and> rsize rb' = rsize rb"
  using assms by (rule read_ring_buffer_spec)

theorem read_ring_buffer_refines_witness:
  "\<exists>rb'. read_ring_buffer \<lparr>rsize = 4, head = 3, tail = 2, rbuf = [8, 9, 0, 7]\<rparr> 2 = (2, [7, 8], rb')"
  using read_ring_buffer_refines [of "\<lparr>rsize = 4, head = 3, tail = 2, rbuf = [8, 9, 0, 7]\<rparr>" 2]
  by (auto simp: rb_inv_def ring_buffer_used_def rb_list_def smod_int_alt_def numeral_3_eq_3
      numeral_2_eq_2)

text \<open>
  Property C33: the receive buffer is a FIFO stream. Over any sequence of writes and reads that
  does not fail an assertion, from a freshly allocated buffer, the bytes read out followed by the
  bytes still in the buffer are exactly the bytes written, in order.
\<close>
theorem ring_buffer_stream:
  assumes "0 \<le> n" "rb_run (alloc_ring_buffer n) ops = Inr (i, out, rb')"
  shows "i = out @ rb_list rb'"
  using rb.fifo_stream [OF _ assms(2)] alloc_inv [OF assms(1)] by simp

theorem ring_buffer_stream_witness:
  "\<exists>rb'. rb_run (alloc_ring_buffer 3) [Wr [1, 2], Rd 1, Wr [3, 4], Rd 2] = Inr ([1, 2, 3, 4], [1, 2, 3], rb')
     \<and> [1, 2, 3, 4] = [1, 2, 3] @ rb_list rb'"
proof -
  let ?rb = "\<lparr>rsize = 4, head = 3, tail = 0, rbuf = [1, 2, 3, 4]\<rparr>"
  have r: "rb_run (alloc_ring_buffer 3) [Wr [1, 2], Rd 1, Wr [3, 4], Rd 2]
      = Inr ([1, 2, 3, 4], [1, 2, 3], ?rb)"
    by code_simp
  show ?thesis using ring_buffer_stream [OF _ r] r by auto
qed

end
