(* ===== verification/Synch_Wait.thy ===== *)
theory Synch_Wait
  imports Net_Prelude
begin

text \<open>
  The wait structures of \<^verbatim>\<open>code-exp2/include/synch_wait.h\<close>, on which \<^verbatim>\<open>connect\<close>, \<^verbatim>\<open>accept\<close>,
  \<^verbatim>\<open>read\<close> and \<^verbatim>\<open>write\<close> of a socket sleep. Each function runs with the structure's mutex held,
  so it is one atomic step; \<^verbatim>\<open>sleep_on\<close> gives the mutex up inside \<^verbatim>\<open>pthread_cond_wait\<close>, so it is
  two: \<open>sleep_on_enter\<close> up to the wait and \<open>sleep_on_resume\<close> after it. The step relation
  \<open>sw_step\<close> interleaves any number of sleeping and notifying threads. A signal unblocks at least one of the
  threads that wait, a broadcast all of them, and \<^verbatim>\<open>pthread_cond_wait\<close> may return without a signal, as POSIX allows.
\<close>

section \<open>The code\<close>

record synch_wait =
  notified :: bool
  dead :: bool
  sleep :: bool

definition wait_init :: synch_wait where
  "wait_init = \<lparr>notified = False, dead = False, sleep = False\<rparr>"

abbreviation dead_code :: "synch_wait \<Rightarrow> int" where
  "dead_code w \<equiv> (if dead w then -1 else 0)"

text \<open>The boolean result says whether the condition variable is broadcast or signalled.\<close>

definition wait_exit :: "synch_wait \<Rightarrow> synch_wait \<times> bool" where
  "wait_exit w = (if dead w then (w, False) else (w\<lparr>dead := True\<rparr>, sleep w))"

definition wake_up :: "synch_wait \<Rightarrow> int \<times> synch_wait \<times> bool" where
  "wake_up w =
     (if dead w then (dead_code w, w, False)
      else if \<not> notified w then (dead_code w, w\<lparr>notified := True\<rparr>, sleep w)
      else (dead_code w, w, False))"

datatype sleep_result = Returns int | Blocks

definition sleep_on_enter :: "synch_wait \<Rightarrow> sleep_result \<times> synch_wait" where
  "sleep_on_enter w =
     (if dead w then (Returns (dead_code w), w)
      else let w1 = w\<lparr>sleep := True\<rparr>
           in if \<not> notified w1 then (Blocks, w1)
              else (Returns (dead_code w1), w1\<lparr>notified := False, sleep := False\<rparr>))"

definition sleep_on_resume :: "synch_wait \<Rightarrow> int \<times> synch_wait" where
  "sleep_on_resume w = (let w1 = w\<lparr>notified := False, sleep := False\<rparr> in (dead_code w1, w1))"

section \<open>Sleepers and notifiers\<close>

datatype sleeper = Running | Waiting | Signalled

record sw_state =
  sw :: synch_wait
  who :: "nat \<Rightarrow> sleeper"

definition waiting :: "sw_state \<Rightarrow> nat set" where
  "waiting s = {i. who s i = Waiting}"

text \<open>The state with the structure \<open>w\<close> after the threads \<open>X\<close> have been unblocked.\<close>

definition unblock :: "nat set \<Rightarrow> synch_wait \<Rightarrow> sw_state \<Rightarrow> sw_state" where
  "unblock X w s = \<lparr>sw = w, who = (\<lambda>i. if i \<in> X then Signalled else who s i)\<rparr>"

lemma who_unblock [simp]: "who (unblock X w s) i = (if i \<in> X then Signalled else who s i)"
  by (simp add: unblock_def)

text \<open>The step of a thread that notifies or shuts down; \<open>sig\<close> says whether it signals.\<close>

inductive sw_notify :: "sw_state \<Rightarrow> sw_state \<Rightarrow> bool" where
  wake: "wake_up (sw s) = (r, w, sig) \<Longrightarrow> X \<subseteq> waiting s \<Longrightarrow> (if sig then waiting s \<noteq> {} \<longrightarrow> X \<noteq> {} else X = {}) \<Longrightarrow>
     sw_notify s (unblock X w s)"
| exit: "wait_exit (sw s) = (w, sig) \<Longrightarrow> X = (if sig then waiting s else {}) \<Longrightarrow> sw_notify s (unblock X w s)"

text \<open>
  With \<open>one\<close> a thread calls \<^verbatim>\<open>sleep_on\<close> only when no other thread is inside it, as the applications of the
  repository do; without it any number of threads may.
\<close>

inductive sw_step :: "bool \<Rightarrow> sw_state \<Rightarrow> sw_state \<Rightarrow> bool" for one where
  enter_returns: "who s i = Running \<Longrightarrow> (one \<longrightarrow> (\<forall>j. who s j = Running)) \<Longrightarrow>
     sleep_on_enter (sw s) = (Returns r, w) \<Longrightarrow> sw_step one s (s\<lparr>sw := w\<rparr>)"
| enter_blocks: "who s i = Running \<Longrightarrow> (one \<longrightarrow> (\<forall>j. who s j = Running)) \<Longrightarrow>
     sleep_on_enter (sw s) = (Blocks, w) \<Longrightarrow> sw_step one s (s\<lparr>sw := w, who := (who s)(i := Waiting)\<rparr>)"
| notify: "sw_notify s t \<Longrightarrow> sw_step one s t"
| spurious: "who s i = Waiting \<Longrightarrow> sw_step one s (s\<lparr>who := (who s)(i := Signalled)\<rparr>)"
| resume: "who s i = Signalled \<Longrightarrow> sleep_on_resume (sw s) = (r, w) \<Longrightarrow>
     sw_step one s (s\<lparr>sw := w, who := (who s)(i := Running)\<rparr>)"

definition sw_start :: sw_state where
  "sw_start = \<lparr>sw = wait_init, who = (\<lambda>i. Running)\<rparr>"

inductive sw_reachable :: "bool \<Rightarrow> sw_state \<Rightarrow> bool" for one where
  start: "sw_reachable one sw_start"
| step: "sw_reachable one s \<Longrightarrow> sw_step one s t \<Longrightarrow> sw_reachable one t"

inductive_cases sw_stepE: "sw_step one s t"
inductive_cases sw_notifyE: "sw_notify s t"

lemmas sw_defs = wait_exit_def wake_up_def sleep_on_enter_def sleep_on_resume_def wait_init_def

section \<open>One sleeper at a time\<close>

definition sw_inv :: "sw_state \<Rightarrow> bool" where
  "sw_inv s \<longleftrightarrow> (\<forall>i j. who s i \<noteq> Running \<longrightarrow> who s j \<noteq> Running \<longrightarrow> i = j) \<and>
     (\<forall>i. who s i = Waiting \<longrightarrow> sleep (sw s) \<and> \<not> notified (sw s) \<and> \<not> dead (sw s))"

lemma sw_notify_signals:
  assumes "sw_notify s t" "sleep (sw s)" "\<not> notified (sw s)" "\<not> dead (sw s)" "waiting s = {i}"
  shows "t = unblock {i} (sw t) s"
  using assms(1)
proof (cases rule: sw_notify.cases)
  case (wake r w sig X)
  have "sig" using wake(2) assms(2-4) by (auto simp: sw_defs)
  then have "X = {i}" using wake(3,4) assms(5) by auto
  then show ?thesis using wake(1) by (simp add: unblock_def)
next
  case (exit w sig X)
  have "sig" using exit(2) assms(2-4) by (auto simp: sw_defs)
  then show ?thesis using exit(1,3) assms(5) by (simp add: unblock_def)
qed

lemma sw_notify_idle: "sw_notify s t \<Longrightarrow> waiting s = {} \<Longrightarrow> who t = who s"
  by (erule sw_notifyE) (auto simp: unblock_def)

lemma sw_inv_waiting: "sw_inv s \<Longrightarrow> who s i = Waiting \<Longrightarrow> waiting s = {i}"
  by (auto simp: sw_inv_def waiting_def)

lemma sw_notify_inv:
  assumes "sw_notify s t" "sw_inv s"
  shows "sw_inv t"
proof (cases "waiting s = {}")
  case True
  have "who t = who s" by (rule sw_notify_idle [OF assms(1) True])
  moreover have "who s i \<noteq> Waiting" for i using True by (auto simp: waiting_def)
  ultimately show ?thesis using assms(2) by (simp add: sw_inv_def)
next
  case False
  then obtain i where i: "who s i = Waiting" by (auto simp: waiting_def)
  note w = sw_inv_waiting [OF assms(2) i]
  have "sleep (sw s) \<and> \<not> notified (sw s) \<and> \<not> dead (sw s)" using assms(2) i unfolding sw_inv_def by blast
  then have "t = unblock {i} (sw t) s" using sw_notify_signals [OF assms(1) _ _ _ w] by blast
  from arg_cong [OF this, of who] have t: "who t j = (if j = i then Signalled else who s j)" for j by simp
  have "who s j = Running" if "j \<noteq> i" for j using assms(2) i that unfolding sw_inv_def by (metis sleeper.distinct(1))
  then show ?thesis by (simp add: sw_inv_def t)
qed

lemma sw_step_inv: "sw_step True s t \<Longrightarrow> sw_inv s \<Longrightarrow> sw_inv t"
proof (induction rule: sw_step.induct)
  case (enter_returns s i r w)
  then show ?case by (simp add: sw_inv_def)
next
  case (enter_blocks s i w)
  then show ?case by (auto simp: sw_inv_def sw_defs Let_def split: if_splits)
next
  case (notify s t)
  then show ?case by (blast intro: sw_notify_inv)
next
  case (spurious s i)
  then show ?case by (auto simp: sw_inv_def)
next
  case (resume s i r w)
  then have "who s j = Running" if "j \<noteq> i" for j using that unfolding sw_inv_def by (metis sleeper.distinct(3))
  then show ?case by (auto simp: sw_inv_def)
qed

lemma sw_reachable_inv: "sw_reachable True s \<Longrightarrow> sw_inv s"
proof (induction rule: sw_reachable.induct)
  case start
  show ?case by (simp add: sw_inv_def sw_start_def)
next
  case (step s t)
  then show ?case by (blast intro: sw_step_inv)
qed

section \<open>Two sleepers\<close>

text \<open>
  Two threads wait, a notification wakes the first, which clears \<^verbatim>\<open>sleep\<close> although the second still waits.
\<close>

definition w_asleep :: synch_wait where
  "w_asleep = \<lparr>notified = False, dead = False, sleep = True\<rparr>"

definition stranded :: "nat \<Rightarrow> sw_state" where
  "stranded j = \<lparr>sw = wait_init, who = (\<lambda>k. if k = j then Waiting else Running)\<rparr>"

lemma stranded_reachable:
  assumes "i \<noteq> j"
  shows "sw_reachable False (stranded j)"
proof -
  let ?f = "(\<lambda>_. Running)(i := Waiting, j := Waiting)"
  let ?s1 = "\<lparr>sw = w_asleep, who = (\<lambda>_. Running)(i := Waiting)\<rparr>"
  let ?s2 = "\<lparr>sw = w_asleep, who = ?f\<rparr>"
  let ?s3 = "\<lparr>sw = w_asleep\<lparr>notified := True\<rparr>, who = ?f(i := Signalled)\<rparr>"
  have 1: "sw_step False sw_start ?s1"
    using sw_step.enter_blocks [of sw_start i False w_asleep] by (simp add: sw_start_def sw_defs w_asleep_def)
  have 2: "sw_step False ?s1 ?s2"
    using sw_step.enter_blocks [of ?s1 j False w_asleep] assms by (simp add: sw_defs w_asleep_def)
  have "unblock {i} (w_asleep\<lparr>notified := True\<rparr>) ?s2 = ?s3" by (simp add: unblock_def fun_eq_iff)
  then have 3: "sw_step False ?s2 ?s3"
    using sw_notify.wake [of ?s2 0 "w_asleep\<lparr>notified := True\<rparr>" True "{i}"]
    by (intro sw_step.notify) (simp add: sw_defs w_asleep_def waiting_def)
  have "?f(i := Running) = (\<lambda>k. if k = j then Waiting else Running)" using assms by (simp add: fun_eq_iff)
  then have 4: "sw_step False ?s3 (stranded j)"
    using sw_step.resume [of ?s3 i 0 wait_init False] assms by (simp add: sw_defs w_asleep_def stranded_def)
  show ?thesis
    by (rule sw_reachable.step [OF sw_reachable.step [OF sw_reachable.step [OF sw_reachable.step [OF sw_reachable.start 1] 2] 3] 4])
qed

section \<open>Properties\<close>

text \<open>
  Property C39: No wake-up is lost as long as one thread sleeps at a time. In every state that any number of threads
  reach in this way, a thread is blocked in \<^verbatim>\<open>pthread_cond_wait\<close> only if there is no notification it
  has not consumed and the structure has not been shut down; and every step that notifies or shuts
  down unblocks it. With two threads asleep at once it fails: the one that wakes up first clears
  \<^verbatim>\<open>sleep\<close> for both, and then neither a notification nor the shutdown unblocks the other.
\<close>
theorem no_lost_wakeup:
  "(sw_reachable True s \<and> who s i = Waiting \<longrightarrow>
      \<not> notified (sw s) \<and> \<not> dead (sw s) \<and> (\<forall>t. sw_notify s t \<longrightarrow> who t i = Signalled)) \<and>
   (i \<noteq> j \<longrightarrow> (\<exists>u. sw_reachable False u \<and> who u j = Waiting \<and> (\<forall>t. sw_notify u t \<longrightarrow> who t j = Waiting)))"
proof (intro conjI impI)
  assume s: "sw_reachable True s \<and> who s i = Waiting"
  then have inv: "sw_inv s" by (blast intro: sw_reachable_inv)
  then have f: "sleep (sw s) \<and> \<not> notified (sw s) \<and> \<not> dead (sw s)" using s unfolding sw_inv_def by blast
  then show "\<not> notified (sw s)" "\<not> dead (sw s)" by blast+
  have "sw_notify s t \<Longrightarrow> t = unblock {i} (sw t) s" for t
    using sw_notify_signals [of s t i] f sw_inv_waiting [OF inv] s by blast
  then show "\<forall>t. sw_notify s t \<longrightarrow> who t i = Signalled" by (metis insertI1 who_unblock)
next
  assume "i \<noteq> j"
  have "who t j = Waiting" if "sw_notify (stranded j) t" for t
    using that by (cases rule: sw_notify.cases) (auto simp: stranded_def unblock_def sw_defs split: if_splits)
  then show "\<exists>u. sw_reachable False u \<and> who u j = Waiting \<and> (\<forall>t. sw_notify u t \<longrightarrow> who t j = Waiting)"
    using stranded_reachable [OF \<open>i \<noteq> j\<close>] by (intro exI [of _ "stranded j"]) (simp add: stranded_def)
qed

theorem no_lost_wakeup_witness:
  "\<exists>s. sw_reachable True s \<and> who s 5 = Waiting \<and> (\<forall>t. sw_notify s t \<longrightarrow> who t 5 = Signalled)"
proof -
  let ?s = "\<lparr>sw = w_asleep, who = (\<lambda>k. if k = 5 then Waiting else Running)\<rparr>"
  have "sw_step True sw_start ?s"
    using sw_step.enter_blocks [of sw_start 5 True w_asleep] by (simp add: sw_start_def sw_defs w_asleep_def fun_upd_def)
  then have "sw_reachable True ?s" by (rule sw_reachable.step [OF sw_reachable.start])
  then show ?thesis using no_lost_wakeup [of ?s 5] by (intro exI [of _ ?s]) simp
qed

text \<open>
  A notification that arrives before the thread sleeps makes the next \<^verbatim>\<open>sleep_on\<close>
  return at once with 0 and consumes exactly that notification (the sleep after it blocks), and
  after \<^verbatim>\<open>wait_exit\<close> every \<^verbatim>\<open>sleep_on\<close> and \<^verbatim>\<open>wake_up\<close> returns -1 without blocking.
\<close>
theorem sleep_on_outcomes:
  assumes "\<not> dead w"
  shows "(\<exists>w'. sleep_on_enter (fst (snd (wake_up w))) = (Returns 0, w') \<and>
               fst (sleep_on_enter w') = Blocks) \<and>
         fst (sleep_on_enter (fst (wait_exit w))) = Returns (-1) \<and>
         fst (wake_up (fst (wait_exit w))) = -1"
  using assms by (auto simp: sw_defs Let_def)

theorem sleep_on_outcomes_witness:
  "fst (sleep_on_enter (fst (wait_exit wait_init))) = Returns (-1)"
  using sleep_on_outcomes [of wait_init] by (simp add: wait_init_def)

end
