(* ===== verification/Device.thy ===== *)
theory Device
  imports Net_Prelude
begin

text \<open>
  The devices of a user-space stack: \<^verbatim>\<open>include/base.h\<close>, \<^verbatim>\<open>include/ether.h\<close>, the parts of
  \<^verbatim>\<open>device_internal.c\<close> that are not system calls, and the packet loop \<^verbatim>\<open>ustack_run\<close> of each
  \<^verbatim>\<open>main.c\<close>. A pointer to an interface is the interface's record; two interfaces have
  different kernel indices, so comparing records is comparing pointers. \<^verbatim>\<open>iface_send_packet\<close> is
  a record of the frame handed to the kernel. What \<^verbatim>\<open>recvfrom\<close> reports is a value of \<open>recv\<close>.
\<close>

section \<open>Interfaces and frames\<close>

record iface_info =
  if_fd :: int
  if_index :: int
  if_mac :: bytes
  if_ip :: u32
  if_mask :: u32
  if_name :: string

type_synonym frame = "iface_info \<times> bytes"

definition ETH_ALEN :: nat where "ETH_ALEN = 6"
definition ETHER_HDR_SIZE :: nat where "ETHER_HDR_SIZE = 14"
definition ETH_P_IP :: u16 where "ETH_P_IP = 0x0800"
definition ETH_P_ARP :: u16 where "ETH_P_ARP = 0x0806"

lemmas ether_consts [simp] = ETH_ALEN_def ETHER_HDR_SIZE_def ETH_P_IP_def ETH_P_ARP_def

definition ether_dhost :: "bytes \<Rightarrow> bytes" where "ether_dhost p = sub 0 ETH_ALEN p"
definition ether_shost :: "bytes \<Rightarrow> bytes" where "ether_shost p = sub 6 ETH_ALEN p"
definition ether_type :: "bytes \<Rightarrow> u16" where "ether_type p = ld16 12 p"

definition fd_to_iface :: "iface_info list \<Rightarrow> int \<Rightarrow> iface_info option" where
  "fd_to_iface ifs fd = find (\<lambda>i. if_fd i = fd) ifs"

section \<open>Substrings\<close>

text \<open>Whether \<^verbatim>\<open>strstr\<close> finds the needle.\<close>

definition starts_with :: "string \<Rightarrow> string \<Rightarrow> bool" where
  "starts_with needle hay = (take (length needle) hay = needle)"

fun strstr :: "string \<Rightarrow> string \<Rightarrow> bool" where
  "strstr [] needle = starts_with needle []"
| "strstr (c # cs) needle = (starts_with needle (c # cs) \<or> strstr cs needle)"

section \<open>The packet loop\<close>

datatype recv = No_Input | Recv_Error | Outgoing bytes | Incoming bytes

text \<open>
  One round of the loop after \<^verbatim>\<open>poll\<close>: every descriptor of \<^verbatim>\<open>instance->fds\<close> in turn, with what
  \<^verbatim>\<open>recvfrom\<close> gives for it. A fault of the handler ends the program.
\<close>

fun ustack_round ::
    "(iface_info \<Rightarrow> bytes \<Rightarrow> 's \<Rightarrow> 's res) \<Rightarrow> iface_info list \<Rightarrow> (int \<times> recv) list \<Rightarrow> 's \<Rightarrow> 's res"
  where
  "ustack_round handle ifs [] s = Inr s"
| "ustack_round handle ifs ((fd, ev) # evs) s =
     (case ev of
        No_Input \<Rightarrow> ustack_round handle ifs evs s
      | Recv_Error \<Rightarrow> ustack_round handle ifs evs s
      | Outgoing _ \<Rightarrow> ustack_round handle ifs evs s
      | Incoming packet \<Rightarrow>
          (case fd_to_iface ifs fd of
             None \<Rightarrow> ustack_round handle ifs evs s
           | Some iface \<Rightarrow>
               res_bind (handle iface packet s) (ustack_round handle ifs evs)))"

lemma fd_to_iface_Some: "fd_to_iface ifs fd = Some i \<Longrightarrow> i \<in> set ifs \<and> if_fd i = fd"
  by (auto simp: fd_to_iface_def find_Some_iff)

text \<open>A handler invariant is an invariant of the loop.\<close>

lemma ustack_round_inv:
  assumes "\<And>i p t t'. i \<in> set ifs \<Longrightarrow> I t \<Longrightarrow> handle i p t = Inr t' \<Longrightarrow> I t'"
  shows "I s \<Longrightarrow> ustack_round handle ifs evs s = Inr s' \<Longrightarrow> I s'"
proof (induction evs arbitrary: s)
  case (Cons e evs)
  obtain fd ev where e: "e = (fd, ev)" by (cases e)
  show ?case
  proof (cases "\<exists>p i. ev = Incoming p \<and> fd_to_iface ifs fd = Some i")
    case True
    then obtain p i where p: "ev = Incoming p" "fd_to_iface ifs fd = Some i" by blast
    then obtain t where "handle i p s = Inr t" "ustack_round handle ifs evs t = Inr s'"
      using Cons.prems(2) e by (auto simp: res_simps)
    moreover have "i \<in> set ifs" using fd_to_iface_Some [OF p(2)] ..
    ultimately show ?thesis using Cons.IH [of t] assms [of i s p t] Cons.prems(1) by blast
  next
    case False
    then have "ustack_round handle ifs evs s = Inr s'"
      using Cons.prems(2) e by (auto split: recv.splits option.splits)
    then show ?thesis using Cons by blast
  qed
qed simp

lemma strstr_iff: "strstr s t \<longleftrightarrow> (\<exists>a b. s = a @ t @ b)"
proof -
  have p: "starts_with t s \<longleftrightarrow> (\<exists>b. s = t @ b)" for s t
    unfolding starts_with_def by (metis append_eq_conv_conj append_take_drop_id)
  show ?thesis
  proof (induction s)
    case Nil
    then show ?case by (auto simp: p)
  next
    case (Cons c cs)
    have "(\<exists>a b. c # cs = a @ t @ b) \<longleftrightarrow> (\<exists>b. c # cs = t @ b) \<or> (\<exists>a b. cs = a @ t @ b)"
      by (metis append_Cons append_Nil list.inject neq_Nil_conv)
    with Cons show ?case by (simp add: p)
  qed
qed

end
