(* ===== verification/Mac_Table.thy ===== *)
theory Mac_Table
  imports Checksum Device
begin

text \<open>
  The learning switch (\<^verbatim>\<open>code-exp9\<close>) and the hub (\<^verbatim>\<open>code-exp8\<close>). The MAC table is an array of 256
  buckets indexed by \<^verbatim>\<open>hash8\<close> of the address; a bucket is the list of its entries in order. The
  clock is a parameter. The contract of the table, a finite map from addresses to interfaces
  whose entries expire, is the locale \<open>learning_table\<close>, and the switch's behaviour is proved
  from it.
\<close>

section \<open>The MAC table (mac.c)\<close>

record mac_port_entry =
  mac :: bytes
  iface :: iface_info
  visited :: int

type_synonym mac_port_map = "u8 \<Rightarrow> mac_port_entry list"

definition MAC_PORT_TIMEOUT :: int where "MAC_PORT_TIMEOUT = 30"
definition HASH_8BITS :: nat where "HASH_8BITS = 256"

definition init_mac_port_table :: mac_port_map where
  "init_mac_port_table = (\<lambda>_. [])"

definition destory_mac_port_table :: "mac_port_map \<Rightarrow> mac_port_map" where
  "destory_mac_port_table t = (\<lambda>i. filter (\<lambda>e. False) (t i))"

definition lookup_port :: "mac_port_map \<Rightarrow> bytes \<Rightarrow> iface_info option" where
  "lookup_port t m = map_option iface (find (\<lambda>e. mac e = m) (t (hash8 m)))"

fun update_entry :: "bytes \<Rightarrow> iface_info \<Rightarrow> int \<Rightarrow> mac_port_entry list \<Rightarrow> mac_port_entry list" where
  "update_entry m i now [] = [\<lparr>mac = m, iface = i, visited = now\<rparr>]"
| "update_entry m i now (e # es) =
     (if mac e = m then e\<lparr>iface := i, visited := now\<rparr> # es else e # update_entry m i now es)"

definition insert_mac_port :: "int \<Rightarrow> mac_port_map \<Rightarrow> bytes \<Rightarrow> iface_info \<Rightarrow> mac_port_map" where
  "insert_mac_port now t m i = t(hash8 m := update_entry m i now (t (hash8 m)))"

definition aged :: "int \<Rightarrow> mac_port_entry \<Rightarrow> bool" where
  "aged now e = (now - visited e > MAC_PORT_TIMEOUT)"

definition sweep_aged_mac_port_entry :: "int \<Rightarrow> mac_port_map \<Rightarrow> nat \<times> mac_port_map" where
  "sweep_aged_mac_port_entry now t =
     (\<Sum>i\<leftarrow>map of_nat [0..<HASH_8BITS]. length (filter (aged now) (t i)),
      \<lambda>i. filter (\<lambda>e. \<not> aged now e) (t i))"

section \<open>The switch and the hub (main.c, broadcast.c)\<close>

text \<open>The thread that sweeps, for the times at which it wakes up.\<close>

fun sweeping_mac_port_thread :: "int list \<Rightarrow> mac_port_map \<Rightarrow> mac_port_map" where
  "sweeping_mac_port_thread [] t = t"
| "sweeping_mac_port_thread (now # later) t = sweeping_mac_port_thread later (snd (sweep_aged_mac_port_entry now t))"

definition broadcast_packet :: "iface_info list \<Rightarrow> iface_info \<Rightarrow> bytes \<Rightarrow> frame list" where
  "broadcast_packet ifs i packet = map (\<lambda>j. (j, packet)) (filter (\<lambda>j. j \<noteq> i) ifs)"

definition is_broadcast_mac :: "bytes \<Rightarrow> bool" where
  "is_broadcast_mac m = (m = replicate ETH_ALEN 0xff)"

record switch =
  ports :: "iface_info list"
  macs :: mac_port_map
  out :: "frame list"

text \<open>The frames sent are appended to \<open>out\<close>. A frame shorter than two addresses faults.\<close>

definition switch_handle_packet :: "int \<Rightarrow> iface_info \<Rightarrow> bytes \<Rightarrow> switch \<Rightarrow> switch res" where
  "switch_handle_packet now i packet s =
     (if length packet < 12 then Inl Out_Of_Bounds
      else
        (let src_mac = ether_shost packet;
             dst_mac = ether_dhost packet;
             t = insert_mac_port now (macs s) src_mac i;
             sends =
               (if is_broadcast_mac dst_mac then broadcast_packet (ports s) i packet
                else (case lookup_port t dst_mac of
                        Some tx \<Rightarrow> if tx \<noteq> i then [(tx, packet)]
                                   else broadcast_packet (ports s) i packet
                      | None \<Rightarrow> broadcast_packet (ports s) i packet))
         in Inr (s\<lparr>macs := t, out := out s @ sends\<rparr>)))"

definition hub_handle_packet :: "iface_info list \<Rightarrow> iface_info \<Rightarrow> bytes \<Rightarrow> frame list" where
  "hub_handle_packet ifs i packet = broadcast_packet ifs i packet"

section \<open>The table is a map\<close>

definition mt_inv :: "mac_port_map \<Rightarrow> bool" where
  "mt_inv t \<longleftrightarrow> (\<forall>h. distinct (map mac (t h)) \<and> (\<forall>e\<in>set (t h). hash8 (mac e) = h))"

definition last_seen :: "mac_port_map \<Rightarrow> bytes \<Rightarrow> int option" where
  "last_seen t m = map_option visited (find (\<lambda>e. mac e = m) (t (hash8 m)))"

lemma mac_update_entry:
  "mac ` set (update_entry m i now es) = insert m (mac ` set es)"
  "distinct (map mac es) \<Longrightarrow> distinct (map mac (update_entry m i now es))"
  by (induction m i now es rule: update_entry.induct) auto

lemma find_update_entry:
  "find (\<lambda>e. mac e = k) (update_entry m i now es) =
     (if k = m then Some (case find (\<lambda>e. mac e = m) es of None \<Rightarrow> \<lparr>mac = m, iface = i, visited = now\<rparr>
                          | Some e \<Rightarrow> e\<lparr>iface := i, visited := now\<rparr>)
      else find (\<lambda>e. mac e = k) es)"
  by (induction m i now es rule: update_entry.induct) auto

lemma insert_mac_port_inv: "mt_inv t \<Longrightarrow> mt_inv (insert_mac_port now t m i)"
proof -
  assume i: "mt_inv t"
  have "hash8 (mac e) = hash8 m" if "e \<in> set (update_entry m i now (t (hash8 m)))" for e
  proof -
    have "mac e \<in> insert m (mac ` set (t (hash8 m)))"
      using that mac_update_entry(1) [of m i now "t (hash8 m)"] by blast
    then show ?thesis using i by (auto simp: mt_inv_def)
  qed
  then show ?thesis
    using i by (auto simp: mt_inv_def insert_mac_port_def mac_update_entry(2))
qed

lemma lookup_insert_mac_port:
  "lookup_port (insert_mac_port now t m i) = (lookup_port t)(m \<mapsto> i)"
  by (rule ext) (auto simp: lookup_port_def insert_mac_port_def find_update_entry split: option.splits)

lemma last_seen_insert_mac_port:
  "last_seen (insert_mac_port now t m i) = (last_seen t)(m \<mapsto> now)"
  by (rule ext) (auto simp: last_seen_def insert_mac_port_def find_update_entry split: option.splits)

lemma find_filter_unique:
  "distinct (map mac es) \<Longrightarrow> find (\<lambda>e. mac e = m) (filter Q es) =
     (case find (\<lambda>e. mac e = m) es of None \<Rightarrow> None | Some e \<Rightarrow> if Q e then Some e else None)"
proof (induction es)
  case (Cons a es)
  have "find (\<lambda>e. mac e = m) (filter Q es) = None" if "mac a = m"
  proof -
    have "m \<notin> mac ` set es" using that Cons.prems by simp
    then show ?thesis by (auto simp: find_None_iff)
  qed
  with Cons show ?case by (auto split: option.splits)
qed simp

lemma lookup_sweep:
  assumes "mt_inv t"
  shows "lookup_port (snd (sweep_aged_mac_port_entry now t)) m =
     (case last_seen t m of None \<Rightarrow> None
      | Some v \<Rightarrow> if now - v > MAC_PORT_TIMEOUT then None else lookup_port t m)"
proof -
  have "distinct (map mac (t (hash8 m)))" using assms by (simp add: mt_inv_def)
  then show ?thesis
    by (auto simp: lookup_port_def last_seen_def sweep_aged_mac_port_entry_def find_filter_unique
        aged_def split: option.splits)
qed

lemma sweep_inv: "mt_inv t \<Longrightarrow> mt_inv (snd (sweep_aged_mac_port_entry now t))"
  by (auto simp: mt_inv_def sweep_aged_mac_port_entry_def distinct_map_filter)

lemma init_inv: "mt_inv init_mac_port_table" "lookup_port init_mac_port_table = Map.empty"
  by (auto simp: mt_inv_def init_mac_port_table_def lookup_port_def)

section \<open>The contract of the table and the switch over it\<close>

locale learning_table =
  fixes inv :: "'t \<Rightarrow> bool"
    and lookup :: "'t \<Rightarrow> 'k \<Rightarrow> 'v option"
    and seen :: "'t \<Rightarrow> 'k \<Rightarrow> int option"
    and learn :: "int \<Rightarrow> 't \<Rightarrow> 'k \<Rightarrow> 'v \<Rightarrow> 't"
    and expire :: "int \<Rightarrow> 't \<Rightarrow> 't"
    and timeout :: int
  assumes inv_learn: "inv t \<Longrightarrow> inv (learn now t k v)"
    and inv_expire: "inv t \<Longrightarrow> inv (expire now t)"
    and lookup_learn: "inv t \<Longrightarrow> lookup (learn now t k v) = (lookup t)(k \<mapsto> v)"
    and seen_learn: "inv t \<Longrightarrow> seen (learn now t k v) = (seen t)(k \<mapsto> now)"
    and lookup_expire: "inv t \<Longrightarrow> lookup (expire now t) k =
      (case seen t k of None \<Rightarrow> None | Some v \<Rightarrow> if now - v > timeout then None else lookup t k)"
begin

lemma learned_survives:
  "inv t \<Longrightarrow> now - t0 \<le> timeout \<Longrightarrow> lookup (expire now (learn t0 t k v)) k = Some v"
  by (simp add: lookup_expire inv_learn seen_learn lookup_learn)

lemma learned_expires:
  "inv t \<Longrightarrow> now - t0 > timeout \<Longrightarrow> lookup (expire now (learn t0 t k v)) k = None"
  by (simp add: lookup_expire inv_learn seen_learn)

lemma learn_other: "inv t \<Longrightarrow> k \<noteq> k' \<Longrightarrow> lookup (learn now t k v) k' = lookup t k'"
  by (simp add: lookup_learn)

end

interpretation mt: learning_table mt_inv lookup_port last_seen insert_mac_port
    "\<lambda>now t. snd (sweep_aged_mac_port_entry now t)" MAC_PORT_TIMEOUT
  by unfold_locales
    (simp_all add: insert_mac_port_inv sweep_inv lookup_insert_mac_port last_seen_insert_mac_port
      lookup_sweep)

lemma switch_out:
  assumes "length p \<ge> 12" "switch_handle_packet now i p s = Inr s'"
  shows "mt_inv (macs s) \<Longrightarrow> mt_inv (macs s')"
    and "lookup_port (macs s') = (lookup_port (macs s))(ether_shost p \<mapsto> i)"
    and "ports s' = ports s"
    and "\<exists>sends. out s' = out s @ sends \<and>
           (sends = broadcast_packet (ports s) i p \<or> (\<exists>tx. tx \<noteq> i \<and> sends = [(tx, p)]))"
  using assms
  by (auto simp: switch_handle_packet_def Let_def insert_mac_port_inv lookup_insert_mac_port
      split: option.splits)

section \<open>Properties\<close>

text \<open>
  Property C36: the hashed MAC table is a map from addresses to interfaces. Every operation keeps
  the table well formed (each address once, in the bucket of its hash); an insertion maps exactly
  that address to the new interface; sweeping removes exactly the addresses that have not been
  seen for more than 30 seconds.
\<close>
theorem mac_table_is_map:
  assumes "mt_inv t"
  shows "mt_inv (insert_mac_port now t m i) \<and>
         lookup_port (insert_mac_port now t m i) = (lookup_port t)(m \<mapsto> i) \<and>
         mt_inv (snd (sweep_aged_mac_port_entry now t)) \<and>
         lookup_port (snd (sweep_aged_mac_port_entry now t)) k =
           (case last_seen t k of None \<Rightarrow> None
            | Some v \<Rightarrow> if now - v > 30 then None else lookup_port t k)"
  using mt.inv_learn [OF assms] mt.lookup_learn [OF assms] mt.inv_expire [OF assms]
    mt.lookup_expire [OF assms, of now k] unfolding MAC_PORT_TIMEOUT_def by simp

theorem mac_table_is_map_witness:
  "lookup_port (insert_mac_port 7 init_mac_port_table [1, 2, 3, 4, 5, 6]
     \<lparr>if_fd = 3, if_index = 1, if_mac = [], if_ip = 0, if_mask = 0, if_name = ''b1-eth0''\<rparr>)
     [1, 2, 3, 4, 5, 6]
   = Some \<lparr>if_fd = 3, if_index = 1, if_mac = [], if_ip = 0, if_mask = 0, if_name = ''b1-eth0''\<rparr>"
  using mac_table_is_map [OF init_inv(1), of 7 "[1, 2, 3, 4, 5, 6]"
      "\<lparr>if_fd = 3, if_index = 1, if_mac = [], if_ip = 0, if_mask = 0, if_name = ''b1-eth0''\<rparr>"]
  by simp

text \<open>
  The switch learns. After a frame with source address \<open>a\<close> has come in on port
  \<open>i\<close>, a unicast frame to \<open>a\<close> from another port \<open>j\<close> with another source address is sent out
  of port \<open>i\<close> and of no other port, as long as the entry has not been swept.
\<close>
theorem switch_forwards_to_learned_port:
  assumes "length p \<ge> 12" "length q \<ge> 12" "switch_handle_packet now i p s = Inr s1"
    and "mt_inv (macs s)"
    and "ether_dhost q = ether_shost p" "ether_shost q \<noteq> ether_shost p" "i \<noteq> j"
    and "\<not> is_broadcast_mac (ether_shost p)" "later - now \<le> 30"
    and "s2 = s1\<lparr>macs := snd (sweep_aged_mac_port_entry later (macs s1))\<rparr>"
  shows "\<exists>s3. switch_handle_packet later' j q s2 = Inr s3 \<and> out s3 = out s1 @ [(i, q)]"
proof -
  have m1: "macs s1 = insert_mac_port now (macs s) (ether_shost p) i"
    using assms(1,3) by (auto simp: switch_handle_packet_def Let_def)
  have l: "lookup_port (macs s2) (ether_shost p) = Some i"
    using mt.learned_survives [OF assms(4), of later now "ether_shost p" i] assms(9,10)
    by (simp add: m1 MAC_PORT_TIMEOUT_def)
  have "mt_inv (macs s2)"
    using assms(4,10) m1 by (simp add: mt.inv_learn mt.inv_expire)
  then have "lookup_port (insert_mac_port later' (macs s2) (ether_shost q) j) (ether_shost p) = Some i"
    using l assms(6) by (simp add: mt.learn_other)
  then show ?thesis
    using assms by (simp add: switch_handle_packet_def Let_def)
qed

theorem switch_forwards_to_learned_port_witness:
  "\<exists>s1 s3. switch_handle_packet 0 \<lparr>if_fd = 3, if_index = 1, if_mac = [], if_ip = 0, if_mask = 0, if_name = ''e1''\<rparr>
       [9, 9, 9, 9, 9, 9, 1, 1, 1, 1, 1, 1] \<lparr>ports = [], macs = init_mac_port_table, out = []\<rparr> = Inr s1 \<and>
     switch_handle_packet 20 \<lparr>if_fd = 4, if_index = 2, if_mac = [], if_ip = 0, if_mask = 0, if_name = ''e2''\<rparr>
       [1, 1, 1, 1, 1, 1, 2, 2, 2, 2, 2, 2]
       (s1\<lparr>macs := snd (sweep_aged_mac_port_entry 10 (macs s1))\<rparr>) = Inr s3 \<and>
     out s3 = out s1 @ [(\<lparr>if_fd = 3, if_index = 1, if_mac = [], if_ip = 0, if_mask = 0, if_name = ''e1''\<rparr>,
                         [1, 1, 1, 1, 1, 1, 2, 2, 2, 2, 2, 2])]"
proof -
  let ?i = "\<lparr>if_fd = 3, if_index = 1, if_mac = [], if_ip = 0, if_mask = 0, if_name = ''e1''\<rparr>"
    and ?j = "\<lparr>if_fd = 4, if_index = 2, if_mac = [], if_ip = 0, if_mask = 0, if_name = ''e2''\<rparr>"
    and ?p = "[9, 9, 9, 9, 9, 9, 1, 1, 1, 1, 1, 1] :: bytes"
    and ?q = "[1, 1, 1, 1, 1, 1, 2, 2, 2, 2, 2, 2] :: bytes"
    and ?s = "\<lparr>ports = [], macs = init_mac_port_table, out = []\<rparr>"
  obtain s1 where s1: "switch_handle_packet 0 ?i ?p ?s = Inr s1"
    by (simp add: switch_handle_packet_def Let_def)
  have macs: "ether_shost ?p = [1, 1, 1, 1, 1, 1]" "ether_shost ?q = [2, 2, 2, 2, 2, 2]"
    "ether_dhost ?q = [1, 1, 1, 1, 1, 1]" "is_broadcast_mac [1, 1, 1, 1, 1, 1] = False"
    by code_simp+
  have "\<exists>s3. switch_handle_packet 20 ?j ?q (s1\<lparr>macs := snd (sweep_aged_mac_port_entry 10 (macs s1))\<rparr>)
      = Inr s3 \<and> out s3 = out s1 @ [(?i, ?q)]"
    by (rule switch_forwards_to_learned_port [OF _ _ s1])
      (simp_all add: init_inv macs)
  with s1 show ?thesis by blast
qed

text \<open>
  neither the switch nor the hub ever sends a frame back out of the port it came in
  on, every frame they send is the received frame unchanged, and a broadcast frame goes out of
  each other port exactly once.
\<close>
theorem no_reflection:
  assumes "switch_handle_packet now i p s = Inr s'"
  shows "(\<exists>sends. out s' = out s @ sends \<and> (\<forall>(j, q)\<in>set sends. j \<noteq> i \<and> q = p) \<and>
            (is_broadcast_mac (ether_dhost p) \<longrightarrow>
               map fst sends = filter (\<lambda>j. j \<noteq> i) (ports s))) \<and>
         (\<forall>(j, q)\<in>set (hub_handle_packet (ports s) i p). j \<noteq> i \<and> q = p)"
  using assms
  by (auto simp: switch_handle_packet_def Let_def broadcast_packet_def hub_handle_packet_def
      comp_def split: if_splits option.splits)

theorem no_reflection_witness:
  "\<exists>s'. switch_handle_packet 0 \<lparr>if_fd = 3, if_index = 1, if_mac = [], if_ip = 0, if_mask = 0, if_name = ''e1''\<rparr>
       [9, 9, 9, 9, 9, 9, 1, 1, 1, 1, 1, 1] \<lparr>ports = [], macs = init_mac_port_table, out = []\<rparr> = Inr s' \<and>
     (\<exists>sends. out s' = sends \<and> (\<forall>(j, q)\<in>set sends. q = [9, 9, 9, 9, 9, 9, 1, 1, 1, 1, 1, 1]))"
proof -
  let ?i = "\<lparr>if_fd = 3, if_index = 1, if_mac = [], if_ip = 0, if_mask = 0, if_name = ''e1''\<rparr>"
    and ?p = "[9, 9, 9, 9, 9, 9, 1, 1, 1, 1, 1, 1] :: bytes"
    and ?s = "\<lparr>ports = [], macs = init_mac_port_table, out = []\<rparr>"
  obtain s1 where s1: "switch_handle_packet 0 ?i ?p ?s = Inr s1"
    by (simp add: switch_handle_packet_def Let_def)
  from no_reflection [OF this] s1 show ?thesis by fastforce
qed

text \<open>
  The sweeping thread: an address is kept while it has been seen within 30 seconds of every pass,
  and is gone for good after the first pass that finds it older.
\<close>

lemma last_seen_sweep:
  assumes "mt_inv t"
  shows "last_seen (snd (sweep_aged_mac_port_entry now t)) m =
    (case last_seen t m of None \<Rightarrow> None | Some v \<Rightarrow> if now - v > MAC_PORT_TIMEOUT then None else Some v)"
proof -
  have "distinct (map mac (t (hash8 m)))" using assms by (simp add: mt_inv_def)
  then show ?thesis
    by (auto simp: last_seen_def sweep_aged_mac_port_entry_def find_filter_unique aged_def split: option.splits)
qed

theorem sweeping_thread_ages:
  assumes "mt_inv t"
  shows "lookup_port (sweeping_mac_port_thread ts t) m =
    (case last_seen t m of None \<Rightarrow> lookup_port t m
     | Some v \<Rightarrow> if \<exists>now\<in>set ts. now - v > MAC_PORT_TIMEOUT then None else lookup_port t m)"
  using assms
proof (induction ts t rule: sweeping_mac_port_thread.induct)
  case (2 now later t)
  then have "lookup_port (sweeping_mac_port_thread (now # later) t) m =
    (case last_seen (snd (sweep_aged_mac_port_entry now t)) m of None \<Rightarrow> lookup_port (snd (sweep_aged_mac_port_entry now t)) m
     | Some v \<Rightarrow> if \<exists>now\<in>set later. now - v > MAC_PORT_TIMEOUT then None else lookup_port (snd (sweep_aged_mac_port_entry now t)) m)"
    by (simp add: sweep_inv)
  moreover have "last_seen t m = None \<Longrightarrow> lookup_port t m = None"
    by (simp add: last_seen_def lookup_port_def)
  ultimately show ?case
    using 2 by (auto simp: lookup_sweep last_seen_sweep split: option.splits)
qed (simp split: option.split)

end
