(* ===== verification/Rtable.thy ===== *)
theory Rtable
  imports Device
begin

text \<open>
  The routing table: \<^verbatim>\<open>code-exp5/rtable.c\<close> and \<^verbatim>\<open>longest_prefix_match\<close> of
  \<^verbatim>\<open>code-exp5/ip_base.c\<close>. The table is the list of its entries in order. Addresses are in host
  byte order. \<^verbatim>\<open>remove_rt_entry\<close> takes a pointer to an entry, which is a position in the list.
\<close>

section \<open>The code\<close>

record rt_entry =
  dest :: u32
  mask :: u32
  gw :: u32
  if_name_of :: string
  rt_iface :: iface_info

definition init_rtable :: "rt_entry list" where
  "init_rtable = []"

definition new_rt_entry :: "u32 \<Rightarrow> u32 \<Rightarrow> u32 \<Rightarrow> iface_info \<Rightarrow> rt_entry" where
  "new_rt_entry d m g i = \<lparr>dest = d, mask = m, gw = g, if_name_of = if_name i, rt_iface = i\<rparr>"

definition add_rt_entry :: "rt_entry list \<Rightarrow> rt_entry \<Rightarrow> rt_entry list" where
  "add_rt_entry rt e = rt @ [e]"

definition remove_rt_entry :: "rt_entry list \<Rightarrow> nat \<Rightarrow> rt_entry list" where
  "remove_rt_entry rt i = take i rt @ drop (Suc i) rt"

text \<open>The entries move from the new table to the end of the routing table one by one.\<close>

fun load_rtable :: "rt_entry list \<Rightarrow> rt_entry list \<Rightarrow> rt_entry list" where
  "load_rtable rt [] = rt"
| "load_rtable rt (e # es) = load_rtable (rt @ [e]) es"

definition clear_rtable :: "rt_entry list \<Rightarrow> rt_entry list" where
  "clear_rtable rt = filter (\<lambda>e. False) rt"

text \<open>\<^verbatim>\<open>read_kernel_rtable\<close> is a netlink query; its result is the argument \<open>ktab\<close>.\<close>

definition load_rtable_from_kernel :: "rt_entry list \<Rightarrow> rt_entry list \<Rightarrow> rt_entry list" where
  "load_rtable_from_kernel ktab rt = load_rtable rt ktab"

function count_mask_bits :: "u32 \<Rightarrow> int \<Rightarrow> int" where
  "count_mask_bits m n =
     (if m \<noteq> 0 then count_mask_bits (drop_bit 1 m) (n + uint (m AND 1)) else n)"
  by pat_completeness auto

lemma unat_drop1: "unat (drop_bit 1 (m :: u32)) = unat m div 2"
  by (simp add: drop_bit_eq_div unat_div)

termination count_mask_bits
proof (relation "measure (\<lambda>(m, n). unat m)")
  fix m :: u32 and n :: int
  assume "m \<noteq> 0"
  then have "0 < unat m" by (simp add: unat_gt_0)
  then show "((drop_bit 1 m, n + uint (m AND 1)), m, n) \<in> measure (\<lambda>(m, n). unat m)"
    by (simp add: unat_drop1 [simplified])
qed simp

declare count_mask_bits.simps [simp del]

definition rt_match :: "u32 \<Rightarrow> rt_entry \<Rightarrow> bool" where
  "rt_match dst e = (dst AND mask e = dest e AND mask e)"

fun lpm_loop :: "u32 \<Rightarrow> rt_entry list \<Rightarrow> int \<Rightarrow> rt_entry option \<Rightarrow> rt_entry option" where
  "lpm_loop dst [] max_prefix_len best_match = best_match"
| "lpm_loop dst (e # es) max_prefix_len best_match =
     (if rt_match dst e
      then (let prefix_len = count_mask_bits (mask e) 0
            in if prefix_len > max_prefix_len then lpm_loop dst es prefix_len (Some e)
               else lpm_loop dst es max_prefix_len best_match)
      else lpm_loop dst es max_prefix_len best_match)"

definition longest_prefix_match :: "rt_entry list \<Rightarrow> u32 \<Rightarrow> rt_entry option" where
  "longest_prefix_match rt dst = lpm_loop dst rt (-1) None"

section \<open>The loop counts the one bits of the mask\<close>

definition prefix_len :: "rt_entry \<Rightarrow> nat" where
  "prefix_len e = card {i. bit (mask e) i}"

lemma finite_bits: "finite {i. bit (m :: u32) i}"
  by (rule finite_subset [of _ "{..<32}"]) (auto dest: bit_imp_le_length)

lemma card_bits_step:
  "card {i. bit (m :: u32) i} = card {i. bit (drop_bit 1 m) i} + (if bit m 0 then 1 else 0)"
proof -
  have eq: "{i. bit m i} = Suc ` {i. bit (drop_bit 1 m) i} \<union> (if bit m 0 then {0} else {})"
  proof (rule set_eqI)
    fix i show "i \<in> {i. bit m i} \<longleftrightarrow> i \<in> Suc ` {i. bit (drop_bit 1 m) i} \<union> (if bit m 0 then {0} else {})"
      by (cases i) (auto simp: bit_drop_bit_eq)
  qed
  have fin: "finite (Suc ` {i. bit (drop_bit 1 m) i})" by (intro finite_imageI finite_bits)
  show ?thesis
    unfolding eq using fin by (subst card_Un_disjoint) (auto simp: card_image)
qed

lemma count_mask_bits_card: "count_mask_bits m n = n + int (card {i. bit m i})"
proof (induction m n rule: count_mask_bits.induct)
  case (1 m n)
  show ?case
  proof (cases "m = 0")
    case True
    then show ?thesis by (simp add: count_mask_bits.simps)
  next
    case False
    have "uint (m AND 1) = (if bit m 0 then 1 else 0)"
      by (simp add: and_one_eq bit_0 odd_iff_mod_2_eq_one)
    with 1 False card_bits_step [of m] show ?thesis
      by (simp add: count_mask_bits.simps [of m n])
  qed
qed

text \<open>For the contiguous mask of a network, the number of one bits is the prefix length.\<close>

definition netmask :: "nat \<Rightarrow> u32" where
  "netmask n = NOT (Bit_Operations.mask (32 - n))"

lemma card_netmask: "n \<le> 32 \<Longrightarrow> card {i. bit (netmask n) i} = n"
proof -
  assume "n \<le> 32"
  have "{i. bit (netmask n) i} = {32 - n..<32}"
    by (auto simp: netmask_def bit_simps)
  then show ?thesis using \<open>n \<le> 32\<close> by simp
qed

section \<open>Longest prefix match\<close>

lemma lpm_loop_spec:
  "lpm_loop dst es m b = b \<and> (\<forall>e\<in>set es. rt_match dst e \<longrightarrow> int (prefix_len e) \<le> m) \<or>
   (\<exists>xs e ys. es = xs @ e # ys \<and> lpm_loop dst es m b = Some e \<and> rt_match dst e \<and>
      m < int (prefix_len e) \<and>
      (\<forall>f\<in>set xs. rt_match dst f \<longrightarrow> prefix_len f < prefix_len e) \<and>
      (\<forall>f\<in>set ys. rt_match dst f \<longrightarrow> prefix_len f \<le> prefix_len e))"
proof (induction es arbitrary: m b)
  case Nil
  then show ?case by simp
next
  case (Cons e es)
  have c: "count_mask_bits (mask e) 0 = int (prefix_len e)"
    by (simp add: count_mask_bits_card prefix_len_def)
  show ?case
  proof (cases "rt_match dst e \<and> int (prefix_len e) > m")
    case True
    then have step: "lpm_loop dst (e # es) m b = lpm_loop dst es (int (prefix_len e)) (Some e)"
      by (simp add: c)
    from Cons.IH [of "int (prefix_len e)" "Some e"] show ?thesis
    proof (elim disjE exE)
      assume "lpm_loop dst es (int (prefix_len e)) (Some e) = Some e \<and>
        (\<forall>f\<in>set es. rt_match dst f \<longrightarrow> int (prefix_len f) \<le> int (prefix_len e))"
      then have "e # es = [] @ e # es \<and> lpm_loop dst (e # es) m b = Some e"
        "\<forall>f\<in>set es. rt_match dst f \<longrightarrow> prefix_len f \<le> prefix_len e"
        using step by auto
      then show ?thesis using True by (metis empty_iff empty_set)
    next
      fix xs f ys
      assume "es = xs @ f # ys \<and> lpm_loop dst es (int (prefix_len e)) (Some e) = Some f \<and>
        rt_match dst f \<and> int (prefix_len e) < int (prefix_len f) \<and>
        (\<forall>g\<in>set xs. rt_match dst g \<longrightarrow> prefix_len g < prefix_len f) \<and>
        (\<forall>g\<in>set ys. rt_match dst g \<longrightarrow> prefix_len g \<le> prefix_len f)"
      then show ?thesis using True step
        by (intro disjI2 exI [of _ "e # xs"] exI [of _ f] exI [of _ ys]) auto
    qed
  next
    case False
    then have step: "lpm_loop dst (e # es) m b = lpm_loop dst es m b"
      by (auto simp: c)
    from Cons.IH [of m b] show ?thesis
    proof (elim disjE exE)
      assume "lpm_loop dst es m b = b \<and>
        (\<forall>f\<in>set es. rt_match dst f \<longrightarrow> int (prefix_len f) \<le> m)"
      then show ?thesis using False step by auto
    next
      fix xs f ys
      assume "es = xs @ f # ys \<and> lpm_loop dst es m b = Some f \<and> rt_match dst f \<and>
        m < int (prefix_len f) \<and> (\<forall>g\<in>set xs. rt_match dst g \<longrightarrow> prefix_len g < prefix_len f) \<and>
        (\<forall>g\<in>set ys. rt_match dst g \<longrightarrow> prefix_len g \<le> prefix_len f)"
      then show ?thesis using False step
        by (intro disjI2 exI [of _ "e # xs"] exI [of _ f] exI [of _ ys]) auto
    qed
  qed
qed

lemma lpm_None: "longest_prefix_match rt dst = None \<longleftrightarrow> (\<forall>e\<in>set rt. \<not> rt_match dst e)"
  using lpm_loop_spec [of dst rt "-1" None] unfolding longest_prefix_match_def by force

lemma lpm_Some:
  assumes "longest_prefix_match rt dst = Some e"
  obtains xs ys where "rt = xs @ e # ys" "rt_match dst e"
    "\<forall>f\<in>set xs. rt_match dst f \<longrightarrow> prefix_len f < prefix_len e"
    "\<forall>f\<in>set ys. rt_match dst f \<longrightarrow> prefix_len f \<le> prefix_len e"
  using lpm_loop_spec [of dst rt "-1" None] assms unfolding longest_prefix_match_def by auto

lemma lpm_in_table: "longest_prefix_match rt dst = Some e \<Longrightarrow> e \<in> set rt \<and> rt_match dst e"
  by (erule lpm_Some) simp

lemma load_rtable_append: "load_rtable rt es = rt @ es"
  by (induction es arbitrary: rt) simp_all

section \<open>Properties\<close>

text \<open>
  Property C27: \<^verbatim>\<open>longest_prefix_match\<close> returns nothing exactly when no entry of the table matches
  the destination; otherwise it returns the first of the matching entries whose mask has the
  most one bits, which for a contiguous network mask is the prefix length.
\<close>
theorem longest_prefix_match_correct:
  "(case longest_prefix_match rt dst of
      None \<Rightarrow> \<forall>e\<in>set rt. \<not> rt_match dst e
    | Some e \<Rightarrow> \<exists>xs ys. rt = xs @ e # ys \<and> rt_match dst e \<and>
        (\<forall>f\<in>set xs. rt_match dst f \<longrightarrow> prefix_len f < prefix_len e) \<and>
        (\<forall>f\<in>set ys. rt_match dst f \<longrightarrow> prefix_len f \<le> prefix_len e)) \<and>
   (\<forall>n\<le>32. count_mask_bits (netmask n) 0 = int n)"
proof -
  have "\<exists>xs ys. rt = xs @ e # ys \<and> rt_match dst e \<and>
      (\<forall>f\<in>set xs. rt_match dst f \<longrightarrow> prefix_len f < prefix_len e) \<and>
      (\<forall>f\<in>set ys. rt_match dst f \<longrightarrow> prefix_len f \<le> prefix_len e)"
    if "longest_prefix_match rt dst = Some e" for e
    using that by (rule lpm_Some) blast
  then show ?thesis
    using lpm_None [of rt dst] by (auto simp: count_mask_bits_card card_netmask split: option.splits)
qed

theorem longest_prefix_match_correct_witness: "count_mask_bits (netmask 24) 0 = 24"
  using longest_prefix_match_correct by simp

end
