(* ===== verification/Arp_Cache.thy ===== *)
theory Arp_Cache
  imports Rtable
begin

text \<open>
  Address resolution: \<^verbatim>\<open>code-exp5/arp.c\<close> and \<^verbatim>\<open>code-exp5/arpcache.c\<close> but for the sweep, which
  sends ICMP packets and is in \<open>Ip_Router\<close>. \<^verbatim>\<open>code-exp7\<close> has the same two files up to log lines.

  The record \<open>router\<close> is the state of the process: the routing table, the 32 cache entries, the
  list of pending requests with their packets, the frames handed to the kernel so far, the
  value \<^verbatim>\<open>time(NULL)\<close> returns and the values \<^verbatim>\<open>rand()\<close> returns. Each operation holds the lock of
  the cache from start to end, so it is one transition. A packet is its bytes: a queued packet
  is reachable only through the queue. \<^verbatim>\<open>malloc\<close> returns unspecified bytes; every frame built
  here has each of its bytes written before it is sent, so \<open>malloc\<close> returns zeros.
\<close>

section \<open>State\<close>

record arp_cache_entry =
  ip4 :: u32
  mac :: bytes
  added :: int
  valid :: bool

record arp_req =
  req_iface :: iface_info
  req_ip4 :: u32
  sent :: int
  retries :: int
  cached_packets :: "bytes list"

record router =
  rtable :: "rt_entry list"
  entries :: "arp_cache_entry list"
  req_list :: "arp_req list"
  txq :: "frame list"
  clock :: int
  rnd :: "nat \<Rightarrow> nat"
  rnd_pos :: nat

definition MAX_ARP_SIZE :: nat where "MAX_ARP_SIZE = 32"
definition ARP_ENTRY_TIMEOUT :: int where "ARP_ENTRY_TIMEOUT = 15"
definition ARP_REQUEST_MAX_RETRIES :: int where "ARP_REQUEST_MAX_RETRIES = 5"
definition ARPHRD_ETHER :: u16 where "ARPHRD_ETHER = 1"
definition ARPOP_REQUEST :: u16 where "ARPOP_REQUEST = 1"
definition ARPOP_REPLY :: u16 where "ARPOP_REPLY = 2"

lemmas arp_consts [simp] =
  MAX_ARP_SIZE_def ARP_ENTRY_TIMEOUT_def ARP_REQUEST_MAX_RETRIES_def
  ARPHRD_ETHER_def ARPOP_REQUEST_def ARPOP_REPLY_def

definition malloc :: "nat \<Rightarrow> bytes" where
  "malloc n = replicate n 0"

text \<open>\<^verbatim>\<open>rand()\<close> and \<^verbatim>\<open>iface_send_packet\<close>.\<close>

definition next_rand :: "router \<Rightarrow> nat \<times> router" where
  "next_rand s = (rnd s (rnd_pos s), s\<lparr>rnd_pos := Suc (rnd_pos s)\<rparr>)"

definition iface_send_packet :: "iface_info \<Rightarrow> bytes \<Rightarrow> router \<Rightarrow> router" where
  "iface_send_packet iface packet s = s\<lparr>txq := txq s @ [(iface, packet)]\<rparr>"

section \<open>ARP packets\<close>

definition arp_op :: "bytes \<Rightarrow> u16" where "arp_op p = ld16 20 p"
definition arp_sha :: "bytes \<Rightarrow> bytes" where "arp_sha p = sub 22 ETH_ALEN p"
definition arp_spa :: "bytes \<Rightarrow> u32" where "arp_spa p = ld32 28 p"
definition arp_tha :: "bytes \<Rightarrow> bytes" where "arp_tha p = sub 32 ETH_ALEN p"
definition arp_tpa :: "bytes \<Rightarrow> u32" where "arp_tpa p = ld32 38 p"

definition ETHER_ARP_SIZE :: nat where "ETHER_ARP_SIZE = 28"

text \<open>The packet \<^verbatim>\<open>arp_send_reply\<close> builds from the request \<open>req\<close>, field by field.\<close>

definition arp_reply_packet :: "iface_info \<Rightarrow> bytes \<Rightarrow> bytes" where
  "arp_reply_packet iface req =
     (let p = malloc (ETHER_HDR_SIZE + ETHER_ARP_SIZE);
          p = put 0 (arp_sha req) p;
          p = put 6 (if_mac iface) p;
          p = put 12 (bytes16 (htons ETH_P_ARP)) p;
          p = put 14 (bytes16 (htons ARPHRD_ETHER)) p;
          p = put 16 (bytes16 (htons ETH_P_IP)) p;
          p = put 18 [of_nat ETH_ALEN] p;
          p = put 19 [4] p;
          p = put 20 (bytes16 (htons ARPOP_REPLY)) p;
          p = put 22 (if_mac iface) p;
          p = put 28 (bytes32 (htonl (if_ip iface))) p;
          p = put 32 (arp_sha req) p
      in put 38 (bytes32 (arp_spa req)) p)"

definition arp_send_reply :: "iface_info \<Rightarrow> bytes \<Rightarrow> router \<Rightarrow> router" where
  "arp_send_reply iface req s = iface_send_packet iface (arp_reply_packet iface req) s"

definition arp_request_packet :: "iface_info \<Rightarrow> u32 \<Rightarrow> bytes" where
  "arp_request_packet iface dst_ip =
     (let p = malloc (ETHER_HDR_SIZE + ETHER_ARP_SIZE);
          p = put 0 (replicate ETH_ALEN 0xff) p;
          p = put 6 (if_mac iface) p;
          p = put 12 (bytes16 (htons ETH_P_ARP)) p;
          p = put 14 (bytes16 (htons ARPHRD_ETHER)) p;
          p = put 16 (bytes16 (htons ETH_P_IP)) p;
          p = put 18 [of_nat ETH_ALEN] p;
          p = put 19 [4] p;
          p = put 20 (bytes16 (htons ARPOP_REQUEST)) p;
          p = put 22 (if_mac iface) p;
          p = put 28 (bytes32 (htonl (if_ip iface))) p;
          p = put 32 (replicate ETH_ALEN 0) p
      in put 38 (bytes32 (htonl dst_ip)) p)"

definition arp_send_request :: "iface_info \<Rightarrow> u32 \<Rightarrow> router \<Rightarrow> router" where
  "arp_send_request iface dst_ip s = iface_send_packet iface (arp_request_packet iface dst_ip) s"

section \<open>The cache\<close>

definition empty_entry :: arp_cache_entry where
  "empty_entry = \<lparr>ip4 = 0, mac = replicate ETH_ALEN 0, added = 0, valid = False\<rparr>"

definition arpcache_init :: "router \<Rightarrow> router" where
  "arpcache_init s = s\<lparr>entries := replicate MAX_ARP_SIZE empty_entry, req_list := []\<rparr>"

definition arpcache_destroy :: "router \<Rightarrow> router" where
  "arpcache_destroy s = s\<lparr>req_list := filter (\<lambda>r. False) (req_list s)\<rparr>"

definition arpcache_lookup :: "u32 \<Rightarrow> router \<Rightarrow> bytes option" where
  "arpcache_lookup ip s = map_option mac (find (\<lambda>e. valid e \<and> ip4 e = ip) (entries s))"

fun first_invalid :: "arp_cache_entry list \<Rightarrow> nat" where
  "first_invalid [] = 0"
| "first_invalid (e # es) = (if \<not> valid e then 0 else Suc (first_invalid es))"

fun send_cached :: "iface_info \<Rightarrow> bytes \<Rightarrow> bytes list \<Rightarrow> router \<Rightarrow> router" where
  "send_cached iface m [] s = s"
| "send_cached iface m (p # ps) s = send_cached iface m ps (iface_send_packet iface (put 0 m p) s)"

text \<open>The pass over the requests: the ones for \<open>ip\<close> are sent and removed, the others kept.\<close>

fun flush_reqs :: "u32 \<Rightarrow> bytes \<Rightarrow> arp_req list \<Rightarrow> router \<Rightarrow> arp_req list \<times> router" where
  "flush_reqs ip m [] s = ([], s)"
| "flush_reqs ip m (r # rs) s =
     (if req_ip4 r = ip
      then flush_reqs ip m rs (send_cached (req_iface r) m (cached_packets r) s)
      else (let (rs', s') = flush_reqs ip m rs s in (r # rs', s')))"

definition insert_slot :: "router \<Rightarrow> nat \<times> router" where
  "insert_slot s =
     (let index = first_invalid (entries s)
      in if index = MAX_ARP_SIZE
         then (let (n, s) = next_rand s in (n mod MAX_ARP_SIZE, s))
         else (index, s))"

definition arpcache_insert :: "u32 \<Rightarrow> bytes \<Rightarrow> router \<Rightarrow> router" where
  "arpcache_insert ip m s =
     (let (index, s) = insert_slot s;
          s = s\<lparr>entries := (entries s)[index := \<lparr>ip4 = ip, mac = m, added = clock s, valid = True\<rparr>]\<rparr>;
          (rs, s) = flush_reqs ip m (req_list s) s
      in s\<lparr>req_list := rs\<rparr>)"

fun append_to_req :: "iface_info \<Rightarrow> u32 \<Rightarrow> bytes \<Rightarrow> arp_req list \<Rightarrow> arp_req list option" where
  "append_to_req iface ip packet [] = None"
| "append_to_req iface ip packet (r # rs) =
     (if req_ip4 r = ip \<and> req_iface r = iface
      then Some (r\<lparr>cached_packets := cached_packets r @ [packet]\<rparr> # rs)
      else map_option (Cons r) (append_to_req iface ip packet rs))"

definition arpcache_append_packet :: "iface_info \<Rightarrow> u32 \<Rightarrow> bytes \<Rightarrow> router \<Rightarrow> router" where
  "arpcache_append_packet iface ip packet s =
     (case append_to_req iface ip packet (req_list s) of
        Some rs \<Rightarrow> s\<lparr>req_list := rs\<rparr>
      | None \<Rightarrow>
          (let new_req = \<lparr>req_iface = iface, req_ip4 = ip, sent = clock s, retries = 1,
                          cached_packets = [packet]\<rparr>;
               s = s\<lparr>req_list := req_list s @ [new_req]\<rparr>
           in arp_send_request iface ip s))"

text \<open>The caller passes a packet that has room for an Ethernet header.\<close>

definition iface_send_packet_by_arp :: "iface_info \<Rightarrow> u32 \<Rightarrow> bytes \<Rightarrow> router \<Rightarrow> router" where
  "iface_send_packet_by_arp iface dst_ip packet s =
     (let packet = put 6 (if_mac iface) packet
      in case arpcache_lookup dst_ip s of
           Some m \<Rightarrow>
             iface_send_packet iface (put 12 (bytes16 (htons ETH_P_IP)) (put 0 m packet)) s
         | None \<Rightarrow>
             arp_send_request iface dst_ip (arpcache_append_packet iface dst_ip packet s))"

definition handle_arp_packet :: "iface_info \<Rightarrow> bytes \<Rightarrow> router \<Rightarrow> router res" where
  "handle_arp_packet iface packet s =
     (if length packet < ETHER_HDR_SIZE + ETHER_ARP_SIZE then Inl Out_Of_Bounds
      else if ntohl (arp_tpa packet) \<noteq> if_ip iface then Inr s
      else if ntohs (arp_op packet) = ARPOP_REQUEST
        then Inr (arp_send_reply iface packet
                    (arpcache_insert (ntohl (arp_spa packet)) (arp_sha packet) s))
      else if ntohs (arp_op packet) = ARPOP_REPLY
        then Inr (arpcache_insert (ntohl (arp_spa packet)) (arp_sha packet) s)
      else Inr s)"

section \<open>What each operation does to the state\<close>

lemma iface_send_packet_simps [simp]:
  "rtable (iface_send_packet i p s) = rtable s"
  "entries (iface_send_packet i p s) = entries s"
  "req_list (iface_send_packet i p s) = req_list s"
  "txq (iface_send_packet i p s) = txq s @ [(i, p)]"
  "clock (iface_send_packet i p s) = clock s"
  by (simp_all add: iface_send_packet_def)

lemma arp_send_request_simps [simp]:
  "rtable (arp_send_request i d s) = rtable s"
  "entries (arp_send_request i d s) = entries s"
  "req_list (arp_send_request i d s) = req_list s"
  "txq (arp_send_request i d s) = txq s @ [(i, arp_request_packet i d)]"
  "clock (arp_send_request i d s) = clock s"
  by (simp_all add: arp_send_request_def)

lemma send_cached_eq:
  "send_cached iface m ps s = s\<lparr>txq := txq s @ map (\<lambda>p. (iface, put 0 m p)) ps\<rparr>"
  by (induction ps arbitrary: s) (simp_all add: iface_send_packet_def)

definition pending_frames :: "u32 \<Rightarrow> bytes \<Rightarrow> arp_req list \<Rightarrow> frame list" where
  "pending_frames ip m rs =
     concat (map (\<lambda>r. map (\<lambda>p. (req_iface r, put 0 m p)) (cached_packets r))
       (filter (\<lambda>r. req_ip4 r = ip) rs))"

lemma flush_reqs_eq:
  "flush_reqs ip m rs s =
     (filter (\<lambda>r. req_ip4 r \<noteq> ip) rs, s\<lparr>txq := txq s @ pending_frames ip m rs\<rparr>)"
  by (induction rs arbitrary: s) (simp_all add: send_cached_eq pending_frames_def)

lemma arpcache_insert_simps [simp]:
  "rtable (arpcache_insert ip m s) = rtable s"
  "clock (arpcache_insert ip m s) = clock s"
  "req_list (arpcache_insert ip m s) = filter (\<lambda>r. req_ip4 r \<noteq> ip) (req_list s)"
  "txq (arpcache_insert ip m s) = txq s @ pending_frames ip m (req_list s)"
  "entries (arpcache_insert ip m s) =
     (entries s)[fst (insert_slot s) := \<lparr>ip4 = ip, mac = m, added = clock s, valid = True\<rparr>]"
  by (simp_all add: arpcache_insert_def insert_slot_def next_rand_def flush_reqs_eq Let_def)

lemma append_to_req_None:
  "append_to_req iface ip p rs = None \<longleftrightarrow> (iface, ip) \<notin> (\<lambda>r. (req_iface r, req_ip4 r)) ` set rs"
  by (induction rs) auto

lemma append_to_req_Some:
  assumes "append_to_req iface ip p rs = Some rs'"
  obtains xs r ys where "rs = xs @ r # ys"
    "rs' = xs @ r\<lparr>cached_packets := cached_packets r @ [p]\<rparr> # ys"
    "req_iface r = iface" "req_ip4 r = ip"
    "\<forall>x\<in>set xs. (req_iface x, req_ip4 x) \<noteq> (iface, ip)"
  using assms
proof (induction rs arbitrary: rs' thesis)
  case (Cons r rs)
  show ?case
  proof (cases "req_ip4 r = ip \<and> req_iface r = iface")
    case True
    then show ?thesis using Cons.prems(2) by (intro Cons.prems(1) [of "[]" r rs]) auto
  next
    case False
    then obtain rs1 where rs1: "append_to_req iface ip p rs = Some rs1" "rs' = r # rs1"
      using Cons.prems(2) by auto
    obtain xs q ys where "rs = xs @ q # ys"
      "rs1 = xs @ q\<lparr>cached_packets := cached_packets q @ [p]\<rparr> # ys"
      "req_iface q = iface" "req_ip4 q = ip"
      "\<forall>x\<in>set xs. (req_iface x, req_ip4 x) \<noteq> (iface, ip)"
      using Cons.IH [OF _ rs1(1)] by blast
    then show ?thesis using False rs1(2) by (intro Cons.prems(1) [of "r # xs" q ys]) auto
  qed
qed simp

section \<open>The free slots\<close>

lemma first_invalid_le: "first_invalid es \<le> length es"
  by (induction es) auto

lemma first_invalid_room:
  "first_invalid es < length es \<longleftrightarrow> (\<exists>e\<in>set es. \<not> valid e)"
  by (induction es) auto

lemma first_invalid_split:
  assumes "first_invalid es < length es"
  obtains xs e ys where "es = xs @ e # ys" "first_invalid es = length xs" "\<not> valid e"
    "\<forall>x\<in>set xs. valid x"
  using assms
proof (induction es arbitrary: thesis)
  case (Cons e es)
  show ?case
  proof (cases "valid e")
    case True
    then have "first_invalid es < length es" using Cons.prems(2) by simp
    then obtain xs f ys where "es = xs @ f # ys" "first_invalid es = length xs" "\<not> valid f"
      "\<forall>x\<in>set xs. valid x" using Cons.IH by blast
    then show ?thesis using True by (intro Cons.prems(1) [of "e # xs" f ys]) auto
  next
    case False
    then show ?thesis by (intro Cons.prems(1) [of "[]" e es]) auto
  qed
qed simp

text \<open>The invariant of the cache, and the number of free slots.\<close>

definition entries_inv :: "router \<Rightarrow> bool" where
  "entries_inv s = (length (entries s) = MAX_ARP_SIZE \<and> (\<forall>e\<in>set (entries s). length (mac e) = ETH_ALEN))"

definition room :: "router \<Rightarrow> nat" where
  "room s = length (filter (\<lambda>e. \<not> valid e) (entries s))"

lemma insert_slot_less: "entries_inv s \<Longrightarrow> fst (insert_slot s) < MAX_ARP_SIZE"
  using first_invalid_le [of "entries s"]
  by (auto simp: insert_slot_def next_rand_def entries_inv_def Let_def)

lemma room_pos: "entries_inv s \<Longrightarrow> 0 < room s \<Longrightarrow> first_invalid (entries s) < length (entries s)"
  by (auto simp: room_def first_invalid_room filter_empty_conv)

lemma insert_slot_room:
  "entries_inv s \<Longrightarrow> 0 < room s \<Longrightarrow> insert_slot s = (first_invalid (entries s), s)"
  using room_pos [of s] by (simp add: insert_slot_def entries_inv_def)

lemma entries_inv_insert:
  assumes "entries_inv s" "length m = ETH_ALEN"
  shows "entries_inv (arpcache_insert ip m s)"
proof -
  have "\<forall>e\<in>set ((entries s)[fst (insert_slot s) :=
      \<lparr>ip4 = ip, mac = m, added = clock s, valid = True\<rparr>]). length (mac e) = ETH_ALEN"
    using assms set_update_subset_insert by (fastforce simp: entries_inv_def)
  then show ?thesis using assms by (simp add: entries_inv_def)
qed

lemma insert_split:
  assumes "entries_inv s" "0 < room s"
  obtains xs e ys where "entries s = xs @ e # ys" "\<not> valid e" "\<forall>x\<in>set xs. valid x"
    "entries (arpcache_insert ip m s) =
       xs @ \<lparr>ip4 = ip, mac = m, added = clock s, valid = True\<rparr> # ys"
proof -
  obtain xs e ys where *: "entries s = xs @ e # ys" "first_invalid (entries s) = length xs"
    "\<not> valid e" "\<forall>x\<in>set xs. valid x"
    using first_invalid_split [OF room_pos [OF assms]] by blast
  then show thesis using that [of xs e ys] by (simp add: insert_slot_room [OF assms])
qed

lemma find_append: "find P (xs @ ys) = (case find P xs of None \<Rightarrow> find P ys | Some x \<Rightarrow> Some x)"
  by (induction xs) auto

section \<open>The cache as an interface\<close>

text \<open>
  What the stack relies on: a fresh address that is learnt is found, learning while there is a
  free slot changes no other address and takes one slot.
\<close>

locale neighbour_cache =
  fixes inv :: "'s \<Rightarrow> bool"
    and slots :: "'s \<Rightarrow> nat"
    and lookup :: "u32 \<Rightarrow> 's \<Rightarrow> bytes option"
    and learn :: "u32 \<Rightarrow> bytes \<Rightarrow> 's \<Rightarrow> 's"
  assumes inv_learn: "inv s \<Longrightarrow> length m = ETH_ALEN \<Longrightarrow> inv (learn ip m s)"
    and slots_learn: "inv s \<Longrightarrow> 0 < slots s \<Longrightarrow> slots (learn ip m s) = slots s - 1"
    and lookup_same: "inv s \<Longrightarrow> lookup ip s = None \<Longrightarrow> lookup ip (learn ip m s) = Some m"
    and lookup_other:
      "inv s \<Longrightarrow> 0 < slots s \<Longrightarrow> ip \<noteq> ip' \<Longrightarrow> lookup ip' (learn ip m s) = lookup ip' s"
begin

definition learn_all :: "(u32 \<times> bytes) list \<Rightarrow> 's \<Rightarrow> 's" where
  "learn_all bs s = fold (\<lambda>(ip, m) t. learn ip m t) bs s"

lemma learn_all_lookup:
  assumes "inv s" "distinct (map fst bs)" "length bs \<le> slots s"
    "\<forall>(ip, m)\<in>set bs. lookup ip s = None \<and> length m = ETH_ALEN"
  shows "inv (learn_all bs s) \<and>
    (\<forall>ip. lookup ip (learn_all bs s) = (case map_of bs ip of None \<Rightarrow> lookup ip s | Some m \<Rightarrow> Some m))"
  using assms
proof (induction bs arbitrary: s)
  case (Cons b bs)
  obtain ip m where b: "b = (ip, m)" by (cases b)
  let ?t = "learn ip m s"
  have sl: "0 < slots s" using Cons.prems(3) by simp
  have t: "inv ?t" "slots ?t = slots s - 1" "lookup ip ?t = Some m"
    using Cons.prems b sl inv_learn slots_learn lookup_same by auto
  have o: "\<And>k. k \<noteq> ip \<Longrightarrow> lookup k ?t = lookup k s"
    using lookup_other [OF Cons.prems(1) sl] by metis
  have "\<forall>(k, n)\<in>set bs. lookup k ?t = None \<and> length n = ETH_ALEN"
    using Cons.prems(2,4) b o by (fastforce simp: image_iff)
  then have ih: "inv (learn_all bs ?t)"
    "\<And>k. lookup k (learn_all bs ?t) = (case map_of bs k of None \<Rightarrow> lookup k ?t | Some n \<Rightarrow> Some n)"
    using Cons.IH [of ?t] Cons.prems t b by auto
  have "map_of bs ip = None" using Cons.prems(2) b by (simp add: map_of_eq_None_iff)
  then show ?case using ih t(3) o b by (auto simp: learn_all_def split: option.splits)
qed (simp add: learn_all_def)

end

interpretation ac: neighbour_cache entries_inv room arpcache_lookup arpcache_insert
proof
  fix s :: router and m :: bytes and ip
  assume "entries_inv s" "length m = ETH_ALEN"
  then show "entries_inv (arpcache_insert ip m s)" by (rule entries_inv_insert)
next
  fix s :: router and m :: bytes and ip
  assume "entries_inv s" "0 < room s"
  then show "room (arpcache_insert ip m s) = room s - 1"
    by (rule insert_split [of s ip m]) (simp add: room_def)
next
  fix s :: router and m :: bytes and ip
  assume inv: "entries_inv s" and none: "arpcache_lookup ip s = None"
  let ?e = "\<lparr>ip4 = ip, mac = m, added = clock s, valid = True\<rparr>"
  let ?i = "fst (insert_slot s)"
  have "?i < length (entries s)" using insert_slot_less [OF inv] inv by (simp add: entries_inv_def)
  moreover have "\<forall>e\<in>set (entries s). \<not> (valid e \<and> ip4 e = ip)"
    using none by (simp add: arpcache_lookup_def find_None_iff)
  ultimately have "find (\<lambda>e. valid e \<and> ip4 e = ip) ((entries s)[?i := ?e]) = Some ?e"
    by (intro find_Some_iff [THEN iffD2] exI [of _ ?i]) (auto simp: nth_list_update)
  then show "arpcache_lookup ip (arpcache_insert ip m s) = Some m"
    by (simp add: arpcache_lookup_def)
next
  fix s :: router and m :: bytes and ip ip' :: u32
  assume *: "entries_inv s" "0 < room s" and ne: "ip \<noteq> ip'"
  obtain xs e ys where "entries s = xs @ e # ys" "\<not> valid e"
    "entries (arpcache_insert ip m s) =
       xs @ \<lparr>ip4 = ip, mac = m, added = clock s, valid = True\<rparr> # ys"
    using insert_split [OF *] by metis
  then show "arpcache_lookup ip' (arpcache_insert ip m s) = arpcache_lookup ip' s"
    using ne unfolding arpcache_lookup_def by (simp add: find_append split: option.splits)
qed

section \<open>The frames that ARP builds\<close>

lemma length_malloc [simp]: "length (malloc n) = n"
  by (simp add: malloc_def)

lemma ETHER_ARP_SIZE_simp [simp]: "ETHER_ARP_SIZE = 28"
  by (simp add: ETHER_ARP_SIZE_def)

lemma length_arp_sha [simp]: "42 \<le> length p \<Longrightarrow> length (arp_sha p) = 6"
  by (simp add: arp_sha_def)

lemma arp_reply_packet_fields:
  assumes "42 \<le> length req" "length (if_mac i) = ETH_ALEN"
  shows "length (arp_reply_packet i req) = 42"
    "ether_dhost (arp_reply_packet i req) = arp_sha req"
    "ether_shost (arp_reply_packet i req) = if_mac i"
    "ether_type (arp_reply_packet i req) = htons ETH_P_ARP"
    "arp_op (arp_reply_packet i req) = htons ARPOP_REPLY"
    "arp_sha (arp_reply_packet i req) = if_mac i"
    "arp_spa (arp_reply_packet i req) = htonl (if_ip i)"
    "arp_tha (arp_reply_packet i req) = arp_sha req"
    "arp_tpa (arp_reply_packet i req) = arp_spa req"
  using assms
  by (simp_all add: arp_reply_packet_def ether_dhost_def ether_shost_def ether_type_def arp_op_def
      arp_sha_def [of "put _ _ _"] arp_spa_def [of "put _ _ _"] arp_tha_def arp_tpa_def
      buffer_simps Let_def)

lemma arp_request_packet_fields:
  assumes "length (if_mac i) = ETH_ALEN"
  shows "length (arp_request_packet i d) = 42"
    "ether_dhost (arp_request_packet i d) = replicate ETH_ALEN 0xff"
    "ether_shost (arp_request_packet i d) = if_mac i"
    "ether_type (arp_request_packet i d) = htons ETH_P_ARP"
    "arp_op (arp_request_packet i d) = htons ARPOP_REQUEST"
    "arp_sha (arp_request_packet i d) = if_mac i"
    "arp_spa (arp_request_packet i d) = htonl (if_ip i)"
    "arp_tha (arp_request_packet i d) = replicate ETH_ALEN 0"
    "arp_tpa (arp_request_packet i d) = htonl d"
  using assms
  by (simp_all add: arp_request_packet_def ether_dhost_def ether_shost_def ether_type_def arp_op_def
      arp_sha_def arp_spa_def arp_tha_def arp_tpa_def buffer_simps Let_def)

section \<open>Queueing and flushing\<close>

lemma append_packets_to_last:
  assumes "\<forall>r\<in>set rs. req_ip4 r \<noteq> ip" "req_ip4 q = ip" "req_iface q = iface" "req_list s = rs @ [q]"
  shows "fold (arpcache_append_packet iface ip) ps s =
    s\<lparr>req_list := rs @ [q\<lparr>cached_packets := cached_packets q @ ps\<rparr>]\<rparr>"
  using assms(2-4)
proof (induction ps arbitrary: s q)
  case (Cons p ps)
  let ?q = "q\<lparr>cached_packets := cached_packets q @ [p]\<rparr>"
  have "append_to_req iface ip p (rs' @ [q]) = Some (rs' @ [?q])"
    if "\<forall>r\<in>set rs'. req_ip4 r \<noteq> ip" for rs'
    using that Cons.prems by (induction rs') auto
  then have "arpcache_append_packet iface ip p s = s\<lparr>req_list := rs @ [?q]\<rparr>"
    using assms(1) Cons.prems by (simp add: arpcache_append_packet_def)
  then show ?case using Cons.IH [of ?q "s\<lparr>req_list := rs @ [?q]\<rparr>"] Cons.prems by simp
qed simp

lemma append_packets_fresh:
  assumes "\<forall>r\<in>set (req_list s). req_ip4 r \<noteq> ip"
  shows "\<exists>q. req_ip4 q = ip \<and> req_iface q = iface \<and> cached_packets q = p # ps \<and>
    req_list (fold (arpcache_append_packet iface ip) (p # ps) s) = req_list s @ [q] \<and>
    txq (fold (arpcache_append_packet iface ip) (p # ps) s) =
      txq s @ [(iface, arp_request_packet iface ip)]"
proof -
  let ?q = "\<lparr>req_iface = iface, req_ip4 = ip, sent = clock s, retries = 1, cached_packets = [p]\<rparr>"
  let ?t = "arp_send_request iface ip (s\<lparr>req_list := req_list s @ [?q]\<rparr>)"
  have "append_to_req iface ip p (req_list s) = None"
    using assms by (auto simp: append_to_req_None)
  then have "arpcache_append_packet iface ip p s = ?t"
    by (simp add: arpcache_append_packet_def)
  moreover have "fold (arpcache_append_packet iface ip) ps ?t =
      ?t\<lparr>req_list := req_list s @ [?q\<lparr>cached_packets := cached_packets ?q @ ps\<rparr>]\<rparr>"
    using assms by (intro append_packets_to_last) simp_all
  ultimately show ?thesis
    by (intro exI [of _ "?q\<lparr>cached_packets := p # ps\<rparr>"]) simp
qed

lemma find_take_update:
  "find P (take i es) = Some e \<Longrightarrow> find P (es[i := x]) = Some e"
proof -
  assume a: "find P (take i es) = Some e"
  have "es[i := x] = take i es @ drop i (es[i := x])"
    by (metis append_take_drop_id take_update_cancel order_refl)
  then show ?thesis using a by (metis find_append option.simps(5))
qed

section \<open>Properties\<close>

text \<open>
  The cache learns. From a state with no entry for the given addresses and enough
  free slots, learning the bindings one after the other makes each of them found, and changes
  what is found for no other address.
\<close>
theorem arpcache_learns_all:
  assumes "entries_inv s" "distinct (map fst bs)" "length bs \<le> room s"
    "\<forall>(ip, m)\<in>set bs. arpcache_lookup ip s = None \<and> length m = ETH_ALEN"
  shows "arpcache_lookup ip (fold (\<lambda>(ip, m) t. arpcache_insert ip m t) bs s) =
    (case map_of bs ip of None \<Rightarrow> arpcache_lookup ip s | Some m \<Rightarrow> Some m)"
  using ac.learn_all_lookup [OF assms] by (simp add: ac.learn_all_def)

definition example_router :: router where
  "example_router = arpcache_init \<lparr>rtable = [], entries = [], req_list = [], txq = [], clock = 0,
     rnd = (\<lambda>n. n), rnd_pos = 0\<rparr>"

lemma example_router_simps [simp]:
  "entries_inv example_router" "room example_router = 32" "arpcache_lookup ip example_router = None"
  "req_list example_router = []" "txq example_router = []" "clock example_router = 0"
  by (simp_all add: example_router_def arpcache_init_def entries_inv_def room_def empty_entry_def
      arpcache_lookup_def find_None_iff)

theorem arpcache_learns_all_witness:
  "arpcache_lookup 2 (fold (\<lambda>(ip, m) t. arpcache_insert ip m t)
     [(1, replicate 6 0xaa), (2, replicate 6 0xbb)] example_router) = Some (replicate 6 0xbb)"
  using arpcache_learns_all [of example_router "[(1, replicate 6 0xaa), (2, replicate 6 0xbb)]" 2]
  by simp

text \<open>
  Property C29: Packets wait for their address and are delivered. Packets queued for an address
  with no pending request cause one ARP request; when the address is learnt every one of them
  is sent on its interface, in the order they were queued, with only the destination address
  of the Ethernet header replaced, and the request is removed.
\<close>
theorem pending_packets_delivered:
  assumes "\<forall>r\<in>set (req_list s). req_ip4 r \<noteq> ip" "ps \<noteq> []"
  shows "let t = arpcache_insert ip m (fold (arpcache_append_packet iface ip) ps s)
    in txq t = txq s @ (iface, arp_request_packet iface ip) # map (\<lambda>p. (iface, put 0 m p)) ps \<and>
       req_list t = req_list s"
proof -
  obtain p ps' where ps: "ps = p # ps'" using assms(2) by (cases ps) auto
  obtain q where "req_ip4 q = ip" "req_iface q = iface" "cached_packets q = ps"
    "req_list (fold (arpcache_append_packet iface ip) ps s) = req_list s @ [q]"
    "txq (fold (arpcache_append_packet iface ip) ps s) = txq s @ [(iface, arp_request_packet iface ip)]"
    using append_packets_fresh [OF assms(1)] ps by blast
  moreover have "filter (\<lambda>r. req_ip4 r = ip) (req_list s) = []"
    "filter (\<lambda>r. req_ip4 r \<noteq> ip) (req_list s) = req_list s"
    using assms(1) by (auto simp: filter_empty_conv filter_id_conv)
  ultimately show ?thesis by (simp add: pending_frames_def)
qed

theorem pending_packets_delivered_witness:
  "length (txq (arpcache_insert 7 [1, 2, 3, 4, 5, 6] (fold (arpcache_append_packet
     \<lparr>if_fd = 3, if_index = 1, if_mac = replicate 6 9, if_ip = 5, if_mask = 0, if_name = ''r1-eth0''\<rparr> 7)
     [replicate 40 0, replicate 41 0] example_router))) = 3"
  using pending_packets_delivered [of example_router 7 "[replicate 40 0, replicate 41 0]"
      "[1, 2, 3, 4, 5, 6]"
      "\<lparr>if_fd = 3, if_index = 1, if_mac = replicate 6 9, if_ip = 5, if_mask = 0, if_name = ''r1-eth0''\<rparr>"]
  by (simp add: Let_def)

text \<open>
  A changed address is not picked up while the old entry is valid. When an entry
  for the address is found before the first free slot, inserting a new binding leaves the
  answer of \<^verbatim>\<open>arpcache_lookup\<close> as it was: the old hardware address.
\<close>
theorem arpcache_insert_keeps_stale:
  assumes "entries_inv s" "0 < room s"
    "find (\<lambda>e. valid e \<and> ip4 e = ip) (take (first_invalid (entries s)) (entries s)) = Some e"
  shows "arpcache_lookup ip (arpcache_insert ip m s) = Some (mac e)"
  using find_take_update [OF assms(3)] insert_slot_room [OF assms(1,2)]
  by (simp add: arpcache_lookup_def)

theorem arpcache_insert_keeps_stale_witness:
  "arpcache_lookup 7 (arpcache_insert 7 (replicate 6 2) (arpcache_insert 7 (replicate 6 1) example_router))
     = Some (replicate 6 1)"
proof -
  let ?s = "arpcache_insert 7 (replicate 6 1) example_router"
  have "entries ?s = \<lparr>ip4 = 7, mac = replicate 6 1, added = 0, valid = True\<rparr> # replicate 31 empty_entry"
    by code_simp
  then show ?thesis
    using arpcache_insert_keeps_stale [of ?s 7 "\<lparr>ip4 = 7, mac = replicate 6 1, added = 0, valid = True\<rparr>"
        "replicate 6 2"]
    by (simp add: entries_inv_def room_def empty_entry_def numeral_eq_Suc)
qed

text \<open>
  Property C28: An ARP exchange resolves. The request one stack sends for the address of an
  interface of another makes the other learn the sender and answer; the answer makes the first
  learn the hardware address it asked for. Packets that ask for another address change nothing.
\<close>
theorem arp_exchange_resolves:
  assumes "entries_inv sa" "entries_inv sb"
    "arpcache_lookup (if_ip ib) sa = None" "arpcache_lookup (if_ip ia) sb = None"
    "length (if_mac ia) = ETH_ALEN" "length (if_mac ib) = ETH_ALEN"
  shows "\<exists>sb' reply sa'.
    handle_arp_packet ib (arp_request_packet ia (if_ip ib)) sb = Inr sb' \<and>
    last (txq sb') = (ib, reply) \<and> ether_dhost reply = if_mac ia \<and>
    arpcache_lookup (if_ip ia) sb' = Some (if_mac ia) \<and>
    handle_arp_packet ia reply sa = Inr sa' \<and>
    arpcache_lookup (if_ip ib) sa' = Some (if_mac ib) \<and>
    (\<forall>j. if_ip j \<noteq> if_ip ib \<longrightarrow> handle_arp_packet j (arp_request_packet ia (if_ip ib)) sb = Inr sb)"
proof -
  let ?q = "arp_request_packet ia (if_ip ib)"
  let ?r = "arp_reply_packet ib ?q"
  let ?sb = "arpcache_insert (if_ip ia) (if_mac ia) sb"
  note q = arp_request_packet_fields [OF assms(5), of "if_ip ib"]
  note r = arp_reply_packet_fields [OF _ assms(6), of ?q]
  have ops: "htons ARPOP_REQUEST \<noteq> htons ARPOP_REPLY" by simp
  have "handle_arp_packet ib ?q sb = Inr (arp_send_reply ib ?q ?sb)"
    by (simp add: handle_arp_packet_def q)
  moreover have "handle_arp_packet ia ?r sa = Inr (arpcache_insert (if_ip ib) (if_mac ib) sa)"
    using r q by (simp add: handle_arp_packet_def)
  moreover have "arpcache_lookup (if_ip ia) (arp_send_reply ib ?q ?sb) = Some (if_mac ia)"
    using ac.lookup_same [OF assms(2,4)] by (simp add: arp_send_reply_def arpcache_lookup_def)
  moreover have "arpcache_lookup (if_ip ib) (arpcache_insert (if_ip ib) (if_mac ib) sa) = Some (if_mac ib)"
    using ac.lookup_same [OF assms(1,3)] .
  moreover have "ether_dhost ?r = if_mac ia" using r q by simp
  moreover have "last (txq (arp_send_reply ib ?q ?sb)) = (ib, ?r)" by (simp add: arp_send_reply_def)
  moreover have "handle_arp_packet j ?q sb = Inr sb" if "if_ip j \<noteq> if_ip ib" for j
    using that by (simp add: handle_arp_packet_def q)
  ultimately show ?thesis by blast
qed

theorem arp_exchange_resolves_witness:
  "\<exists>sb'. handle_arp_packet
     \<lparr>if_fd = 4, if_index = 2, if_mac = replicate 6 8, if_ip = 6, if_mask = 0, if_name = ''r2-eth0''\<rparr>
     (arp_request_packet
        \<lparr>if_fd = 3, if_index = 1, if_mac = replicate 6 9, if_ip = 5, if_mask = 0, if_name = ''r1-eth0''\<rparr> 6)
     example_router = Inr sb' \<and> arpcache_lookup 5 sb' = Some (replicate 6 9)"
  using arp_exchange_resolves [of example_router example_router
      "\<lparr>if_fd = 4, if_index = 2, if_mac = replicate 6 8, if_ip = 6, if_mask = 0, if_name = ''r2-eth0''\<rparr>"
      "\<lparr>if_fd = 3, if_index = 1, if_mac = replicate 6 9, if_ip = 5, if_mask = 0, if_name = ''r1-eth0''\<rparr>"]
  by auto

text \<open>
  Sending through the cache. With the address known, exactly one frame goes out, with
  the interface's address as source, the known one as destination, type IPv4 and the payload
  unchanged. With the address unknown the packet itself is not sent: it joins the request for
  this interface and address, and one ARP request is sent; when the request is new the code
  sends a second one, from \<^verbatim>\<open>arpcache_append_packet\<close>.
\<close>
theorem iface_send_packet_by_arp_outcome:
  assumes "14 \<le> length p" "length (if_mac i) = ETH_ALEN" "entries_inv s"
  shows "case arpcache_lookup ip s of
    Some m \<Rightarrow> \<exists>f. iface_send_packet_by_arp i ip p s = iface_send_packet i f s \<and>
      length f = length p \<and> ether_dhost f = m \<and> ether_shost f = if_mac i \<and>
      ether_type f = htons ETH_P_IP \<and> drop 14 f = drop 14 p
  | None \<Rightarrow> (\<exists>n\<in>{1, 2}. txq (iface_send_packet_by_arp i ip p s) =
        txq s @ replicate n (i, arp_request_packet i ip) \<and>
        (n = 2 \<longleftrightarrow> (i, ip) \<notin> (\<lambda>r. (req_iface r, req_ip4 r)) ` set (req_list s))) \<and>
      (\<exists>r\<in>set (req_list (iface_send_packet_by_arp i ip p s)).
        req_iface r = i \<and> req_ip4 r = ip \<and> last (cached_packets r) = put 6 (if_mac i) p)"
proof (cases "arpcache_lookup ip s")
  case (Some m)
  then have m: "length m = 6"
    using assms(3) by (auto simp: arpcache_lookup_def entries_inv_def find_Some_iff)
  let ?f = "put 12 (bytes16 (htons ETH_P_IP)) (put 0 m (put 6 (if_mac i) p))"
  have "drop 14 ?f = drop 14 p" using assms m by (simp add: put_def)
  moreover have "length ?f = length p" "ether_dhost ?f = m" "ether_shost ?f = if_mac i"
    "ether_type ?f = htons ETH_P_IP"
    using assms m by (simp_all add: ether_dhost_def ether_shost_def ether_type_def buffer_simps)
  moreover have "iface_send_packet_by_arp i ip p s = iface_send_packet i ?f s"
    using Some by (simp add: iface_send_packet_by_arp_def)
  ultimately show ?thesis unfolding Some option.simps(5) by (intro exI [of _ ?f] conjI)
next
  case None
  let ?p = "put 6 (if_mac i) p"
  show ?thesis
  proof (cases "append_to_req i ip ?p (req_list s)")
    case fresh: None
    then show ?thesis
      using None append_to_req_None [of i ip ?p "req_list s"]
      by (simp add: iface_send_packet_by_arp_def arpcache_append_packet_def numeral_2_eq_2)
  next
    case (Some rs)
    then obtain xs r ys where r: "req_list s = xs @ r # ys"
      "rs = xs @ r\<lparr>cached_packets := cached_packets r @ [?p]\<rparr> # ys" "req_iface r = i" "req_ip4 r = ip"
      by (rule append_to_req_Some)
    then show ?thesis
      using None Some by (auto simp: iface_send_packet_by_arp_def arpcache_append_packet_def image_iff)
  qed
qed

theorem iface_send_packet_by_arp_outcome_witness:
  "length (txq (iface_send_packet_by_arp
     \<lparr>if_fd = 3, if_index = 1, if_mac = replicate 6 9, if_ip = 5, if_mask = 0, if_name = ''r1-eth0''\<rparr>
     7 (replicate 40 0) example_router)) = 2"
  using iface_send_packet_by_arp_outcome [of "replicate 40 0"
      "\<lparr>if_fd = 3, if_index = 1, if_mac = replicate 6 9, if_ip = 5, if_mask = 0, if_name = ''r1-eth0''\<rparr>"
      example_router 7]
  by auto

end
