(* ===== verification/Ip_Router.thy ===== *)
theory Ip_Router
  imports Arp_Cache Checksum
begin

text \<open>
  The IP router of \<^verbatim>\<open>code-exp5\<close>: \<^verbatim>\<open>include/ip.h\<close>, \<^verbatim>\<open>include/icmp.h\<close>, \<^verbatim>\<open>ip_base.c\<close>, \<^verbatim>\<open>icmp.c\<close>,
  \<^verbatim>\<open>ip.c\<close> and \<^verbatim>\<open>handle_packet\<close> of \<^verbatim>\<open>main.c\<close>, over the state \<open>router\<close> of \<open>Arp_Cache\<close>. A packet is a buffer that holds exactly the received bytes; the IP
  header starts at offset 14. Reading or writing outside a buffer is \<open>Out_Of_Bounds\<close>, using a
  freed packet is \<open>Use_After_Free\<close>.
\<close>

section \<open>Headers\<close>

definition IPPROTO_ICMP :: u8 where "IPPROTO_ICMP = 1"
definition IP_BASE_HDR_SIZE :: nat where "IP_BASE_HDR_SIZE = 20"
definition DEFAULT_TTL :: u8 where "DEFAULT_TTL = 64"
definition IP_DF :: u16 where "IP_DF = 0x4000"
definition ICMP_HDR_SIZE :: nat where "ICMP_HDR_SIZE = 8"
definition ICMP_COPIED_DATA_LEN :: nat where "ICMP_COPIED_DATA_LEN = 8"
definition ICMP_ECHOREQUEST :: u8 where "ICMP_ECHOREQUEST = 8"
definition ICMP_ECHOREPLY :: u8 where "ICMP_ECHOREPLY = 0"
definition ICMP_DEST_UNREACH :: u8 where "ICMP_DEST_UNREACH = 3"
definition ICMP_TIME_EXCEEDED :: u8 where "ICMP_TIME_EXCEEDED = 11"
definition ICMP_NET_UNREACH :: u8 where "ICMP_NET_UNREACH = 0"
definition ICMP_HOST_UNREACH :: u8 where "ICMP_HOST_UNREACH = 1"
definition ICMP_EXC_TTL :: u8 where "ICMP_EXC_TTL = 0"

lemmas ip_consts [simp] =
  IPPROTO_ICMP_def IP_BASE_HDR_SIZE_def DEFAULT_TTL_def IP_DF_def ICMP_HDR_SIZE_def
  ICMP_COPIED_DATA_LEN_def ICMP_ECHOREQUEST_def ICMP_ECHOREPLY_def ICMP_DEST_UNREACH_def
  ICMP_TIME_EXCEEDED_def ICMP_NET_UNREACH_def ICMP_HOST_UNREACH_def ICMP_EXC_TTL_def

definition ip_ihl :: "bytes \<Rightarrow> nat" where "ip_ihl p = unat (p ! 14) mod 16"
definition ip_version :: "bytes \<Rightarrow> nat" where "ip_version p = unat (p ! 14) div 16"
definition ip_tot_len :: "bytes \<Rightarrow> u16" where "ip_tot_len p = ld16 16 p"
definition ip_ttl :: "bytes \<Rightarrow> u8" where "ip_ttl p = p ! 22"
definition ip_protocol :: "bytes \<Rightarrow> u8" where "ip_protocol p = p ! 23"
definition ip_saddr :: "bytes \<Rightarrow> u32" where "ip_saddr p = ld32 26 p"
definition ip_daddr :: "bytes \<Rightarrow> u32" where "ip_daddr p = ld32 30 p"

definition IP_HDR_SIZE :: "bytes \<Rightarrow> nat" where
  "IP_HDR_SIZE p = ip_ihl p * 4"

text \<open>The checksum of the header, with the checksum field (bytes 24 and 25) taken as zero.\<close>

definition ip_checksum :: "bytes \<Rightarrow> u16" where
  "ip_checksum p = checksum5 (sub 14 (IP_HDR_SIZE p) (put 24 [0, 0] p)) 0"

definition ip_init_hdr :: "bytes \<Rightarrow> u32 \<Rightarrow> u32 \<Rightarrow> u16 \<Rightarrow> u8 \<Rightarrow> router \<Rightarrow> bytes \<times> router" where
  "ip_init_hdr p saddr daddr len proto s =
     (let (r, s) = next_rand s;
          p = put 14 [0x45] p;
          p = put 15 [0] p;
          p = put 16 (bytes16 (htons len)) p;
          p = put 18 (bytes16 (of_nat r)) p;
          p = put 20 (bytes16 (htons IP_DF)) p;
          p = put 22 [DEFAULT_TTL] p;
          p = put 23 [proto] p;
          p = put 26 (bytes32 (htonl saddr)) p;
          p = put 30 (bytes32 (htonl daddr)) p
      in (put 24 (bytes16 (ip_checksum p)) p, s))"

definition ip_send_packet :: "bytes \<Rightarrow> router \<Rightarrow> router" where
  "ip_send_packet packet s =
     (case longest_prefix_match (rtable s) (ntohl (ip_daddr packet)) of
        None \<Rightarrow> s
      | Some entry \<Rightarrow>
          (let next_hop = (if gw entry \<noteq> 0 then gw entry else ntohl (ip_daddr packet))
           in iface_send_packet_by_arp (rt_iface entry) next_hop packet s))"

section \<open>ICMP\<close>

text \<open>The ICMP message of \<open>len\<close> bytes starts at offset 34.\<close>

definition icmp_checksum :: "nat \<Rightarrow> bytes \<Rightarrow> u16" where
  "icmp_checksum len p = checksum5 (sub 34 len (put 36 [0, 0] p)) 0"

text \<open>
  The body of the message: for an echo reply the whole message of the request, then type and
  code 0; otherwise the header and 8 bytes of the packet, with identifier and sequence 0.
\<close>

definition icmp_body :: "bytes \<Rightarrow> nat \<Rightarrow> u8 \<Rightarrow> bytes \<Rightarrow> bytes" where
  "icmp_body in_pkt icmp_len type p =
     (if type = ICMP_ECHOREPLY
      then put 34 [ICMP_ECHOREPLY, 0] (put 34 (sub (14 + IP_HDR_SIZE in_pkt) icmp_len in_pkt) p)
      else put 38 [0, 0, 0, 0]
             (put (34 + ICMP_HDR_SIZE)
                (sub 14 (IP_HDR_SIZE in_pkt + ICMP_COPIED_DATA_LEN) in_pkt) p))"

definition icmp_length :: "bytes \<Rightarrow> u8 \<Rightarrow> int" where
  "icmp_length in_pkt type =
     (if type = ICMP_ECHOREPLY
      then int (length in_pkt) - int ETHER_HDR_SIZE - int (IP_HDR_SIZE in_pkt)
      else int (ICMP_HDR_SIZE + IP_HDR_SIZE in_pkt + ICMP_COPIED_DATA_LEN))"

text \<open>The packet that is sent, once a route \<open>entry\<close> to the sender is known.\<close>

definition icmp_packet :: "bytes \<Rightarrow> u8 \<Rightarrow> u8 \<Rightarrow> rt_entry \<Rightarrow> router \<Rightarrow> bytes \<times> router" where
  "icmp_packet in_pkt type code entry s =
     (let icmp_len = nat (icmp_length in_pkt type);
          p = malloc (ETHER_HDR_SIZE + IP_BASE_HDR_SIZE + icmp_len);
          p = put 0 (replicate ETHER_HDR_SIZE 0) p;
          p = put 12 (bytes16 (htons ETH_P_IP)) p;
          (p, s) = ip_init_hdr p (if_ip (rt_iface entry)) (ntohl (ip_saddr in_pkt))
                     (of_nat (IP_BASE_HDR_SIZE + icmp_len)) IPPROTO_ICMP s;
          p = put 34 [type, code, 0, 0] p;
          p = icmp_body in_pkt icmp_len type p
      in (put 36 (bytes16 (icmp_checksum icmp_len p)) p, s))"

definition icmp_send_packet :: "bytes \<Rightarrow> u8 \<Rightarrow> u8 \<Rightarrow> router \<Rightarrow> router res" where
  "icmp_send_packet in_pkt type code s =
     (if length in_pkt < ETHER_HDR_SIZE + IP_BASE_HDR_SIZE then Inl Out_Of_Bounds
      else let icmp_len = icmp_length in_pkt type
      in if int (ETHER_HDR_SIZE + IP_BASE_HDR_SIZE) + icmp_len < int ETHER_HDR_SIZE
        then Inl Out_Of_Bounds
      else case longest_prefix_match (rtable s) (ntohl (ip_saddr in_pkt)) of
        None \<Rightarrow> Inr s
      | Some entry \<Rightarrow>
         if icmp_len < 4 then Inl Out_Of_Bounds
         else if type \<noteq> ICMP_ECHOREPLY \<and>
                 length in_pkt < 14 + IP_HDR_SIZE in_pkt + ICMP_COPIED_DATA_LEN
           then Inl Out_Of_Bounds
         else let (p, s) = icmp_packet in_pkt type code entry s in Inr (ip_send_packet p s))"

section \<open>Receiving and forwarding\<close>

definition ip_forward_packet :: "u32 \<Rightarrow> bytes \<Rightarrow> router \<Rightarrow> router res" where
  "ip_forward_packet ip_dst packet s =
     (let packet = packet[22 := ip_ttl packet - 1]
      in if ip_ttl packet \<le> 0
         then res_bind (icmp_send_packet packet ICMP_TIME_EXCEEDED ICMP_EXC_TTL s)
                (\<lambda>s. Inl Use_After_Free)
         else if length packet < 14 + IP_HDR_SIZE packet then Inl Out_Of_Bounds
         else let packet = put 24 (bytes16 (ip_checksum packet)) packet
         in case longest_prefix_match (rtable s) ip_dst of
              None \<Rightarrow> icmp_send_packet packet ICMP_DEST_UNREACH ICMP_NET_UNREACH s
            | Some entry \<Rightarrow>
                (let next_hop = (if gw entry \<noteq> 0 then gw entry else ntohl (ip_daddr packet))
                 in Inr (iface_send_packet_by_arp (rt_iface entry) next_hop packet s)))"

definition handle_ip_packet :: "iface_info \<Rightarrow> bytes \<Rightarrow> router \<Rightarrow> router res" where
  "handle_ip_packet iface packet s =
     (if length packet < ETHER_HDR_SIZE + IP_BASE_HDR_SIZE then Inl Out_Of_Bounds
      else let icmp = 14 + IP_HDR_SIZE packet
      in if ip_protocol packet = IPPROTO_ICMP
         then if length packet \<le> icmp then Inl Out_Of_Bounds
           else if packet ! icmp = ICMP_ECHOREQUEST \<and> ntohl (ip_daddr packet) = if_ip iface
             then if length packet \<le> icmp + 1 then Inl Out_Of_Bounds
               else icmp_send_packet packet ICMP_ECHOREPLY (packet ! (icmp + 1)) s
           else ip_forward_packet (ntohl (ip_daddr packet)) packet s
         else ip_forward_packet (ntohl (ip_daddr packet)) packet s)"

definition handle_packet :: "iface_info \<Rightarrow> bytes \<Rightarrow> router \<Rightarrow> router res" where
  "handle_packet iface packet s =
     (if length packet < ETHER_HDR_SIZE then Inl Out_Of_Bounds
      else if ntohs (ether_type packet) = ETH_P_IP then handle_ip_packet iface packet s
      else if ntohs (ether_type packet) = ETH_P_ARP then handle_arp_packet iface packet s
      else Inr s)"

section \<open>Headers: what the writers leave behind\<close>

definition ip_valid :: "bytes \<Rightarrow> bool" where
  "ip_valid p = (checksum5 (sub 14 (IP_HDR_SIZE p) p) 0 = 0)"

definition icmp_valid :: "nat \<Rightarrow> bytes \<Rightarrow> bool" where
  "icmp_valid len p = (checksum5 (sub 34 len p) 0 = 0)"

lemma checksum5_stored:
  assumes "j \<le> i" "even (i - j)" "i + 2 \<le> j + n" "j + n \<le> length p" "n \<le> 65535"
  shows "checksum5 (sub j n (put i (bytes16 (checksum5 (sub j n (put i [0, 0] p)) 0)) p)) 0 = 0"
  using assms checksum_stored [of "i - j" "sub j n p" 0]
  by (simp add: checksum5_checksum sub_put_inside)

lemma IP_HDR_SIZE_put [simp]:
  "14 < i \<Longrightarrow> i + length bs \<le> length p \<Longrightarrow> IP_HDR_SIZE (put i bs p) = IP_HDR_SIZE p"
  by (simp add: IP_HDR_SIZE_def ip_ihl_def nth_put_outside)

lemma IP_HDR_SIZE_le: "IP_HDR_SIZE p \<le> 60"
proof -
  have "unat (p ! 14) mod 16 \<le> 15" by simp
  then show ?thesis unfolding IP_HDR_SIZE_def ip_ihl_def by linarith
qed

lemma ip_checksum_stored:
  assumes "12 \<le> IP_HDR_SIZE p" "14 + IP_HDR_SIZE p \<le> length p"
  shows "ip_valid (put 24 (bytes16 (ip_checksum p)) p)"
  using checksum5_stored [of 14 24 "IP_HDR_SIZE p" p] assms IP_HDR_SIZE_le [of p]
  by (simp add: ip_valid_def ip_checksum_def)

lemma icmp_checksum_stored:
  assumes "4 \<le> n" "34 + n \<le> length p" "n \<le> 65535"
  shows "icmp_valid n (put 36 (bytes16 (icmp_checksum n p)) p)"
  using checksum5_stored [of 34 36 n p] assms
  by (simp add: icmp_valid_def icmp_checksum_def)

lemma ip_init_hdr_snd: "snd (ip_init_hdr p sa da len proto s) = s\<lparr>rnd_pos := Suc (rnd_pos s)\<rparr>"
  by (simp add: ip_init_hdr_def next_rand_def Let_def)

lemma ip_init_hdr_fields:
  fixes p :: bytes and s :: router and sa da :: u32 and len :: u16 and proto :: u8
  assumes "34 \<le> length p"
  defines "q \<equiv> fst (ip_init_hdr p sa da len proto s)"
  shows "length q = length p" "q ! 14 = 0x45"
    "ip_tot_len q = htons len" "ip_ttl q = DEFAULT_TTL" "ip_protocol q = proto"
    "ip_saddr q = htonl sa" "ip_daddr q = htonl da"
    "k < 14 \<Longrightarrow> q ! k = p ! k" "34 \<le> k \<Longrightarrow> k < length p \<Longrightarrow> q ! k = p ! k"
  using assms
  by (simp_all add: ip_init_hdr_def next_rand_def Let_def ip_tot_len_def ip_ttl_def
      ip_protocol_def ip_saddr_def ip_daddr_def buffer_simps)

lemma IP_HDR_SIZE_45: "p ! 14 = 0x45 \<Longrightarrow> IP_HDR_SIZE p = 20 \<and> ip_version p = 4 \<and> ip_ihl p = 5"
  by (simp add: IP_HDR_SIZE_def ip_ihl_def ip_version_def)

lemma ip_init_hdr_valid:
  assumes "34 \<le> length p"
  shows "ip_valid (fst (ip_init_hdr p sa da len proto s))"
proof -
  define q where "q = (let r = rnd s (rnd_pos s);
          p = put 14 [0x45] p;
          p = put 15 [0] p;
          p = put 16 (bytes16 (htons len)) p;
          p = put 18 (bytes16 (of_nat r)) p;
          p = put 20 (bytes16 (htons IP_DF)) p;
          p = put 22 [DEFAULT_TTL] p;
          p = put 23 [proto] p;
          p = put 26 (bytes32 (htonl sa)) p
      in put 30 (bytes32 (htonl da)) p)"
  have q: "fst (ip_init_hdr p sa da len proto s) = put 24 (bytes16 (ip_checksum q)) q"
    unfolding q_def ip_init_hdr_def next_rand_def Let_def prod.case fst_conv ..
  have "length q = length p" "q ! 14 = 0x45"
    using assms unfolding q_def Let_def by (simp_all add: buffer_simps)
  then show ?thesis
    unfolding q using assms IP_HDR_SIZE_45 [of q] by (intro ip_checksum_stored) simp_all
qed

section \<open>The ICMP message\<close>

text \<open>
  The input holds the bytes that the message copies. Frames are at most 1514 bytes long, and a
  reply to a frame with a short header is a little longer; 2000 bounds both.
\<close>

definition icmp_input_ok :: "bytes \<Rightarrow> u8 \<Rightarrow> bool" where
  "icmp_input_ok p type =
     (34 \<le> length p \<and> length p \<le> 2000 \<and>
      14 + IP_HDR_SIZE p + (if type = ICMP_ECHOREPLY then 4 else ICMP_COPIED_DATA_LEN) \<le> length p)"

definition icmp_size :: "bytes \<Rightarrow> u8 \<Rightarrow> nat" where
  "icmp_size p type =
     (if type = ICMP_ECHOREPLY then length p - 14 - IP_HDR_SIZE p else 16 + IP_HDR_SIZE p)"

lemma icmp_length_size: "icmp_input_ok p type \<Longrightarrow> icmp_length p type = int (icmp_size p type)"
  by (auto simp: icmp_length_def icmp_size_def icmp_input_ok_def)

lemma icmp_size_bounds: "icmp_input_ok p type \<Longrightarrow> 4 \<le> icmp_size p type \<and> icmp_size p type \<le> 2000"
  using IP_HDR_SIZE_le [of p] by (auto simp: icmp_size_def icmp_input_ok_def)

lemma icmp_body_echo:
  assumes "icmp_input_ok p ICMP_ECHOREPLY" "length q = 34 + icmp_size p ICMP_ECHOREPLY"
  defines "b \<equiv> icmp_body p (icmp_size p ICMP_ECHOREPLY) ICMP_ECHOREPLY q"
  shows "length b = length q" "k < 34 \<Longrightarrow> b ! k = q ! k" "b ! 34 = 0" "b ! 35 = 0"
    "38 \<le> k \<Longrightarrow> k < length q \<Longrightarrow> b ! k = p ! (14 + IP_HDR_SIZE p + (k - 34))"
proof -
  define n where "n = icmp_size p ICMP_ECHOREPLY"
  define d where "d = sub (14 + IP_HDR_SIZE p) n p"
  have n: "4 \<le> n" "14 + IP_HDR_SIZE p + n = length p"
    using assms(1) by (auto simp: n_def icmp_size_def icmp_input_ok_def)
  then have d: "length d = n" by (simp add: d_def)
  have dk: "d ! j = p ! (14 + IP_HDR_SIZE p + j)" if "j < n" for j
    using that n by (simp add: d_def)
  have q: "length q = 34 + n" using assms(2) by (simp add: n_def)
  have b: "b = put 34 [0, 0] (put 34 d q)" by (simp add: b_def icmp_body_def n_def d_def)
  show "length b = length q" "k < 34 \<Longrightarrow> b ! k = q ! k" "b ! 34 = 0" "b ! 35 = 0"
    using n d q by (simp_all add: b buffer_simps)
  show "38 \<le> k \<Longrightarrow> k < length q \<Longrightarrow> b ! k = p ! (14 + IP_HDR_SIZE p + (k - 34))"
    using n d q dk [of "k - 34"] by (simp add: b buffer_simps)
qed

lemma icmp_body_error:
  assumes "icmp_input_ok p type" "type \<noteq> ICMP_ECHOREPLY" "length q = 34 + icmp_size p type"
  defines "b \<equiv> icmp_body p (icmp_size p type) type q"
  shows "length b = length q" "k < 34 \<Longrightarrow> b ! k = q ! k"
    "b ! 34 = q ! 34" "b ! 35 = q ! 35" "sub 38 4 b = [0, 0, 0, 0]"
    "sub 42 (IP_HDR_SIZE p + 8) b = sub 14 (IP_HDR_SIZE p + 8) p"
  using assms
  by (simp_all add: icmp_body_def icmp_size_def icmp_input_ok_def buffer_simps)

lemma icmp_body_frame:
  assumes "icmp_input_ok p type" "length q = 34 + icmp_size p type"
  shows "length (icmp_body p (icmp_size p type) type q) = length q"
    "k < 34 \<Longrightarrow> icmp_body p (icmp_size p type) type q ! k = q ! k"
  using icmp_body_echo(1) [of p q] icmp_body_echo(2) [of p q k]
    icmp_body_error(1) [of p type q] icmp_body_error(2) [of p type q k] assms
  by (cases "type = ICMP_ECHOREPLY"; simp)+

lemma icmp_packet_snd: "snd (icmp_packet p type code e s) = s\<lparr>rnd_pos := Suc (rnd_pos s)\<rparr>"
  by (simp add: icmp_packet_def Let_def split_beta ip_init_hdr_snd)

text \<open>The stages of building the message: after the IP header, after the body.\<close>

lemma icmp_packet_stages:
  assumes "icmp_input_ok p type"
  obtains h b where
    "fst (icmp_packet p type code e s) =
       put 36 (bytes16 (icmp_checksum (icmp_size p type) b)) b"
    "b = icmp_body p (icmp_size p type) type (put 34 [type, code, 0, 0] h)"
    "length h = 34 + icmp_size p type" "ether_type h = htons ETH_P_IP" "h ! 14 = 0x45"
    "ip_tot_len h = htons (of_nat (20 + icmp_size p type))" "ip_protocol h = IPPROTO_ICMP"
    "ip_ttl h = DEFAULT_TTL"
    "ip_saddr h = htonl (if_ip (rt_iface e))" "ip_daddr h = ip_saddr p" "ip_valid h"
proof -
  define n where "n = icmp_size p type"
  define m where "m = put 12 (bytes16 (htons ETH_P_IP)) (put 0 (replicate ETHER_HDR_SIZE 0) (malloc (34 + n)))"
  define h where "h = fst (ip_init_hdr m (if_ip (rt_iface e)) (ntohl (ip_saddr p))
                     (of_nat (20 + n)) IPPROTO_ICMP s)"
  have m: "length m = 34 + n" "ld16 12 m = htons ETH_P_IP" by (simp_all add: m_def)
  note f = ip_init_hdr_fields [of m, folded h_def]
  have "fst (icmp_packet p type code e s) =
      put 36 (bytes16 (icmp_checksum n (icmp_body p n type (put 34 [type, code, 0, 0] h))))
        (icmp_body p n type (put 34 [type, code, 0, 0] h))"
    using icmp_length_size [OF assms]
    by (simp add: icmp_packet_def Let_def split_beta n_def m_def h_def)
  moreover have "ether_type h = htons ETH_P_IP"
    using f(8) [of 12] f(8) [of 13] m by (simp add: ether_type_def ld16_def h_def)
  ultimately show thesis
    using f m ip_init_hdr_valid [of m, folded h_def] that [of "icmp_body p n type (put 34 [type, code, 0, 0] h)" h]
    by (simp add: n_def h_def)
qed

text \<open>The header fields depend on the first 34 bytes only.\<close>

lemma header_cong:
  assumes "\<And>k. k < 34 \<Longrightarrow> r ! k = h ! k"
  shows "ether_type r = ether_type h" "IP_HDR_SIZE r = IP_HDR_SIZE h" "ip_tot_len r = ip_tot_len h"
    "ip_protocol r = ip_protocol h" "ip_ttl r = ip_ttl h" "ip_saddr r = ip_saddr h"
    "ip_daddr r = ip_daddr h"
  using assms
  by (simp_all add: ether_type_def IP_HDR_SIZE_def ip_ihl_def ip_tot_len_def ip_protocol_def
      ip_ttl_def ip_saddr_def ip_daddr_def ld32_def ld16_def)

lemma ip_valid_cong:
  assumes "\<And>k. k < 34 \<Longrightarrow> r ! k = h ! k" "length r = length h" "34 \<le> length h" "IP_HDR_SIZE h = 20"
  shows "ip_valid r = ip_valid h"
proof -
  have "IP_HDR_SIZE r = 20" using header_cong(2) [of r h] assms(1,4) by simp
  moreover have "sub 14 20 r = sub 14 20 h"
    using assms(1-3) by (intro nth_equalityI) simp_all
  ultimately show ?thesis using assms(4) by (simp add: ip_valid_def)
qed

text \<open>Every message: the headers and both checksums.\<close>

definition icmp_reply_ok :: "bytes \<Rightarrow> u8 \<Rightarrow> rt_entry \<Rightarrow> bytes \<Rightarrow> bool" where
  "icmp_reply_ok p type e r =
     (length r = 34 + icmp_size p type \<and> ether_type r = htons ETH_P_IP \<and> IP_HDR_SIZE r = 20 \<and>
      ip_tot_len r = htons (of_nat (20 + icmp_size p type)) \<and> ip_protocol r = IPPROTO_ICMP \<and>
      ip_ttl r = DEFAULT_TTL \<and>
      ip_saddr r = htonl (if_ip (rt_iface e)) \<and> ip_daddr r = ip_saddr p \<and>
      ip_valid r \<and> icmp_valid (icmp_size p type) r)"

lemma icmp_packet_ok:
  assumes "icmp_input_ok p type"
  shows "icmp_reply_ok p type e (fst (icmp_packet p type code e s))"
proof -
  obtain h b where
    r: "fst (icmp_packet p type code e s) = put 36 (bytes16 (icmp_checksum (icmp_size p type) b)) b"
    and b: "b = icmp_body p (icmp_size p type) type (put 34 [type, code, 0, 0] h)"
    and h: "length h = 34 + icmp_size p type" "ether_type h = htons ETH_P_IP" "h ! 14 = 0x45"
    "ip_tot_len h = htons (of_nat (20 + icmp_size p type))" "ip_protocol h = IPPROTO_ICMP"
    "ip_ttl h = DEFAULT_TTL"
    "ip_saddr h = htonl (if_ip (rt_iface e))" "ip_daddr h = ip_saddr p" "ip_valid h"
    by (rule icmp_packet_stages [OF assms])
  let ?r = "fst (icmp_packet p type code e s)"
  note n = icmp_size_bounds [OF assms]
  have lb: "length b = length h" and lr: "length ?r = length h"
    using icmp_body_frame(1) [OF assms, of "put 34 [type, code, 0, 0] h"] h(1) n b r by simp_all
  have k: "?r ! k = h ! k" if "k < 34" for k
    using that icmp_body_frame(2) [OF assms, of "put 34 [type, code, 0, 0] h" k] h(1) n b r lb
    by (simp add: buffer_simps)
  have "icmp_valid (icmp_size p type) ?r"
    unfolding r using n lb h(1) by (intro icmp_checksum_stored) simp_all
  moreover have "ip_valid ?r"
    using ip_valid_cong [of ?r h] k lr h IP_HDR_SIZE_45 [of h] by simp
  ultimately show ?thesis
    using header_cong [of ?r h, OF k] lr h IP_HDR_SIZE_45 [of h] by (simp add: icmp_reply_ok_def)
qed

lemma icmp_packet_echo:
  fixes code :: u8 and e :: rt_entry and s :: router
  assumes "icmp_input_ok p ICMP_ECHOREPLY"
  defines "r \<equiv> fst (icmp_packet p ICMP_ECHOREPLY code e s)"
  shows "r ! 34 = ICMP_ECHOREPLY" "r ! 35 = 0" "drop 38 r = drop (18 + IP_HDR_SIZE p) p"
proof -
  let ?t = ICMP_ECHOREPLY
  obtain h b where
    r: "r = put 36 (bytes16 (icmp_checksum (icmp_size p ?t) b)) b"
    and b: "b = icmp_body p (icmp_size p ?t) ?t (put 34 [?t, code, 0, 0] h)"
    and h: "length h = 34 + icmp_size p ?t"
    unfolding r_def by (rule icmp_packet_stages [OF assms(1)])
  note n = icmp_size_bounds [OF assms(1)]
  have q: "length (put 34 [?t, code, 0, 0] h) = 34 + icmp_size p ?t" using h n by simp
  note e = icmp_body_echo [OF assms(1) q, folded b]
  have lb: "length b = 34 + icmp_size p ?t" using e(1) q by simp
  show "r ! 34 = ?t" "r ! 35 = 0" using e lb n by (simp_all add: r buffer_simps)
  have lp: "length p = 14 + IP_HDR_SIZE p + icmp_size p ?t"
    using assms(1) by (simp add: icmp_input_ok_def icmp_size_def)
  show "drop 38 r = drop (18 + IP_HDR_SIZE p) p"
  proof (rule nth_equalityI)
    show "length (drop 38 r) = length (drop (18 + IP_HDR_SIZE p) p)"
      using lb n lp by (simp add: r)
  next
    fix k assume "k < length (drop 38 r)"
    then have "38 + k < length b" using lb n by (simp add: r)
    then show "drop 38 r ! k = drop (18 + IP_HDR_SIZE p) p ! k"
      using e(5) [of "38 + k"] q lb n lp by (simp add: r buffer_simps add.assoc)
  qed
qed

lemma icmp_packet_error:
  fixes code :: u8 and e :: rt_entry and s :: router
  assumes "icmp_input_ok p type" "type \<noteq> ICMP_ECHOREPLY"
  defines "r \<equiv> fst (icmp_packet p type code e s)"
  shows "r ! 34 = type" "r ! 35 = code" "sub 38 4 r = [0, 0, 0, 0]"
    "sub 42 (IP_HDR_SIZE p + 8) r = sub 14 (IP_HDR_SIZE p + 8) p"
proof -
  obtain h b where
    r: "r = put 36 (bytes16 (icmp_checksum (icmp_size p type) b)) b"
    and b: "b = icmp_body p (icmp_size p type) type (put 34 [type, code, 0, 0] h)"
    and h: "length h = 34 + icmp_size p type"
    unfolding r_def by (rule icmp_packet_stages [OF assms(1)])
  have n: "icmp_size p type = 16 + IP_HDR_SIZE p" using assms(2) by (simp add: icmp_size_def)
  have q: "length (put 34 [type, code, 0, 0] h) = 34 + icmp_size p type" using h n by simp
  note e = icmp_body_error [OF assms(1,2) q, folded b]
  have lb: "length b = 34 + icmp_size p type" using e(1) q by simp
  show "r ! 34 = type" "r ! 35 = code" "sub 38 4 r = [0, 0, 0, 0]"
    "sub 42 (IP_HDR_SIZE p + 8) r = sub 14 (IP_HDR_SIZE p + 8) p"
    using e lb n h by (simp_all add: r buffer_simps)
qed

lemma icmp_send_packet_eq:
  assumes "icmp_input_ok p type"
  shows "icmp_send_packet p type code s =
    (case longest_prefix_match (rtable s) (ntohl (ip_saddr p)) of
       None \<Rightarrow> Inr s
     | Some e \<Rightarrow> Inr (ip_send_packet (fst (icmp_packet p type code e s)) (s\<lparr>rnd_pos := Suc (rnd_pos s)\<rparr>)))"
proof -
  have "34 \<le> length p" "type = ICMP_ECHOREPLY \<or> 14 + IP_HDR_SIZE p + ICMP_COPIED_DATA_LEN \<le> length p"
    using assms by (auto simp: icmp_input_ok_def split: if_splits)
  then show ?thesis
    using icmp_size_bounds [OF assms] icmp_packet_snd [of p type code _ s]
    by (auto simp: icmp_send_packet_def icmp_length_size [OF assms] split_beta split: option.split)
qed

section \<open>Forwarding\<close>

definition next_hop :: "rt_entry \<Rightarrow> u32 \<Rightarrow> u32" where
  "next_hop e d = (if gw e \<noteq> 0 then gw e else d)"

text \<open>The packet that leaves \<^verbatim>\<open>ip_forward_packet\<close> when the time to live does not reach zero.\<close>

definition forwarded :: "bytes \<Rightarrow> bytes" where
  "forwarded p = (let p = p[22 := ip_ttl p - 1] in put 24 (bytes16 (ip_checksum p)) p)"

lemma IP_HDR_SIZE_upd [simp]: "k \<noteq> 14 \<Longrightarrow> IP_HDR_SIZE (p[k := x]) = IP_HDR_SIZE p"
  by (simp add: IP_HDR_SIZE_def ip_ihl_def)

lemma forwarded_fields:
  assumes "34 \<le> length p"
  shows "length (forwarded p) = length p" "ip_ttl (forwarded p) = ip_ttl p - 1"
    "k < length p \<Longrightarrow> k \<notin> {22, 24, 25} \<Longrightarrow> forwarded p ! k = p ! k"
    "ip_daddr (forwarded p) = ip_daddr p"
  using assms
  by (auto simp: forwarded_def ip_ttl_def ip_daddr_def ld32_def ld16_def Let_def nth_put)

lemma forwarded_valid:
  assumes "20 \<le> IP_HDR_SIZE p" "14 + IP_HDR_SIZE p \<le> length p"
  shows "ip_valid (forwarded p)"
  unfolding forwarded_def Let_def using assms by (intro ip_checksum_stored) simp_all

lemma ip_forward_packet_route:
  assumes "34 \<le> length p" "14 + IP_HDR_SIZE p \<le> length p" "ip_ttl p \<noteq> 1"
    "longest_prefix_match (rtable s) d = Some e"
  shows "ip_forward_packet d p s =
    Inr (iface_send_packet_by_arp (rt_iface e) (next_hop e (ntohl (ip_daddr p))) (forwarded p) s)"
proof -
  have "\<not> ip_ttl (p[22 := ip_ttl p - 1]) \<le> 0" using assms by (simp add: ip_ttl_def word_le_0_iff)
  then show ?thesis
    using assms forwarded_fields(4) [OF assms(1)]
    by (simp add: ip_forward_packet_def forwarded_def next_hop_def Let_def)
qed

lemma iface_send_by_arp_hit:
  assumes "14 \<le> length p" "length (if_mac i) = ETH_ALEN" "entries_inv s" "arpcache_lookup ip s = Some m"
  defines "f \<equiv> put 12 (bytes16 (htons ETH_P_IP)) (put 0 m (put 6 (if_mac i) p))"
  shows "iface_send_packet_by_arp i ip p s = iface_send_packet i f s" "length f = length p"
    "ether_dhost f = m" "ether_shost f = if_mac i" "ether_type f = htons ETH_P_IP"
    "14 \<le> k \<Longrightarrow> k < length p \<Longrightarrow> f ! k = p ! k"
proof -
  have m: "length m = 6"
    using assms(3,4) by (auto simp: arpcache_lookup_def entries_inv_def find_Some_iff)
  show "iface_send_packet_by_arp i ip p s = iface_send_packet i f s"
    using assms(4) by (simp add: iface_send_packet_by_arp_def f_def)
  show "length f = length p" "ether_dhost f = m" "ether_shost f = if_mac i" "ether_type f = htons ETH_P_IP"
    "14 \<le> k \<Longrightarrow> k < length p \<Longrightarrow> f ! k = p ! k"
    using assms(1,2) m
    by (simp_all add: f_def ether_dhost_def ether_shost_def ether_type_def buffer_simps)
qed

lemma ip_valid_payload_cong:
  assumes "\<And>k. 14 \<le> k \<Longrightarrow> k < length p \<Longrightarrow> f ! k = p ! k" "length f = length p" "14 < length p"
    "14 + IP_HDR_SIZE p \<le> length p"
  shows "ip_valid f = ip_valid p"
proof -
  have "IP_HDR_SIZE f = IP_HDR_SIZE p" using assms(1,3) by (simp add: IP_HDR_SIZE_def ip_ihl_def)
  moreover have "sub 14 (IP_HDR_SIZE p) f = sub 14 (IP_HDR_SIZE p) p"
    using assms by (intro nth_equalityI) simp_all
  ultimately show ?thesis by (simp add: ip_valid_def)
qed

lemma handle_packet_ip:
  "34 \<le> length p \<Longrightarrow> ether_type p = htons ETH_P_IP \<Longrightarrow> handle_packet i p s = handle_ip_packet i p s"
  by (simp add: handle_packet_def)

definition for_router :: "iface_info \<Rightarrow> bytes \<Rightarrow> bool" where
  "for_router i p =
     (ip_protocol p = IPPROTO_ICMP \<and> p ! (14 + IP_HDR_SIZE p) = ICMP_ECHOREQUEST \<and>
      ntohl (ip_daddr p) = if_ip i)"

lemma handle_ip_packet_transit:
  assumes "34 \<le> length p" "\<not> for_router i p" "ip_protocol p = IPPROTO_ICMP \<longrightarrow> 14 + IP_HDR_SIZE p < length p"
  shows "handle_ip_packet i p s = ip_forward_packet (ntohl (ip_daddr p)) p s"
  using assms by (auto simp: handle_ip_packet_def for_router_def Let_def)

section \<open>Properties of IP and ICMP\<close>

text \<open>
  \<^verbatim>\<open>ip_init_hdr\<close> writes a well-formed header: version 4, five words, the given length,
  protocol and addresses in network byte order, time to live 64, and a checksum that verifies.
  It touches no byte outside the header.
\<close>
theorem ip_init_hdr_correct:
  assumes "34 \<le> length p"
  shows "let q = fst (ip_init_hdr p saddr daddr len proto s)
    in ip_version q = 4 \<and> ip_ihl q = 5 \<and> ip_tot_len q = htons len \<and> ip_ttl q = 64 \<and>
       ip_protocol q = proto \<and> ip_saddr q = htonl saddr \<and> ip_daddr q = htonl daddr \<and>
       ip_valid q \<and> take 14 q = take 14 p \<and> drop 34 q = drop 34 p"
proof -
  let ?q = "fst (ip_init_hdr p saddr daddr len proto s)"
  note f = ip_init_hdr_fields [OF assms, where sa = saddr and da = daddr and len = len and proto = proto and s = s]
  have "take 14 ?q = take 14 p" using f assms by (intro nth_equalityI) simp_all
  moreover have "drop 34 ?q = drop 34 p" using f assms by (intro nth_equalityI) simp_all
  ultimately show ?thesis
    using f IP_HDR_SIZE_45 [OF f(2)] ip_init_hdr_valid [OF assms] by (simp add: Let_def)
qed

theorem ip_init_hdr_correct_witness:
  "ip_valid (fst (ip_init_hdr (replicate 40 7) 0x0a000101 0x0a000202 26 1 example_router))"
  using ip_init_hdr_correct [of "replicate 40 7" "0x0a000101" "0x0a000202" 26 1 example_router]
  by (simp add: Let_def)

text \<open>
  Property C20: Forwarding. A received IP packet that is not an echo request for the receiving
  interface and whose time to live is not 1 leaves, when there is a route and the next hop is
  resolved, on the interface of the longest matching route as one frame: source and destination
  hardware addresses are those of the interface and of the next hop, the time to live is one
  less, the header checksum verifies, and every other byte from the IP header on is unchanged.
\<close>
theorem transit_packet_forwarded:
  assumes "34 \<le> length p" "20 \<le> IP_HDR_SIZE p" "14 + IP_HDR_SIZE p \<le> length p"
    "ether_type p = htons ETH_P_IP" "ip_ttl p \<noteq> 1"
    "\<not> for_router i p" "ip_protocol p = IPPROTO_ICMP \<longrightarrow> 14 + IP_HDR_SIZE p < length p"
    "longest_prefix_match (rtable s) (ntohl (ip_daddr p)) = Some e"
    "arpcache_lookup (next_hop e (ntohl (ip_daddr p))) s = Some m"
    "entries_inv s" "length (if_mac (rt_iface e)) = ETH_ALEN"
  shows "\<exists>f. handle_packet i p s = Inr (iface_send_packet (rt_iface e) f s) \<and>
    ether_dhost f = m \<and> ether_shost f = if_mac (rt_iface e) \<and> ip_ttl f = ip_ttl p - 1 \<and>
    ip_valid f \<and> length f = length p \<and>
    (\<forall>k. 14 \<le> k \<and> k < length p \<and> k \<notin> {22, 24, 25} \<longrightarrow> f ! k = p ! k)"
proof -
  let ?q = "forwarded p"
  let ?f = "put 12 (bytes16 (htons ETH_P_IP)) (put 0 m (put 6 (if_mac (rt_iface e)) ?q))"
  note q = forwarded_fields [OF assms(1)]
  have "14 \<le> length ?q" using q(1) assms(1) by simp
  note f = iface_send_by_arp_hit [OF this assms(11,10,9)]
  have "handle_packet i p s =
      Inr (iface_send_packet_by_arp (rt_iface e) (next_hop e (ntohl (ip_daddr p))) ?q s)"
    using assms by (simp add: handle_packet_ip handle_ip_packet_transit ip_forward_packet_route)
  moreover have "ip_ttl ?f = ip_ttl p - 1"
    using f(6) [of 22] q assms(1) by (simp add: ip_ttl_def)
  moreover have "IP_HDR_SIZE ?q = IP_HDR_SIZE p"
    using q(3) [of 14] assms(1) by (simp add: IP_HDR_SIZE_def ip_ihl_def)
  then have "ip_valid ?f"
    using ip_valid_payload_cong [OF f(6,2)] forwarded_valid [OF assms(2,3)] q(1) assms(1,3) by simp
  moreover have "?f ! k = p ! k" if "14 \<le> k" "k < length p" "k \<notin> {22, 24, 25}" for k
    using f(6) [of k] q(1,3) that by simp
  ultimately show ?thesis using f(1-4) q(1) by (intro exI [of _ ?f]) simp
qed

text \<open>A concrete router with one interface, one route and one resolved neighbour.\<close>

definition example_iface :: iface_info where
  "example_iface = \<lparr>if_fd = 3, if_index = 1, if_mac = [2, 0, 0, 0, 0, 1], if_ip = 0x0a000101,
     if_mask = 0xffffff00, if_name = ''r1-eth0''\<rparr>"

definition example_route :: rt_entry where
  "example_route = new_rt_entry 0x0a000100 0xffffff00 0 example_iface"

definition example_packet :: "bytes \<Rightarrow> bytes \<Rightarrow> u8 \<Rightarrow> u8 \<Rightarrow> bytes \<Rightarrow> bytes" where
  "example_packet src dst ttl proto payload =
     [0, 0, 0, 0, 0, 0, 0, 0, 0, 0, 0, 0, 8, 0, 0x45, 0, 0, 40, 0, 0, 0x40, 0, ttl, proto, 0, 0]
     @ src @ dst @ payload"

definition example_state :: router where
  "example_state =
     arpcache_insert 0x0a000102 [2, 0, 0, 0, 0, 2] (example_router\<lparr>rtable := [example_route]\<rparr>)"

lemma lpm_single: "longest_prefix_match [e] d = (if rt_match d e then Some e else None)"
  by (simp add: longest_prefix_match_def count_mask_bits_card)

lemma example_route_simps [simp]:
  "rt_iface example_route = example_iface" "gw example_route = 0"
  "dest example_route = 0x0a000100" "mask example_route = 0xffffff00"
  by (simp_all add: example_route_def new_rt_entry_def)

lemma example_iface_simps [simp]:
  "if_mac example_iface = [2, 0, 0, 0, 0, 1]" "if_ip example_iface = 0x0a000101"
  by (simp_all add: example_iface_def)

lemma example_state_simps [simp]:
  "rtable example_state = [example_route]"
  "entries_inv example_state"
  "arpcache_lookup 0x0a000102 example_state = Some [2, 0, 0, 0, 0, 2]"
  "longest_prefix_match [example_route] 0x0a000102 = Some example_route"
  "longest_prefix_match [example_route] 0x0a000101 = Some example_route"
proof -
  let ?s = "example_router\<lparr>rtable := [example_route]\<rparr>"
  have s: "entries_inv ?s" "arpcache_lookup 0x0a000102 ?s = None"
    using example_router_simps(1,3) by (simp_all add: entries_inv_def arpcache_lookup_def)
  show "rtable example_state = [example_route]" "entries_inv example_state"
    using entries_inv_insert [OF s(1)] by (simp_all add: example_state_def)
  show "arpcache_lookup 0x0a000102 example_state = Some [2, 0, 0, 0, 0, 2]"
    using ac.lookup_same [OF s] by (simp add: example_state_def)
qed (simp_all add: lpm_single rt_match_def)

lemma example_packet_fields:
  fixes a b c d ttl proto :: u8 and w x y z :: u8 and payload :: bytes
  defines "p \<equiv> example_packet [a, b, c, d] [w, x, y, z] ttl proto payload"
  shows "length p = 34 + length payload" "IP_HDR_SIZE p = 20" "ether_type p = htons ETH_P_IP"
    "ip_ttl p = ttl" "ip_protocol p = proto" "p ! 34 = payload ! 0"
    "ntohl (ip_saddr p) = le32 (le16 d c) (le16 b a)" "ntohl (ip_daddr p) = le32 (le16 z y) (le16 x w)"
proof -
  have "le16 8 0 = htons 0x800" by (simp add: ntohs_def le16_def lo8_def hi8_def)
  then show "ether_type p = htons ETH_P_IP"
    by (simp add: p_def example_packet_def ether_type_def ld16_def)
qed (simp_all add: p_def example_packet_def IP_HDR_SIZE_def ip_ihl_def ip_ttl_def
      ip_protocol_def ip_saddr_def ip_daddr_def ld32_def ld16_def ntohl_def ntohs_def nth_append)

theorem transit_packet_forwarded_witness:
  "\<exists>f. handle_packet example_iface
       (example_packet [10, 0, 9, 9] [10, 0, 1, 2] 64 17 [5, 6, 7, 8]) example_state =
     Inr (iface_send_packet example_iface f example_state) \<and> ether_dhost f = [2, 0, 0, 0, 0, 2]"
proof -
  let ?p = "example_packet [10, 0, 9, 9] [10, 0, 1, 2] 64 17 [5, 6, 7, 8]"
  have "ntohl (ip_daddr ?p) = 0x0a000102"
    by (simp add: example_packet_fields le32_def le16_def)
  then show ?thesis
    using transit_packet_forwarded [of ?p example_iface example_state example_route "[2, 0, 0, 0, 0, 2]"]
    by (auto simp: next_hop_def for_router_def example_packet_fields)
qed

text \<open>
  Property C31: Expired packets. \<^verbatim>\<open>ip_forward_packet\<close> does not return after it has reported and freed
  a packet whose time to live was 1: it goes on to use the freed packet. A packet that arrives
  with time to live 0 is not dropped: the decrement wraps and it is forwarded with 255.
\<close>
theorem expired_ttl_mishandled:
  assumes "icmp_input_ok p ICMP_TIME_EXCEEDED"
  shows "(ip_ttl p = 1 \<longrightarrow> ip_forward_packet d p s = Inl Use_After_Free) \<and>
    (ip_ttl p = 0 \<and> longest_prefix_match (rtable s) d = Some e \<longrightarrow>
      (\<exists>q. ip_ttl q = 255 \<and> drop 26 q = drop 26 p \<and> ip_forward_packet d p s =
        Inr (iface_send_packet_by_arp (rt_iface e) (next_hop e (ntohl (ip_daddr p))) q s)))"
proof (intro conjI impI)
  assume ttl: "ip_ttl p = 1"
  have p: "34 \<le> length p" using assms by (simp add: icmp_input_ok_def)
  have "icmp_input_ok (p[22 := 0]) ICMP_TIME_EXCEEDED" using assms by (simp add: icmp_input_ok_def)
  then have "\<exists>t. icmp_send_packet (p[22 := 0]) ICMP_TIME_EXCEEDED ICMP_EXC_TTL s = Inr t"
    by (simp add: icmp_send_packet_eq split: option.split)
  moreover have "ip_ttl (p[22 := 0]) = 0" using p by (simp add: ip_ttl_def)
  ultimately show "ip_forward_packet d p s = Inl Use_After_Free"
    using ttl by (auto simp: ip_forward_packet_def Let_def)
next
  assume ttl: "ip_ttl p = 0 \<and> longest_prefix_match (rtable s) d = Some e"
  have p: "34 \<le> length p" "14 + IP_HDR_SIZE p \<le> length p"
    using assms by (auto simp: icmp_input_ok_def)
  note f = forwarded_fields [OF p(1)]
  have "drop 26 (forwarded p) = drop 26 p" using f by (intro nth_equalityI) auto
  then show "\<exists>q. ip_ttl q = 255 \<and> drop 26 q = drop 26 p \<and> ip_forward_packet d p s =
        Inr (iface_send_packet_by_arp (rt_iface e) (next_hop e (ntohl (ip_daddr p))) q s)"
    using f(2) ttl ip_forward_packet_route [OF p, of s d e] by (intro exI [of _ "forwarded p"]) simp
qed

theorem expired_ttl_mishandled_witness:
  "ip_forward_packet 0x0a000102 (example_packet [10, 0, 9, 9] [10, 0, 1, 2] 1 17 (replicate 8 0))
     example_state = Inl Use_After_Free"
  using expired_ttl_mishandled [of "example_packet [10, 0, 9, 9] [10, 0, 1, 2] 1 17 (replicate 8 0)"]
  by (simp add: icmp_input_ok_def example_packet_fields)

text \<open>
  Property C30: Ping. An echo request for the receiving interface is answered, when there is a route
  back, by one packet handed to \<^verbatim>\<open>ip_send_packet\<close>: type and code 0, identifier, sequence number
  and data those of the request, addressed to the sender from the interface of the route, and
  with IP and ICMP checksums that verify. Nothing else of the state changes before the send.
\<close>
theorem echo_request_answered:
  assumes "ether_type p = htons ETH_P_IP" "icmp_input_ok p ICMP_ECHOREPLY" "for_router i p"
    "longest_prefix_match (rtable s) (ntohl (ip_saddr p)) = Some e"
  shows "\<exists>r. handle_packet i p s = Inr (ip_send_packet r (s\<lparr>rnd_pos := Suc (rnd_pos s)\<rparr>)) \<and>
    icmp_reply_ok p ICMP_ECHOREPLY e r \<and> r ! 34 = ICMP_ECHOREPLY \<and> r ! 35 = 0 \<and>
    drop 38 r = drop (18 + IP_HDR_SIZE p) p"
proof -
  let ?code = "p ! (14 + IP_HDR_SIZE p + 1)"
  let ?r = "fst (icmp_packet p ICMP_ECHOREPLY ?code e s)"
  have "34 \<le> length p" "14 + IP_HDR_SIZE p + 4 \<le> length p"
    using assms(2) by (auto simp: icmp_input_ok_def)
  then have "handle_packet i p s = icmp_send_packet p ICMP_ECHOREPLY ?code s"
    using assms(1,3) by (simp add: handle_packet_ip handle_ip_packet_def for_router_def Let_def)
  then show ?thesis
    using icmp_send_packet_eq [OF assms(2)] assms(4) icmp_packet_ok [OF assms(2)]
      icmp_packet_echo [OF assms(2)]
    by (intro exI [of _ ?r]) simp
qed

theorem echo_request_answered_witness:
  "\<exists>r. handle_packet example_iface
       (example_packet [10, 0, 1, 2] [10, 0, 1, 1] 64 1 [8, 0, 0, 0, 1, 2, 3, 4, 9]) example_state =
     Inr (ip_send_packet r (example_state\<lparr>rnd_pos := Suc (rnd_pos example_state)\<rparr>)) \<and> ip_valid r"
proof -
  let ?p = "example_packet [10, 0, 1, 2] [10, 0, 1, 1] 64 1 [8, 0, 0, 0, 1, 2, 3, 4, 9]"
  have "ntohl (ip_saddr ?p) = 0x0a000102" "ntohl (ip_daddr ?p) = 0x0a000101"
    by (simp_all add: example_packet_fields le32_def le16_def)
  then show ?thesis
    using echo_request_answered [of ?p example_iface example_state example_route]
    by (auto simp: icmp_input_ok_def for_router_def icmp_reply_ok_def example_packet_fields)
qed

text \<open>
  Error reports. For a type other than echo reply, \<^verbatim>\<open>icmp_send_packet\<close> sends, when there is
  a route back to the sender, a packet of the given type and code that quotes the IP header and
  the first 8 bytes of the payload of the packet it reports, with identifier and sequence 0
  and both checksums valid; without a route it sends nothing. A packet too short for the quote
  makes the code read outside its buffer.
\<close>
theorem icmp_error_quotes_packet:
  assumes "type \<noteq> ICMP_ECHOREPLY" "34 \<le> length p" "length p \<le> 1514"
    "longest_prefix_match (rtable s) (ntohl (ip_saddr p)) = Some e"
  shows "if 22 + IP_HDR_SIZE p \<le> length p
    then \<exists>r. icmp_send_packet p type code s = Inr (ip_send_packet r (s\<lparr>rnd_pos := Suc (rnd_pos s)\<rparr>)) \<and>
      icmp_reply_ok p type e r \<and> r ! 34 = type \<and> r ! 35 = code \<and> sub 38 4 r = [0, 0, 0, 0] \<and>
      sub 42 (IP_HDR_SIZE p + 8) r = sub 14 (IP_HDR_SIZE p + 8) p
    else icmp_send_packet p type code s = Inl Out_Of_Bounds"
proof (cases "22 + IP_HDR_SIZE p \<le> length p")
  case True
  then have ok: "icmp_input_ok p type" using assms by (simp add: icmp_input_ok_def)
  show ?thesis
    using icmp_send_packet_eq [OF ok] assms(1,4) icmp_packet_ok [OF ok] icmp_packet_error [OF ok] True
    by (auto intro!: exI [of _ "fst (icmp_packet p type code e s)"])
next
  case False
  then show ?thesis using assms by (simp add: icmp_send_packet_def icmp_length_def)
qed

theorem icmp_error_quotes_packet_witness:
  "icmp_send_packet (example_packet [10, 0, 1, 2] [10, 0, 9, 9] 64 17 [1, 2, 3, 4])
     ICMP_DEST_UNREACH ICMP_NET_UNREACH example_state = Inl Out_Of_Bounds"
proof -
  let ?p = "example_packet [10, 0, 1, 2] [10, 0, 9, 9] 64 17 [1, 2, 3, 4]"
  have "ntohl (ip_saddr ?p) = 0x0a000102"
    by (simp add: example_packet_fields le32_def le16_def)
  then show ?thesis
    using icmp_error_quotes_packet [of ICMP_DEST_UNREACH ?p example_state example_route ICMP_NET_UNREACH]
    by (auto simp: example_packet_fields)
qed

end
