(* ===== verification/Arp_Sweep.thy ===== *)
theory Arp_Sweep
  imports Ip_Router
begin

text \<open>
  The sweep thread of the ARP cache (\<^verbatim>\<open>arpcache_sweep\<close> in \<^verbatim>\<open>code-exp5/arpcache.c\<close>), the steps of the
  whole router and its invariant. One pass of the sweep is one transition; the two loops inside
  it run over lists that the pass itself extends, may run for ever and are partial functions:
  \<open>None\<close> is a loop that does not end.
\<close>

section \<open>The sweep\<close>

definition sweep_entries :: "int \<Rightarrow> arp_cache_entry list \<Rightarrow> arp_cache_entry list" where
  "sweep_entries now es =
     map (\<lambda>e. if valid e \<and> now - added e > 15 then e\<lparr>valid := False\<rparr> else e) es"

definition set_packets :: "nat \<Rightarrow> bytes list \<Rightarrow> router \<Rightarrow> router" where
  "set_packets i ps s =
     s\<lparr>req_list := (req_list s)[i := (req_list s ! i)\<lparr>cached_packets := ps\<rparr>]\<rparr>"

text \<open>
  The packets of request \<open>i\<close>. The loop fetches the next packet before the current one is
  removed and reported, so it ends after the packet that was last when it was reached, and goes
  on with packets that the ICMP error put at the end of this very queue.
\<close>

partial_function (option) sweep_pkts :: "nat \<Rightarrow> router \<Rightarrow> router res option" where
  "sweep_pkts i s =
     (case cached_packets (req_list s ! i) of
        [] \<Rightarrow> Some (Inr s)
      | p # ps \<Rightarrow>
          (case icmp_send_packet p ICMP_DEST_UNREACH ICMP_HOST_UNREACH (set_packets i ps s) of
             Inl e \<Rightarrow> Some (Inl e)
           | Inr s' \<Rightarrow> if ps = [] then Some (Inr s') else sweep_pkts i s'))"

definition delete_req :: "nat \<Rightarrow> router \<Rightarrow> router" where
  "delete_req i s = s\<lparr>req_list := take i (req_list s) @ drop (Suc i) (req_list s)\<rparr>"

definition retry_req :: "int \<Rightarrow> nat \<Rightarrow> router \<Rightarrow> router" where
  "retry_req now i s =
     (let r = req_list s ! i;
          s = arp_send_request (req_iface r) (req_ip4 r) s
      in s\<lparr>req_list := (req_list s)[i := r\<lparr>sent := now, retries := retries r + 1\<rparr>]\<rparr>)"

text \<open>The requests from position \<open>i\<close> on; a deleted request shifts the rest by one.\<close>

partial_function (option) sweep_reqs :: "int \<Rightarrow> nat \<Rightarrow> router \<Rightarrow> router res option" where
  "sweep_reqs now i s =
     (if i \<ge> length (req_list s) then Some (Inr s)
      else let r = req_list s ! i; is_last = (Suc i = length (req_list s))
      in if now - sent r \<ge> 1
         then if retries r < ARP_REQUEST_MAX_RETRIES
           then if is_last then Some (Inr (retry_req now i s))
                else sweep_reqs now (Suc i) (retry_req now i s)
           else Option.bind (sweep_pkts i s) (\<lambda>m. case m of
                  Inl e \<Rightarrow> Some (Inl e)
                | Inr s' \<Rightarrow> if is_last then Some (Inr (delete_req i s'))
                            else sweep_reqs now i (delete_req i s'))
         else if is_last then Some (Inr s) else sweep_reqs now (Suc i) s)"

definition arpcache_sweep :: "router \<Rightarrow> router res option" where
  "arpcache_sweep s =
     (let now = clock s
      in sweep_reqs now 0 (s\<lparr>entries := sweep_entries now (entries s)\<rparr>))"

section \<open>What an ICMP error does to the pending requests\<close>

definition own_ips :: "rt_entry list \<Rightarrow> u32 set" where
  "own_ips rt = (\<lambda>e. if_ip (rt_iface e)) ` set rt"

text \<open>Where a packet to address \<open>a\<close> waits when the next hop is not resolved.\<close>

definition target :: "rt_entry list \<Rightarrow> u32 \<Rightarrow> (iface_info \<times> u32) option" where
  "target rt a = map_option (\<lambda>e. (rt_iface e, next_hop e a)) (longest_prefix_match rt a)"

definition req_key :: "arp_req \<Rightarrow> iface_info \<times> u32" where
  "req_key r = (req_iface r, req_ip4 r)"

definition pkt_source :: "bytes \<Rightarrow> u32" where
  "pkt_source p = ntohl (ip_saddr p)"

definition pkt_ok :: "bytes \<Rightarrow> bool" where
  "pkt_ok p = icmp_input_ok p ICMP_DEST_UNREACH"

text \<open>The ICMP errors of this router.\<close>

definition own_pkts :: "rt_entry list \<Rightarrow> bytes set" where
  "own_pkts rt = {p. pkt_ok p \<and> pkt_source p \<in> own_ips rt}"

definition add_pending :: "iface_info \<Rightarrow> u32 \<Rightarrow> bytes \<Rightarrow> int \<Rightarrow> arp_req list \<Rightarrow> arp_req list" where
  "add_pending iface ip p now rs =
     (case append_to_req iface ip p rs of
        Some rs' \<Rightarrow> rs'
      | None \<Rightarrow> rs @ [\<lparr>req_iface = iface, req_ip4 = ip, sent = now, retries = 1, cached_packets = [p]\<rparr>])"

lemma iface_send_by_arp_frame:
  "rtable (iface_send_packet_by_arp i ip p s) = rtable s"
  "entries (iface_send_packet_by_arp i ip p s) = entries s"
  "clock (iface_send_packet_by_arp i ip p s) = clock s"
  "req_list (iface_send_packet_by_arp i ip p s) =
     (if arpcache_lookup ip s = None then add_pending i ip (put 6 (if_mac i) p) (clock s) (req_list s)
      else req_list s)"
  by (auto simp: iface_send_packet_by_arp_def arpcache_append_packet_def add_pending_def Let_def
      split: option.split)

lemma arpcache_lookup_rnd [simp]: "arpcache_lookup ip (s\<lparr>rnd_pos := n\<rparr>) = arpcache_lookup ip s"
  by (simp add: arpcache_lookup_def)

definition macs_ok :: "rt_entry list \<Rightarrow> bool" where
  "macs_ok rt = (\<forall>e\<in>set rt. length (if_mac (rt_iface e)) = ETH_ALEN)"

lemma icmp_error_own:
  assumes "icmp_reply_ok p ICMP_DEST_UNREACH e r" "length (if_mac i) = ETH_ALEN"
  shows "pkt_ok (put 6 (if_mac i) r)" "pkt_source (put 6 (if_mac i) r) = if_ip (rt_iface e)"
proof -
  have r: "length r = 50 + IP_HDR_SIZE p" "IP_HDR_SIZE r = 20" "ip_saddr r = htonl (if_ip (rt_iface e))"
    using assms(1) by (simp_all add: icmp_reply_ok_def icmp_size_def)
  then have "ip_saddr (put 6 (if_mac i) r) = ip_saddr r" "IP_HDR_SIZE (put 6 (if_mac i) r) = 20"
    using assms(2) by (simp_all add: ip_saddr_def IP_HDR_SIZE_def ip_ihl_def buffer_simps)
  then show "pkt_ok (put 6 (if_mac i) r)" "pkt_source (put 6 (if_mac i) r) = if_ip (rt_iface e)"
    using r assms(2) IP_HDR_SIZE_le [of p]
    by (simp_all add: pkt_ok_def icmp_input_ok_def pkt_source_def)
qed

text \<open>The error is sent or joins the queue of its target; nothing else changes.\<close>

lemma icmp_error_route:
  assumes "pkt_ok p" "macs_ok (rtable s)" "longest_prefix_match (rtable s) (pkt_source p) = Some e"
  shows "\<exists>t q. icmp_send_packet p ICMP_DEST_UNREACH code s = Inr t \<and> rtable t = rtable s \<and>
    entries t = entries s \<and> clock t = clock s \<and> pkt_ok q \<and> pkt_source q = if_ip (rt_iface e) \<and>
    req_list t = (if arpcache_lookup (next_hop e (pkt_source p)) s = None
      then add_pending (rt_iface e) (next_hop e (pkt_source p)) q (clock s) (req_list s)
      else req_list s)"
proof -
  have ok: "icmp_input_ok p ICMP_DEST_UNREACH" using assms(1) by (simp add: pkt_ok_def)
  let ?r = "fst (icmp_packet p ICMP_DEST_UNREACH code e s)"
  let ?s = "s\<lparr>rnd_pos := Suc (rnd_pos s)\<rparr>"
  let ?t = "iface_send_packet_by_arp (rt_iface e) (next_hop e (pkt_source p)) ?r ?s"
  note r = icmp_packet_ok [OF ok, of e code s]
  have "ip_daddr ?r = ip_saddr p" using r by (simp add: icmp_reply_ok_def)
  then have "ip_send_packet ?r ?s = ?t"
    using assms(3) by (simp add: ip_send_packet_def next_hop_def pkt_source_def)
  then have "icmp_send_packet p ICMP_DEST_UNREACH code s = Inr ?t"
    using assms(3) icmp_send_packet_eq [OF ok, of code s] by (simp add: pkt_source_def)
  moreover have "length (if_mac (rt_iface e)) = ETH_ALEN"
    using lpm_in_table [OF assms(3)] assms(2) by (simp add: macs_ok_def)
  ultimately show ?thesis
    using icmp_error_own [OF r, of "rt_iface e"]
    by (intro exI [of _ ?t] exI [of _ "put 6 (if_mac (rt_iface e)) ?r"]) (simp add: iface_send_by_arp_frame)
qed

lemma icmp_error_effect:
  assumes "pkt_ok p" "macs_ok (rtable s)"
  shows "\<exists>t. icmp_send_packet p ICMP_DEST_UNREACH code s = Inr t \<and> rtable t = rtable s \<and>
    entries t = entries s \<and> clock t = clock s \<and>
    (req_list t = req_list s \<or>
     (\<exists>i ip q. target (rtable s) (pkt_source p) = Some (i, ip) \<and> q \<in> own_pkts (rtable s) \<and>
        req_list t = add_pending i ip q (clock s) (req_list s)))"
proof (cases "longest_prefix_match (rtable s) (pkt_source p)")
  case None
  have "icmp_input_ok p ICMP_DEST_UNREACH" using assms(1) by (simp add: pkt_ok_def)
  then show ?thesis using None icmp_send_packet_eq [of p _ code s] by (simp add: pkt_source_def)
next
  case (Some e)
  obtain t q where t: "icmp_send_packet p ICMP_DEST_UNREACH code s = Inr t" "rtable t = rtable s"
    "entries t = entries s" "clock t = clock s" "pkt_ok q" "pkt_source q = if_ip (rt_iface e)"
    "req_list t = (if arpcache_lookup (next_hop e (pkt_source p)) s = None
      then add_pending (rt_iface e) (next_hop e (pkt_source p)) q (clock s) (req_list s)
      else req_list s)"
    using icmp_error_route [OF assms Some] by blast
  have "q \<in> own_pkts (rtable s)"
    using t(5,6) lpm_in_table [OF Some] by (auto simp: own_pkts_def own_ips_def)
  moreover have "target (rtable s) (pkt_source p) = Some (rt_iface e, next_hop e (pkt_source p))"
    using Some by (simp add: target_def)
  ultimately show ?thesis using t by auto
qed

section \<open>Growth of the pending requests\<close>

definition req_ext :: "bytes set \<Rightarrow> arp_req \<Rightarrow> arp_req \<Rightarrow> bool" where
  "req_ext own r r' =
     (req_key r' = req_key r \<and> sent r' = sent r \<and> retries r' = retries r \<and>
      set (cached_packets r') \<subseteq> set (cached_packets r) \<union> own)"

definition new_req_ok :: "bytes set \<Rightarrow> int \<Rightarrow> arp_req \<Rightarrow> bool" where
  "new_req_ok own now r = (sent r = now \<and> retries r = 1 \<and> set (cached_packets r) \<subseteq> own)"

definition grows :: "router \<Rightarrow> router \<Rightarrow> bool" where
  "grows s t =
     (rtable t = rtable s \<and> entries t = entries s \<and> clock t = clock s \<and>
      (\<exists>rs news. req_list t = rs @ news \<and> list_all2 (req_ext (own_pkts (rtable s))) (req_list s) rs \<and>
         (\<forall>r\<in>set news. new_req_ok (own_pkts (rtable s)) (clock s) r)))"

lemma req_ext_refl [simp]: "req_ext own r r"
  by (auto simp: req_ext_def)

lemma req_ext_trans: "req_ext own a b \<Longrightarrow> req_ext own b c \<Longrightarrow> req_ext own a c"
  by (auto simp: req_ext_def)

lemma new_req_ext: "new_req_ok own now r \<Longrightarrow> req_ext own r r' \<Longrightarrow> new_req_ok own now r'"
  by (auto simp: new_req_ok_def req_ext_def)

lemma grows_refl [simp]: "grows s s"
  unfolding grows_def
  by (intro conjI exI [of _ "req_list s"] exI [of _ "[]"]) (auto intro: list_all2_refl)

lemma grows_trans:
  assumes "grows s t" "grows t u"
  shows "grows s u"
proof -
  let ?O = "own_pkts (rtable s)"
  obtain rs news where 1: "req_list t = rs @ news" "list_all2 (req_ext ?O) (req_list s) rs"
    "\<forall>r\<in>set news. new_req_ok ?O (clock s) r" using assms(1) by (auto simp: grows_def)
  obtain rs' news' where 2: "req_list u = rs' @ news'" "list_all2 (req_ext ?O) (rs @ news) rs'"
    "\<forall>r\<in>set news'. new_req_ok ?O (clock s) r" using assms 1(1) by (auto simp: grows_def)
  obtain as bs where ab: "rs' = as @ bs" "list_all2 (req_ext ?O) rs as" "list_all2 (req_ext ?O) news bs"
    using 2(2) by (auto simp: list_all2_append1)
  have "list_all2 (req_ext ?O) (req_list s) as"
    by (rule list_all2_trans [OF req_ext_trans 1(2) ab(2)])
  moreover have "\<forall>r\<in>set bs. new_req_ok ?O (clock s) r"
    using ab(3) 1(3) by (metis list_all2_conv_all_nth in_set_conv_nth new_req_ext)
  ultimately show ?thesis
    using assms 2 ab(1) unfolding grows_def
    by (intro conjI exI [of _ as] exI [of _ "bs @ news'"]) auto
qed

lemma add_pending_grows:
  assumes "q \<in> own"
  obtains rs news where "add_pending i ip q now xs = rs @ news" "list_all2 (req_ext own) xs rs"
    "\<forall>r\<in>set news. new_req_ok own now r"
proof (cases "append_to_req i ip q xs")
  case None
  then show thesis
    using assms by (intro that [of xs]) (auto simp: add_pending_def new_req_ok_def intro: list_all2_refl)
next
  case (Some rs)
  then obtain as r bs where "xs = as @ r # bs" "rs = as @ r\<lparr>cached_packets := cached_packets r @ [q]\<rparr> # bs"
    by (rule append_to_req_Some)
  then show thesis
    using assms Some by (intro that [of rs "[]"])
      (auto simp: add_pending_def req_ext_def req_key_def intro!: list_all2_appendI list_all2_refl)
qed

lemma grows_frame:
  assumes "rtable t = rtable s" "entries t = entries s" "clock t = clock s"
    "req_list t = req_list s \<or>
     (\<exists>i ip q. q \<in> own_pkts (rtable s) \<and> req_list t = add_pending i ip q (clock s) (req_list s))"
  shows "grows s t"
  using assms(4)
proof (elim disjE exE conjE)
  assume "req_list t = req_list s"
  then show ?thesis
    using assms(1-3) unfolding grows_def
    by (intro conjI exI [of _ "req_list s"] exI [of _ "[]"]) (auto intro: list_all2_refl)
next
  fix i ip q assume "q \<in> own_pkts (rtable s)" "req_list t = add_pending i ip q (clock s) (req_list s)"
  then obtain rs news where "req_list t = rs @ news"
    "list_all2 (req_ext (own_pkts (rtable s))) (req_list s) rs"
    "\<forall>r\<in>set news. new_req_ok (own_pkts (rtable s)) (clock s) r"
    using add_pending_grows by metis
  then show ?thesis using assms(1-3) unfolding grows_def by blast
qed

lemma icmp_error_grows:
  assumes "pkt_ok p" "macs_ok (rtable s)"
  shows "\<exists>t. icmp_send_packet p ICMP_DEST_UNREACH code s = Inr t \<and> grows s t \<and>
    (\<forall>j < length (req_list s). target (rtable s) (pkt_source p) \<noteq> Some (req_key (req_list s ! j)) \<longrightarrow>
       req_list t ! j = req_list s ! j)"
proof -
  obtain t where t: "icmp_send_packet p ICMP_DEST_UNREACH code s = Inr t" "rtable t = rtable s"
    "entries t = entries s" "clock t = clock s" and
    q: "req_list t = req_list s \<or>
     (\<exists>i ip q. target (rtable s) (pkt_source p) = Some (i, ip) \<and> q \<in> own_pkts (rtable s) \<and>
        req_list t = add_pending i ip q (clock s) (req_list s))"
    using icmp_error_effect [OF assms] by blast
  have "req_list t ! j = req_list s ! j"
    if j: "j < length (req_list s)" "target (rtable s) (pkt_source p) \<noteq> Some (req_key (req_list s ! j))" for j
    using q
  proof (elim disjE exE conjE)
    fix i ip q assume *: "target (rtable s) (pkt_source p) = Some (i, ip)"
      "req_list t = add_pending i ip q (clock s) (req_list s)"
    show ?thesis
    proof (cases "append_to_req i ip q (req_list s)")
      case None
      then show ?thesis using * j(1) by (simp add: add_pending_def nth_append)
    next
      case (Some rs)
      then obtain as r bs where a: "req_list s = as @ r # bs"
        "rs = as @ r\<lparr>cached_packets := cached_packets r @ [q]\<rparr> # bs" "req_key r = (i, ip)"
        by (rule append_to_req_Some) (auto simp: req_key_def)
      then have "j \<noteq> length as" using *(1) j by auto
      then show ?thesis using * Some a j(1) by (auto simp: add_pending_def nth_append nth_Cons')
    qed
  qed simp
  moreover have "grows s t" using t q by (intro grows_frame) auto
  ultimately show ?thesis using t(1) by blast
qed

lemma set_packets_grows:
  assumes "i < length (req_list s)" "set ps \<subseteq> set (cached_packets (req_list s ! i))"
  shows "grows s (set_packets i ps s)"
proof -
  have "list_all2 (req_ext own) (req_list s) (req_list (set_packets i ps s))" for own
    using assms by (auto simp: set_packets_def list_all2_conv_all_nth nth_list_update req_ext_def req_key_def)
  then show ?thesis unfolding grows_def
    by (intro conjI exI [of _ "req_list (set_packets i ps s)"] exI [of _ "[]"]) (simp_all add: set_packets_def)
qed

section \<open>The packets of an exhausted request\<close>

text \<open>The loop ends when no error goes back into the queue it came from.\<close>

lemma sweep_pkts_ends:
  assumes "macs_ok (rtable s)" "i < length (req_list s)" "cached_packets (req_list s ! i) = ps"
    "\<forall>p\<in>set ps. pkt_ok p \<and> target (rtable s) (pkt_source p) \<noteq> Some (req_key (req_list s ! i))"
  shows "\<exists>t. sweep_pkts i s = Some (Inr t) \<and> grows s t"
  using assms
proof (induction ps arbitrary: s)
  case Nil
  then show ?case by (subst sweep_pkts.simps) simp
next
  case (Cons p ps)
  let ?s = "set_packets i ps s"
  have s: "rtable ?s = rtable s" "req_list ?s ! i = (req_list s ! i)\<lparr>cached_packets := ps\<rparr>"
    "length (req_list ?s) = length (req_list s)"
    using Cons.prems(2) by (simp_all add: set_packets_def)
  have g: "grows s ?s" using Cons.prems(2,3) by (intro set_packets_grows) auto
  obtain t where t: "icmp_send_packet p ICMP_DEST_UNREACH ICMP_HOST_UNREACH ?s = Inr t" "grows ?s t"
    and same: "\<forall>j < length (req_list ?s). target (rtable ?s) (pkt_source p) \<noteq> Some (req_key (req_list ?s ! j)) \<longrightarrow>
       req_list t ! j = req_list ?s ! j"
    using icmp_error_grows [of p ?s ICMP_HOST_UNREACH] Cons.prems s by auto
  have i: "req_list t ! i = (req_list s ! i)\<lparr>cached_packets := ps\<rparr>"
    using same s Cons.prems(2,4) by (simp add: req_key_def)
  have gt: "grows s t" using grows_trans [OF g t(2)] .
  then have t': "rtable t = rtable s" "i < length (req_list t)"
    using Cons.prems(2) by (auto simp: grows_def dest: list_all2_lengthD)
  have step: "sweep_pkts i s = (if ps = [] then Some (Inr t) else sweep_pkts i t)"
    using Cons.prems(3) t(1) by (subst sweep_pkts.simps) simp
  show ?case
  proof (cases "ps = []")
    case True
    then show ?thesis using step gt by simp
  next
    case False
    obtain u where "sweep_pkts i t = Some (Inr u)" "grows t u"
      using Cons.IH [of t] Cons.prems t' i by (auto simp: req_key_def)
    then show ?thesis using step False grows_trans [OF gt] by simp
  qed
qed

section \<open>The pass over the requests\<close>

definition due :: "int \<Rightarrow> arp_req \<Rightarrow> bool" where
  "due now r = (now - sent r \<ge> 1)"

definition exhausted :: "int \<Rightarrow> arp_req \<Rightarrow> bool" where
  "exhausted now r = (due now r \<and> retries r \<ge> ARP_REQUEST_MAX_RETRIES)"

text \<open>
  Errors leave the queue they come from: neither the sources of the packets of an exhausted
  request nor the router's own addresses are reached through the next hop it waits for.
\<close>

definition errors_leave :: "rt_entry list \<Rightarrow> int \<Rightarrow> arp_req \<Rightarrow> bool" where
  "errors_leave rt now r =
     (exhausted now r \<longrightarrow>
       (\<forall>a \<in> pkt_source ` set (cached_packets r) \<union> own_ips rt. target rt a \<noteq> Some (req_key r)))"

definition req_ok :: "rt_entry list \<Rightarrow> int \<Rightarrow> arp_req \<Rightarrow> bool" where
  "req_ok rt now r =
     ((\<forall>p\<in>set (cached_packets r). pkt_ok p) \<and> errors_leave rt now r \<and> retries r \<le> ARP_REQUEST_MAX_RETRIES)"

lemma req_ok_ext:
  assumes "req_ok rt now r" "req_ext (own_pkts rt) r r'"
  shows "req_ok rt now r'"
proof -
  have r: "req_key r' = req_key r" "sent r' = sent r" "retries r' = retries r"
    and sub: "set (cached_packets r') \<subseteq> set (cached_packets r) \<union> own_pkts rt"
    using assms(2) by (simp_all add: req_ext_def)
  have src: "pkt_source ` set (cached_packets r') \<subseteq> pkt_source ` set (cached_packets r) \<union> own_ips rt"
    using sub by (auto simp: own_pkts_def)
  have "errors_leave rt now r'" unfolding errors_leave_def
  proof (intro impI ballI)
    fix a assume "exhausted now r'" "a \<in> pkt_source ` set (cached_packets r') \<union> own_ips rt"
    then have "exhausted now r" "a \<in> pkt_source ` set (cached_packets r) \<union> own_ips rt"
      using r src by (auto simp: exhausted_def due_def)
    then show "target rt a \<noteq> Some (req_key r')"
      using assms(1) r(1) unfolding req_ok_def errors_leave_def by metis
  qed
  moreover have "\<forall>p\<in>set (cached_packets r'). pkt_ok p"
    using sub assms(1) by (auto simp: own_pkts_def req_ok_def)
  ultimately show ?thesis using assms(1) r(3) by (simp add: req_ok_def)
qed

lemma req_ok_new: "new_req_ok (own_pkts rt) now r \<Longrightarrow> req_ok rt now r"
  by (auto simp: new_req_ok_def req_ok_def errors_leave_def exhausted_def due_def own_pkts_def)

lemma grows_req_ok:
  assumes "grows s t" "\<forall>r\<in>set (req_list s). req_ok (rtable s) (clock s) r"
  shows "\<forall>r\<in>set (req_list t). req_ok (rtable s) (clock s) r"
proof -
  obtain rs news where "req_list t = rs @ news" "list_all2 (req_ext (own_pkts (rtable s))) (req_list s) rs"
    "\<forall>r\<in>set news. new_req_ok (own_pkts (rtable s)) (clock s) r"
    using assms(1) by (auto simp: grows_def)
  moreover from this have "\<forall>r\<in>set rs. req_ok (rtable s) (clock s) r"
    using assms(2) by (metis list_all2_conv_all_nth in_set_conv_nth req_ok_ext)
  ultimately show ?thesis by (auto intro: req_ok_new)
qed

definition due_from :: "int \<Rightarrow> nat \<Rightarrow> router \<Rightarrow> nat" where
  "due_from now i s = length (filter (due now) (drop i (req_list s)))"

lemma filter_length_all2:
  "list_all2 R xs ys \<Longrightarrow> (\<And>x y. R x y \<Longrightarrow> P x = P y) \<Longrightarrow> length (filter P xs) = length (filter P ys)"
  by (induction rule: list_all2_induct) auto

lemma grows_due_from:
  assumes "grows s t" "i \<le> length (req_list s)"
  shows "due_from (clock s) i t = due_from (clock s) i s"
proof -
  obtain rs news where t: "req_list t = rs @ news" "list_all2 (req_ext (own_pkts (rtable s))) (req_list s) rs"
    "\<forall>r\<in>set news. new_req_ok (own_pkts (rtable s)) (clock s) r"
    using assms(1) by (auto simp: grows_def)
  have "filter (due (clock s)) news = []"
    using t(3) by (auto simp: filter_empty_conv due_def new_req_ok_def)
  moreover have "length (filter (due (clock s)) (drop i (req_list s))) = length (filter (due (clock s)) (drop i rs))"
    using list_all2_dropI [OF t(2)] by (rule filter_length_all2) (simp add: req_ext_def due_def)
  moreover have "i \<le> length rs" using t(2) assms(2) by (simp add: list_all2_lengthD)
  ultimately show ?thesis by (simp add: due_from_def t(1))
qed

lemma due_from_step:
  "i < length (req_list s) \<Longrightarrow>
   due_from now i s = (if due now (req_list s ! i) then 1 else 0) + due_from now (Suc i) s"
  by (simp add: due_from_def Cons_nth_drop_Suc [symmetric])

definition sweep_ready :: "nat \<Rightarrow> router \<Rightarrow> bool" where
  "sweep_ready i s =
     (macs_ok (rtable s) \<and> (\<forall>r\<in>set (req_list s). req_ok (rtable s) (clock s) r) \<and>
      (\<forall>j<i. j < length (req_list s) \<longrightarrow> \<not> due (clock s) (req_list s ! j)))"

definition swept :: "router \<Rightarrow> router \<Rightarrow> bool" where
  "swept s t =
     (rtable t = rtable s \<and> entries t = entries s \<and> clock t = clock s \<and>
      (\<forall>r\<in>set (req_list t). \<not> due (clock s) r \<and> req_ok (rtable s) (clock s) r))"

lemma sweep_ready_last:
  "sweep_ready (Suc i) s \<Longrightarrow> length (req_list s) \<le> Suc i \<Longrightarrow> swept s s"
  by (fastforce simp: sweep_ready_def swept_def in_set_conv_nth)

lemma retry_req_frame:
  assumes "i < length (req_list s)"
  shows "rtable (retry_req now i s) = rtable s" "entries (retry_req now i s) = entries s"
    "clock (retry_req now i s) = clock s"
    "req_list (retry_req now i s) = (req_list s)
       [i := (req_list s ! i)\<lparr>sent := now, retries := retries (req_list s ! i) + 1\<rparr>]"
  by (simp_all add: retry_req_def Let_def)

lemma sweep_ready_retry:
  assumes "sweep_ready i s" "i < length (req_list s)" "retries (req_list s ! i) < ARP_REQUEST_MAX_RETRIES"
  shows "sweep_ready (Suc i) (retry_req (clock s) i s)"
proof -
  let ?r = "(req_list s ! i)\<lparr>sent := clock s, retries := retries (req_list s ! i) + 1\<rparr>"
  have "req_ok (rtable s) (clock s) (req_list s ! i)" using assms by (simp add: sweep_ready_def)
  then have "req_ok (rtable s) (clock s) ?r" "\<not> due (clock s) ?r"
    using assms(3) by (simp_all add: req_ok_def errors_leave_def exhausted_def due_def)
  moreover have "set ((req_list s)[i := ?r]) \<subseteq> insert ?r (set (req_list s))"
    by (rule set_update_subset_insert)
  ultimately show ?thesis
    using assms(1,2) by (auto simp: sweep_ready_def retry_req_frame nth_list_update less_Suc_eq)
qed

lemma delete_req_frame:
  "rtable (delete_req i s) = rtable s" "entries (delete_req i s) = entries s"
  "clock (delete_req i s) = clock s"
  by (simp_all add: delete_req_def)

lemma sweep_ready_delete:
  assumes "sweep_ready i s" "i < length (req_list s)" "grows s t"
  shows "sweep_ready i (delete_req i t)"
proof -
  obtain rs news where t: "req_list t = rs @ news" "list_all2 (req_ext (own_pkts (rtable s))) (req_list s) rs"
    "rtable t = rtable s" "clock t = clock s"
    using assms(3) by (auto simp: grows_def)
  have "\<forall>r\<in>set (req_list t). req_ok (rtable s) (clock s) r"
    using grows_req_ok [OF assms(3)] assms(1) by (simp add: sweep_ready_def)
  then have "\<forall>r\<in>set (req_list (delete_req i t)). req_ok (rtable s) (clock s) r"
    by (auto simp: delete_req_def dest: in_set_takeD in_set_dropD)
  moreover have "\<not> due (clock s) (req_list (delete_req i t) ! j)" if "j < i" for j
  proof -
    have "i < length rs" using t(2) assms(2) by (simp add: list_all2_lengthD)
    then have "req_list (delete_req i t) ! j = rs ! j"
      using that t(1) by (simp add: delete_req_def nth_append)
    moreover have "sent (rs ! j) = sent (req_list s ! j)"
      using t(2) that assms(2) by (simp add: list_all2_conv_all_nth req_ext_def)
    ultimately show ?thesis using assms(1,2) that by (simp add: sweep_ready_def due_def)
  qed
  ultimately show ?thesis
    using assms(1) t(3,4) by (simp add: sweep_ready_def delete_req_frame)
qed

lemma due_from_delete: "i \<le> length (req_list t) \<Longrightarrow> due_from now i (delete_req i t) = due_from now (Suc i) t"
  by (simp add: due_from_def delete_req_def min_def)

lemma swept_grows: "grows s t \<Longrightarrow> swept (delete_req i t) u \<Longrightarrow> swept s u"
  by (auto simp: swept_def grows_def delete_req_frame)

lemma sweep_ready_done:
  assumes "sweep_ready i s" "due_from (clock s) i s = 0"
  shows "swept s s"
proof -
  have "\<forall>x\<in>set (drop i (req_list s)). \<not> due (clock s) x"
    using assms(2) by (simp add: due_from_def filter_empty_conv)
  moreover have "\<forall>x\<in>set (take i (req_list s)). \<not> due (clock s) x"
    using assms(1) by (auto simp: sweep_ready_def in_set_conv_nth)
  moreover have "set (req_list s) = set (take i (req_list s)) \<union> set (drop i (req_list s))"
    by (metis append_take_drop_id set_append)
  ultimately show ?thesis using assms(1) unfolding swept_def sweep_ready_def by blast
qed

text \<open>A pass over ready requests ends; what is left is due later.\<close>

lemma sweep_reqs_ends:
  "sweep_ready i s \<Longrightarrow> \<exists>t. sweep_reqs (clock s) i s = Some (Inr t) \<and> swept s t"
proof (induction "(i, s)" arbitrary: i s
    rule: wf_induct_rule [OF wf_measures [of "[\<lambda>(i, s). due_from (clock s) i s, \<lambda>(i, s). length (req_list s) - i]"]])
  case (1 i s)
  note IH = 1(1) and ready = 1(2)
  let ?now = "clock s" and ?n = "length (req_list s)" and ?r = "req_list s ! i"
  show ?case
  proof (cases "i < ?n")
    case False
    then show ?thesis
      using ready by (subst sweep_reqs.simps) (fastforce simp: sweep_ready_def swept_def in_set_conv_nth)
  next
    case True
    note unfold = sweep_reqs.simps [of ?now i s] due_from_step [OF True, of ?now]
    consider (later) "\<not> due ?now ?r" | (retry) "due ?now ?r" "retries ?r < ARP_REQUEST_MAX_RETRIES"
      | (drop) "exhausted ?now ?r" unfolding exhausted_def by (meson not_le)
    then show ?thesis
    proof cases
      case later
      then have r: "sweep_ready (Suc i) s" using ready by (auto simp: sweep_ready_def less_Suc_eq)
      have "Suc i \<noteq> ?n \<Longrightarrow> ?thesis"
        using IH [of "Suc i" s] r True later unfold by (simp add: due_def)
      moreover have "Suc i = ?n \<Longrightarrow> ?thesis"
        using sweep_ready_last [OF r] True later unfold by (simp add: due_def)
      ultimately show ?thesis by blast
    next
      case retry
      let ?t = "retry_req ?now i s"
      have r: "sweep_ready (Suc i) ?t" by (rule sweep_ready_retry [OF ready True retry(2)])
      have t: "clock ?t = ?now" "length (req_list ?t) = ?n" "due_from ?now (Suc i) ?t = due_from ?now (Suc i) s"
        "\<And>u. swept ?t u \<Longrightarrow> swept s u"
        using True by (simp_all add: retry_req_frame due_from_def swept_def)
      have "Suc i \<noteq> ?n \<Longrightarrow> ?thesis"
        using IH [of "Suc i" ?t] r True retry unfold t by (auto simp: due_def)
      moreover have "Suc i = ?n \<Longrightarrow> ?thesis"
        using sweep_ready_last [OF r] True retry unfold t by (simp add: due_def)
      ultimately show ?thesis by blast
    next
      case drop
      have "req_ok (rtable s) ?now ?r" "macs_ok (rtable s)" using ready True by (simp_all add: sweep_ready_def)
      then obtain t where t: "sweep_pkts i s = Some (Inr t)" "grows s t"
        using sweep_pkts_ends [of s i] True drop by (auto simp: req_ok_def errors_leave_def)
      let ?u = "delete_req i t"
      have r: "sweep_ready i ?u" by (rule sweep_ready_delete [OF ready True t(2)])
      have len: "?n \<le> length (req_list t)" "clock t = ?now"
        using t(2) by (auto simp: grows_def dest: list_all2_lengthD)
      have u: "clock ?u = ?now" "due_from ?now i ?u = due_from ?now (Suc i) s"
        using grows_due_from [OF t(2), of "Suc i"] due_from_delete [of i t ?now] True len
        by (simp_all add: delete_req_frame)
      have dec: "due_from ?now (Suc i) s < due_from ?now i s"
        using drop unfold(2) by (simp add: exhausted_def)
      obtain v where v: "sweep_reqs ?now i ?u = Some (Inr v)" "swept ?u v"
        using IH [of i ?u] r u dec by auto
      show ?thesis
      proof (cases "Suc i = ?n")
        case False
        then show ?thesis
          using v t True drop unfold(1) swept_grows [OF t(2) v(2)] by (simp add: exhausted_def due_def)
      next
        case last: True
        have "due_from ?now i ?u = 0" using u(2) last by (simp add: due_from_def)
        then have "swept ?u ?u" using sweep_ready_done [OF r] u(1) by simp
        then have "swept s ?u" by (rule swept_grows [OF t(2)])
        then show ?thesis
          using t True drop unfold(1) last by (simp add: exhausted_def due_def)
      qed
    qed
  qed
qed

section \<open>The pass that does not end\<close>

text \<open>
  A request for the next hop through which the router reaches its own interface address: the
  error for each of its packets goes back to the end of its queue.
\<close>

definition looping :: "nat \<Rightarrow> router \<Rightarrow> bool" where
  "looping i s =
     (i < length (req_list s) \<and> macs_ok (rtable s) \<and>
      (let r = req_list s ! i
       in arpcache_lookup (req_ip4 r) s = None \<and>
          target (rtable s) (if_ip (req_iface r)) = Some (req_key r) \<and>
          2 \<le> length (cached_packets r) \<and>
          (\<forall>j<i. req_key (req_list s ! j) \<noteq> req_key r) \<and>
          (\<forall>p\<in>set (cached_packets r). pkt_ok p \<and> target (rtable s) (pkt_source p) = Some (req_key r))))"

lemma append_to_req_at:
  assumes "i < length rs" "req_key (rs ! i) = (iface, ip)" "\<forall>j<i. req_key (rs ! j) \<noteq> (iface, ip)"
  shows "append_to_req iface ip q rs =
    Some (rs[i := (rs ! i)\<lparr>cached_packets := cached_packets (rs ! i) @ [q]\<rparr>])"
  using assms
proof (induction rs arbitrary: i)
  case (Cons r rs)
  show ?case
  proof (cases i)
    case 0
    then show ?thesis using Cons.prems by (simp add: req_key_def)
  next
    case (Suc k)
    have "req_key r \<noteq> (iface, ip)" using Cons.prems(3) Suc by force
    moreover have "\<forall>j<k. req_key (rs ! j) \<noteq> (iface, ip)"
      using Cons.prems(3) Suc by force
    ultimately show ?thesis using Cons.IH [of k] Cons.prems Suc by (auto simp: req_key_def)
  qed
qed simp

lemma looping_step:
  assumes "looping i s" "cached_packets (req_list s ! i) = p # ps"
  shows "ps \<noteq> [] \<and> (\<exists>t. icmp_send_packet p ICMP_DEST_UNREACH ICMP_HOST_UNREACH (set_packets i ps s) = Inr t
    \<and> looping i t)"
proof -
  let ?r = "req_list s ! i" and ?u = "set_packets i ps s"
  have i: "i < length (req_list s)" and m: "macs_ok (rtable s)" and n: "arpcache_lookup (req_ip4 ?r) s = None"
    and own: "target (rtable s) (if_ip (req_iface ?r)) = Some (req_key ?r)"
    and first: "\<forall>j<i. req_key (req_list s ! j) \<noteq> req_key ?r"
    and ps: "\<forall>p\<in>set (p # ps). pkt_ok p \<and> target (rtable s) (pkt_source p) = Some (req_key ?r)" "ps \<noteq> []"
    using assms by (auto simp: looping_def Let_def)
  have u: "rtable ?u = rtable s" "req_list ?u = (req_list s)[i := ?r\<lparr>cached_packets := ps\<rparr>]"
    "arpcache_lookup (req_ip4 ?r) ?u = None" "clock ?u = clock s"
    using n by (simp_all add: set_packets_def arpcache_lookup_def)
  have first_u: "\<forall>j<i. req_key (req_list ?u ! j) \<noteq> req_key ?r" using first u by simp
  obtain e where e: "longest_prefix_match (rtable s) (pkt_source p) = Some e"
    "rt_iface e = req_iface ?r" "next_hop e (pkt_source p) = req_ip4 ?r"
    using ps by (auto simp: target_def req_key_def)
  obtain t q where t: "icmp_send_packet p ICMP_DEST_UNREACH ICMP_HOST_UNREACH ?u = Inr t"
    "rtable t = rtable s" "entries t = entries ?u" "pkt_ok q" "pkt_source q = if_ip (req_iface ?r)"
    "req_list t = add_pending (req_iface ?r) (req_ip4 ?r) q (clock s) (req_list ?u)"
    using icmp_error_route [of p ?u e ICMP_HOST_UNREACH] ps m e u by auto
  have "append_to_req (req_iface ?r) (req_ip4 ?r) q (req_list ?u) =
      Some ((req_list ?u)[i := (req_list ?u ! i)\<lparr>cached_packets := cached_packets (req_list ?u ! i) @ [q]\<rparr>])"
    using i u first_u by (intro append_to_req_at) (simp_all add: req_key_def)
  then have l: "req_list t = (req_list s)[i := ?r\<lparr>cached_packets := ps @ [q]\<rparr>]"
    using t(6) u(2) i by (simp add: add_pending_def)
  have "arpcache_lookup (req_ip4 ?r) t = None"
    using t(3) u(3) by (simp add: arpcache_lookup_def)
  moreover have "2 \<le> length (ps @ [q])" using ps(2) by (cases ps) auto
  ultimately have "looping i t"
    using i m own first ps t(2,4,5) l by (auto simp: looping_def req_key_def Let_def)
  then show ?thesis using t(1) ps(2) by blast
qed

lemma looping_diverges: "looping i s \<Longrightarrow> sweep_pkts i s = None"
proof -
  have "\<not> looping i s" if eq: "sweep_pkts i s = Some y" for y
  proof (rule sweep_pkts.raw_induct [OF _ eq], rule notI)
    fix f :: "nat \<Rightarrow> router \<Rightarrow> router res option" and i s y
    assume IH: "\<And>i s y. f i s = Some y \<Longrightarrow> \<not> looping i s" and loop: "looping i s"
      and step: "(case cached_packets (req_list s ! i) of [] \<Rightarrow> Some (Inr s)
        | p # ps \<Rightarrow> (case icmp_send_packet p ICMP_DEST_UNREACH ICMP_HOST_UNREACH (set_packets i ps s) of
             Inl e \<Rightarrow> Some (Inl e) | Inr s' \<Rightarrow> if ps = [] then Some (Inr s') else f i s')) = Some y"
    obtain p ps where ps: "cached_packets (req_list s ! i) = p # ps"
      using loop by (cases "cached_packets (req_list s ! i)") (auto simp: looping_def Let_def)
    obtain t where "icmp_send_packet p ICMP_DEST_UNREACH ICMP_HOST_UNREACH (set_packets i ps s) = Inr t"
      "looping i t" "ps \<noteq> []" using looping_step [OF loop ps] by blast
    then show False using IH step ps by simp
  qed
  then show "looping i s \<Longrightarrow> sweep_pkts i s = None" by (cases "sweep_pkts i s") auto
qed

lemma sweep_reqs_diverges:
  assumes "looping 0 s" "exhausted now (req_list s ! 0)"
  shows "sweep_reqs now 0 s = None"
  using assms looping_diverges [OF assms(1)]
  by (subst sweep_reqs.simps) (auto simp: looping_def exhausted_def due_def Let_def)

section \<open>The router and its invariant\<close>

definition pending_ok :: "arp_req \<Rightarrow> bool" where
  "pending_ok r =
     (1 \<le> retries r \<and> retries r \<le> ARP_REQUEST_MAX_RETRIES \<and>
      (\<forall>p\<in>set (cached_packets r). 34 \<le> length p))"

definition router_inv :: "router \<Rightarrow> bool" where
  "router_inv s =
     (entries_inv s \<and> macs_ok (rtable s) \<and> distinct (map req_key (req_list s)) \<and>
      (\<forall>r\<in>set (req_list s). pending_ok r))"

text \<open>
  What can happen: a frame arrives on an interface, the sweep thread makes
  a pass, time passes.
\<close>

inductive router_step :: "iface_info set \<Rightarrow> router \<Rightarrow> router \<Rightarrow> bool" for ifs where
  receive: "i \<in> ifs \<Longrightarrow> handle_packet i p s = Inr t \<Longrightarrow> router_step ifs s t"
| sweep: "arpcache_sweep s = Some (Inr t) \<Longrightarrow> router_step ifs s t"
| tick: "0 \<le> n \<Longrightarrow> router_step ifs s (s\<lparr>clock := clock s + n\<rparr>)"

inductive_cases router_stepE: "router_step ifs s t"

inductive router_reachable :: "iface_info set \<Rightarrow> router \<Rightarrow> router \<Rightarrow> bool" for ifs s0 where
  start: "router_reachable ifs s0 (arpcache_init s0)"
| step: "router_reachable ifs s0 s \<Longrightarrow> router_step ifs s t \<Longrightarrow> router_reachable ifs s0 t"

lemma router_inv_frame:
  "router_inv s \<Longrightarrow> rtable t = rtable s \<Longrightarrow> entries t = entries s \<Longrightarrow> req_list t = req_list s \<Longrightarrow>
   router_inv t"
  by (simp add: router_inv_def entries_inv_def)

lemma router_inv_rnd [simp]: "router_inv s \<Longrightarrow> router_inv (s\<lparr>rnd_pos := n\<rparr>)"
  by (erule router_inv_frame) simp_all

lemma router_inv_insert:
  assumes "router_inv s" "length m = ETH_ALEN"
  shows "router_inv (arpcache_insert ip m s)"
  using assms entries_inv_insert [of s m ip]
  by (auto simp: router_inv_def distinct_map_filter)

lemma add_pending_keys:
  assumes "distinct (map req_key rs)"
  shows "distinct (map req_key (add_pending i ip q now rs))"
proof (cases "append_to_req i ip q rs")
  case None
  then have "(i, ip) \<notin> set (map req_key rs)"
    by (simp add: append_to_req_None req_key_def [abs_def])
  then show ?thesis using None assms by (simp add: add_pending_def) (simp add: req_key_def)
next
  case (Some rs')
  then obtain xs r ys where "rs = xs @ r # ys"
    "rs' = xs @ r\<lparr>cached_packets := cached_packets r @ [q]\<rparr> # ys"
    by (rule append_to_req_Some)
  then have "map req_key rs' = map req_key rs" by (simp add: req_key_def)
  then show ?thesis using Some assms by (simp add: add_pending_def)
qed

lemma add_pending_ok:
  assumes "\<forall>r\<in>set rs. pending_ok r" "34 \<le> length q"
  shows "\<forall>r\<in>set (add_pending i ip q now rs). pending_ok r"
proof (cases "append_to_req i ip q rs")
  case None
  then show ?thesis using assms by (auto simp: add_pending_def pending_ok_def)
next
  case (Some rs')
  then obtain xs r ys where "rs = xs @ r # ys"
    "rs' = xs @ r\<lparr>cached_packets := cached_packets r @ [q]\<rparr> # ys"
    by (rule append_to_req_Some)
  then show ?thesis using Some assms by (auto simp: add_pending_def pending_ok_def)
qed

lemma router_inv_send_by_arp:
  assumes "router_inv s" "34 \<le> length p" "length (if_mac i) = ETH_ALEN"
  shows "router_inv (iface_send_packet_by_arp i ip p s)"
  using assms add_pending_keys [of "req_list s" i ip "put 6 (if_mac i) p" "clock s"]
    add_pending_ok [of "req_list s" "put 6 (if_mac i) p" i ip "clock s"]
  by (simp add: router_inv_def entries_inv_def iface_send_by_arp_frame)

lemma router_inv_ip_send:
  assumes "router_inv s" "34 \<le> length p"
  shows "router_inv (ip_send_packet p s)"
proof (cases "longest_prefix_match (rtable s) (ntohl (ip_daddr p))")
  case None
  then show ?thesis using assms(1) by (simp add: ip_send_packet_def)
next
  case (Some e)
  then have "length (if_mac (rt_iface e)) = ETH_ALEN"
    using assms(1) lpm_in_table [OF Some] by (simp add: router_inv_def macs_ok_def)
  then show ?thesis using Some router_inv_send_by_arp [OF assms] by (simp add: ip_send_packet_def Let_def)
qed

lemma length_add_pending: "length rs \<le> length (add_pending i ip q now rs)"
proof (cases "append_to_req i ip q rs")
  case (Some rs')
  then have "length rs' = length rs" by (rule append_to_req_Some) simp
  then show ?thesis by (simp add: add_pending_def Some)
qed (simp add: add_pending_def)

lemma length_put_ge: "length p \<le> length (put i bs p)"
  by (simp add: put_def)

text \<open>
  What the ARP cache and the IP layer rely on in \<^verbatim>\<open>icmp_send_packet\<close>: it draws a random number
  and sends one packet with the headers in it, or does nothing.
\<close>

locale icmp_sender =
  fixes icmp :: "bytes \<Rightarrow> u8 \<Rightarrow> u8 \<Rightarrow> router \<Rightarrow> router res"
  assumes sends: "icmp p type code s = Inr t \<Longrightarrow>
    t = s \<or> (\<exists>q. 34 \<le> length q \<and> t = ip_send_packet q (s\<lparr>rnd_pos := Suc (rnd_pos s)\<rparr>))"
begin

lemma router_inv_icmp: "icmp p type code s = Inr t \<Longrightarrow> router_inv s \<Longrightarrow> router_inv t"
  using sends [of p type code s t] by (auto intro: router_inv_ip_send)

lemma icmp_req_list:
  assumes "icmp p type code s = Inr t"
  shows "length (req_list s) \<le> length (req_list t)"
proof -
  have "length (req_list u) \<le> length (req_list (ip_send_packet r u))" for r u
    by (simp add: ip_send_packet_def iface_send_by_arp_frame length_add_pending Let_def split: option.split)
  then have "length (req_list s) \<le> length (req_list (ip_send_packet r (s\<lparr>rnd_pos := n\<rparr>)))" for r n
    by (metis router.ext_inject router.surjective router.update_convs(7))
  then show ?thesis using sends [OF assms] by auto
qed

end

lemma long_put: "n \<le> length q \<Longrightarrow> n \<le> length (put i bs q)"
  using length_put_ge [of q i bs] by simp

lemma long_ip_init_hdr: "n \<le> length q \<Longrightarrow> n \<le> length (fst (ip_init_hdr q sa da len proto s))"
  unfolding ip_init_hdr_def Let_def split_beta fst_conv by (intro long_put)

lemma long_icmp_body: "n \<le> length q \<Longrightarrow> n \<le> length (icmp_body p len type q)"
  by (cases "type = ICMP_ECHOREPLY") (simp_all only: icmp_body_def if_True if_False simp_thms long_put)

lemma length_icmp_packet: "34 \<le> length (fst (icmp_packet p type code e s))"
  unfolding icmp_packet_def Let_def split_beta fst_conv
  by (intro long_put long_icmp_body long_ip_init_hdr) simp

interpretation ic: icmp_sender icmp_send_packet
proof
  fix p type code s t assume "icmp_send_packet p type code s = Inr t"
  then show "t = s \<or> (\<exists>q. 34 \<le> length q \<and> t = ip_send_packet q (s\<lparr>rnd_pos := Suc (rnd_pos s)\<rparr>))"
    using length_icmp_packet [of p type code _ s] icmp_packet_snd [of p type code _ s]
    by (auto simp: icmp_send_packet_def Let_def split_beta split: if_splits option.splits)
qed

lemma router_inv_forward:
  assumes "router_inv s" "ip_forward_packet d p s = Inr t" "34 \<le> length p"
  shows "router_inv t"
proof (cases "ip_ttl p = 1")
  case True
  then have "ip_ttl (p[22 := ip_ttl p - 1]) \<le> 0" using assms(3) by (simp add: ip_ttl_def)
  then have "ip_forward_packet d p s = res_bind (icmp_send_packet (p[22 := ip_ttl p - 1])
      ICMP_TIME_EXCEEDED ICMP_EXC_TTL s) (\<lambda>s. Inl Use_After_Free)"
    by (simp only: ip_forward_packet_def Let_def if_True)
  then have "ip_forward_packet d p s \<noteq> Inr t" by (simp only: res_bind_Inr_iff) simp
  then show ?thesis using assms(2) by simp
next
  case False
  then have ttl: "\<not> ip_ttl (p[22 := ip_ttl p - 1]) \<le> 0"
    using assms(3) by (simp add: ip_ttl_def word_le_0_iff)
  then have len: "14 + IP_HDR_SIZE p \<le> length p"
    using assms(2) by (auto simp: ip_forward_packet_def Let_def split: if_splits)
  show ?thesis
  proof (cases "longest_prefix_match (rtable s) d")
    case None
    then have "icmp_send_packet (forwarded p) ICMP_DEST_UNREACH ICMP_NET_UNREACH s = Inr t"
      using assms(2) ttl len by (simp add: ip_forward_packet_def forwarded_def Let_def)
    then show ?thesis
      using ic.router_inv_icmp assms(1) by blast
  next
    case (Some e)
    then have "length (if_mac (rt_iface e)) = ETH_ALEN"
      using assms(1) lpm_in_table [OF Some] by (simp add: router_inv_def macs_ok_def)
    then show ?thesis
      using assms ip_forward_packet_route [OF assms(3) len False Some] forwarded_fields(1) [OF assms(3)]
      by (auto intro!: router_inv_send_by_arp)
  qed
qed

lemma router_inv_handle_ip:
  assumes "router_inv s" "handle_ip_packet i p s = Inr t"
  shows "router_inv t"
proof -
  have p: "34 \<le> length p" using assms(2) by (auto simp: handle_ip_packet_def split: if_splits)
  show ?thesis
  proof (cases "for_router i p")
    case True
    then have "icmp_send_packet p ICMP_ECHOREPLY (p ! (14 + IP_HDR_SIZE p + 1)) s = Inr t"
      using assms(2) by (auto simp: handle_ip_packet_def for_router_def Let_def split: if_splits)
    then show ?thesis using ic.router_inv_icmp assms(1) by blast
  next
    case False
    then have "ip_forward_packet (ntohl (ip_daddr p)) p s = Inr t"
      using assms(2) by (auto simp: handle_ip_packet_def for_router_def Let_def split: if_splits)
    then show ?thesis using router_inv_forward [OF assms(1)] p by simp
  qed
qed

lemma router_inv_handle_arp:
  assumes "router_inv s" "handle_arp_packet i p s = Inr t"
  shows "router_inv t"
proof -
  have "42 \<le> length p" using assms(2) by (auto simp: handle_arp_packet_def split: if_splits)
  then have "router_inv (arpcache_insert (ntohl (arp_spa p)) (arp_sha p) s)"
    using router_inv_insert [OF assms(1)] by simp
  then show ?thesis
    using assms by (auto simp: handle_arp_packet_def arp_send_reply_def split: if_splits intro: router_inv_frame)
qed

lemma router_inv_handle_packet:
  assumes "router_inv s" "handle_packet i p s = Inr t"
  shows "router_inv t"
  using assms router_inv_handle_ip [OF assms(1)] router_inv_handle_arp [OF assms(1)]
  by (auto simp: handle_packet_def split: if_splits)

lemma router_inv_set_packets:
  assumes "router_inv s" "set ps \<subseteq> set (cached_packets (req_list s ! i))"
  shows "router_inv (set_packets i ps s)"
proof (cases "i < length (req_list s)")
  case True
  let ?r = "(req_list s ! i)\<lparr>cached_packets := ps\<rparr>"
  have "pending_ok (req_list s ! i)" using assms(1) True by (simp add: router_inv_def)
  then have "pending_ok ?r" using assms(2) by (auto simp: pending_ok_def)
  moreover have "map req_key ((req_list s)[i := ?r]) = map req_key (req_list s)"
    using True by (simp add: map_update req_key_def list_update_same_conv)
  ultimately show ?thesis
    using assms(1) set_update_subset_insert [of "req_list s" i ?r]
    by (auto simp: router_inv_def set_packets_def entries_inv_def)
next
  case False
  then show ?thesis using assms(1) by (simp add: set_packets_def list_update_beyond)
qed

lemma router_inv_retry:
  assumes "router_inv s" "i < length (req_list s)" "retries (req_list s ! i) < ARP_REQUEST_MAX_RETRIES"
  shows "router_inv (retry_req now i s)"
proof -
  let ?r = "(req_list s ! i)\<lparr>sent := now, retries := retries (req_list s ! i) + 1\<rparr>"
  have "pending_ok (req_list s ! i)" using assms(1,2) by (simp add: router_inv_def)
  then have "pending_ok ?r" using assms(3) by (simp add: pending_ok_def)
  moreover have "map req_key ((req_list s)[i := ?r]) = map req_key (req_list s)"
    using assms(2) by (simp add: map_update req_key_def list_update_same_conv)
  ultimately show ?thesis
    using assms(1,2) set_update_subset_insert [of "req_list s" i ?r]
    by (auto simp: router_inv_def retry_req_frame entries_inv_def)
qed

lemma router_inv_delete: "router_inv s \<Longrightarrow> router_inv (delete_req i s)"
  by (auto simp: router_inv_def delete_req_def entries_inv_def take_map [symmetric] drop_map [symmetric]
      dest: in_set_takeD in_set_dropD set_take_disj_set_drop_if_distinct [of _ i "Suc i"])

lemma router_inv_sweep_pkts:
  assumes "sweep_pkts i s = Some y"
  shows "router_inv s \<Longrightarrow> i < length (req_list s) \<Longrightarrow> y = Inr t \<Longrightarrow> router_inv t"
proof -
  let ?P = "\<lambda>i s y. router_inv s \<longrightarrow> i < length (req_list s) \<longrightarrow> (\<forall>t. y = Inr t \<longrightarrow> router_inv t)"
  have "?P i s y"
  proof (rule sweep_pkts.raw_induct [of ?P, OF _ assms], intro impI allI)
    fix f :: "nat \<Rightarrow> router \<Rightarrow> router res option" and i s y t
    assume IH: "\<And>i s y. f i s = Some y \<Longrightarrow> ?P i s y"
      and inv: "router_inv s" and i: "i < length (req_list s)" and y: "y = Inr t"
      and step: "(case cached_packets (req_list s ! i) of [] \<Rightarrow> Some (Inr s)
        | p # ps \<Rightarrow> (case icmp_send_packet p ICMP_DEST_UNREACH ICMP_HOST_UNREACH (set_packets i ps s) of
             Inl e \<Rightarrow> Some (Inl e) | Inr s' \<Rightarrow> if ps = [] then Some (Inr s') else f i s')) = Some y"
    show "router_inv t"
    proof (cases "cached_packets (req_list s ! i)")
      case Nil
      then show ?thesis using inv y step by simp
    next
      case (Cons p ps)
      have u: "router_inv (set_packets i ps s)" using inv Cons by (intro router_inv_set_packets) auto
      obtain u where ic: "icmp_send_packet p ICMP_DEST_UNREACH ICMP_HOST_UNREACH (set_packets i ps s) = Inr u"
        and nxt: "if ps = [] then u = t else f i u = Some y"
        using step Cons y by (auto split: sum.splits if_splits)
      have "router_inv u" using ic.router_inv_icmp [OF ic u] .
      moreover have "i < length (req_list u)" using ic.icmp_req_list [OF ic] i by (simp add: set_packets_def)
      ultimately show ?thesis using nxt IH y by (auto split: if_splits)
    qed
  qed
  then show "router_inv s \<Longrightarrow> i < length (req_list s) \<Longrightarrow> y = Inr t \<Longrightarrow> router_inv t" by blast
qed

lemma router_inv_sweep_reqs:
  assumes "sweep_reqs now i s = Some y"
  shows "router_inv s \<Longrightarrow> y = Inr t \<Longrightarrow> router_inv t"
proof -
  let ?P = "\<lambda>now i s y. router_inv s \<longrightarrow> (\<forall>t. y = Inr t \<longrightarrow> router_inv t)"
  have "?P now i s y"
  proof (rule sweep_reqs.raw_induct [of ?P, OF _ assms], intro impI allI)
    fix f :: "int \<Rightarrow> nat \<Rightarrow> router \<Rightarrow> router res option" and now i s y t
    assume IH: "\<And>now i s y. f now i s = Some y \<Longrightarrow> ?P now i s y"
      and inv: "router_inv s" and y: "y = Inr t"
      and step: "(if i \<ge> length (req_list s) then Some (Inr s)
      else let r = req_list s ! i; is_last = (Suc i = length (req_list s))
      in if now - sent r \<ge> 1
         then if retries r < ARP_REQUEST_MAX_RETRIES
           then if is_last then Some (Inr (retry_req now i s)) else f now (Suc i) (retry_req now i s)
           else Option.bind (sweep_pkts i s) (\<lambda>m. case m of
                  Inl e \<Rightarrow> Some (Inl e)
                | Inr s' \<Rightarrow> if is_last then Some (Inr (delete_req i s')) else f now i (delete_req i s'))
         else if is_last then Some (Inr s) else f now (Suc i) s) = Some y"
    have d: "router_inv (delete_req i u)" if "i < length (req_list s)" "sweep_pkts i s = Some (Inr u)" for u
      using router_inv_delete router_inv_sweep_pkts [OF that(2) inv that(1)] by blast
    have r: "router_inv (retry_req now i s)"
      if "i < length (req_list s)" "retries (req_list s ! i) < ARP_REQUEST_MAX_RETRIES"
      using router_inv_retry [OF inv that] .
    show "router_inv t"
    proof (cases "i < length (req_list s) \<and> exhausted now (req_list s ! i)")
      case True
      then obtain m where m: "sweep_pkts i s = Some m"
        "(case m of Inl e \<Rightarrow> Some (Inl e) | Inr s' \<Rightarrow> if Suc i = length (req_list s)
           then Some (Inr (delete_req i s')) else f now i (delete_req i s')) = Some y"
        using step by (auto simp: exhausted_def due_def Let_def bind_eq_Some_conv)
      then obtain u where u: "sweep_pkts i s = Some (Inr u)"
        "if Suc i = length (req_list s) then delete_req i u = t else f now i (delete_req i u) = Some y"
        using y by (cases m) (auto split: if_splits)
      then show ?thesis using d [OF _ u(1)] True y IH by (metis (full_types))
    next
      case False
      then show ?thesis
        using step y inv r IH by (auto simp: exhausted_def due_def Let_def split: if_splits)
    qed
  qed
  then show "router_inv s \<Longrightarrow> y = Inr t \<Longrightarrow> router_inv t" by blast
qed

lemma router_inv_entries:
  "router_inv s \<Longrightarrow> router_inv (s\<lparr>entries := sweep_entries now (entries s)\<rparr>)"
  by (auto simp: router_inv_def entries_inv_def sweep_entries_def)

lemma router_inv_sweep: "arpcache_sweep s = Some (Inr t) \<Longrightarrow> router_inv s \<Longrightarrow> router_inv t"
  using router_inv_sweep_reqs [OF _ router_inv_entries] by (simp add: arpcache_sweep_def Let_def)

lemma router_inv_step: "router_step ifs s t \<Longrightarrow> router_inv s \<Longrightarrow> router_inv t"
proof (erule router_stepE)
  assume "arpcache_sweep s = Some (Inr t)" "router_inv s"
  then show ?thesis by (rule router_inv_sweep)
next
  fix i p assume "handle_packet i p s = Inr t" "router_inv s"
  then show ?thesis using router_inv_handle_packet by blast
next
  fix n assume "t = s\<lparr>clock := clock s + n\<rparr>" "router_inv s"
  then show ?thesis by (simp add: router_inv_frame)
qed

section \<open>Properties\<close>

text \<open>
  Property C26: A pass of the sweep ends and does its work. When the errors for the packets of the
  exhausted requests are not routed back into the queues they come from, the pass returns;
  afterwards no entry older than 15 seconds is valid, younger entries are as they were, and
  every request left was sent less than a second ago and at most 5 times.
\<close>
theorem arpcache_sweep_ends:
  assumes "sweep_ready 0 s"
  shows "\<exists>t. arpcache_sweep s = Some (Inr t) \<and>
    (\<forall>e\<in>set (entries t). valid e \<longrightarrow> clock s - added e \<le> ARP_ENTRY_TIMEOUT) \<and>
    (\<forall>i<length (entries s). clock s - added (entries s ! i) \<le> ARP_ENTRY_TIMEOUT \<longrightarrow>
       entries t ! i = entries s ! i) \<and>
    (\<forall>r\<in>set (req_list t). clock s - sent r < 1 \<and> retries r \<le> ARP_REQUEST_MAX_RETRIES)"
proof -
  let ?s = "s\<lparr>entries := sweep_entries (clock s) (entries s)\<rparr>"
  have "sweep_ready 0 ?s" using assms by (simp add: sweep_ready_def)
  then obtain t where t: "arpcache_sweep s = Some (Inr t)" "swept ?s t"
    using sweep_reqs_ends [of 0 ?s] by (auto simp: arpcache_sweep_def Let_def)
  then have "entries t = sweep_entries (clock s) (entries s)"
    "\<forall>r\<in>set (req_list t). \<not> due (clock s) r \<and> req_ok (rtable s) (clock s) r"
    by (simp_all add: swept_def)
  then show ?thesis
    using t(1) by (auto simp: sweep_entries_def due_def req_ok_def)
qed

definition example_request :: arp_req where
  "example_request = \<lparr>req_iface = example_iface, req_ip4 = 0x0a000103, sent = 0, retries = 5,
     cached_packets = [example_packet [10, 0, 1, 2] [10, 0, 1, 3] 64 17 [1, 2, 3, 4, 5, 6, 7, 8]]\<rparr>"

definition example_pending :: "arp_req \<Rightarrow> router" where
  "example_pending r = \<lparr>rtable = [example_route], entries = replicate 32 empty_entry, req_list = [r],
     txq = [], clock = 2, rnd = (\<lambda>n. n), rnd_pos = 0\<rparr>"

lemma example_pending_simps [simp]:
  "rtable (example_pending r) = [example_route]" "req_list (example_pending r) = [r]"
  "clock (example_pending r) = 2" "arpcache_lookup ip (example_pending r) = None"
  "macs_ok [example_route]"
  by (simp_all add: example_pending_def arpcache_lookup_def find_None_iff empty_entry_def macs_ok_def)

lemma example_target [simp]:
  "target [example_route] 0x0a000101 = Some (example_iface, 0x0a000101)"
  "target [example_route] 0x0a000102 = Some (example_iface, 0x0a000102)"
  by (simp_all add: target_def next_hop_def)

theorem arpcache_sweep_ends_witness: "\<exists>t. arpcache_sweep (example_pending example_request) = Some (Inr t)"
proof -
  have "pkt_source (example_packet [10, 0, 1, 2] [10, 0, 1, 3] 64 17 [1, 2, 3, 4, 5, 6, 7, 8]) = 0x0a000102"
    by (simp add: pkt_source_def example_packet_fields le32_def le16_def)
  then have "sweep_ready 0 (example_pending example_request)"
    by (simp add: sweep_ready_def req_ok_def errors_leave_def example_request_def req_key_def own_ips_def
        pkt_ok_def icmp_input_ok_def example_packet_fields)
  then show ?thesis using arpcache_sweep_ends by blast
qed

text \<open>
  The sweep thread can be stopped for good. When an exhausted request waits for the
  address through which the router reaches its own interface, is the first for that address
  and holds two packets whose errors are routed there, each error is put back at the end of
  the queue the loop is running over, and the pass never ends.
\<close>
theorem arpcache_sweep_diverges:
  assumes "looping 0 s" "exhausted (clock s) (req_list s ! 0)"
  shows "arpcache_sweep s = None"
proof -
  let ?s = "s\<lparr>entries := sweep_entries (clock s) (entries s)\<rparr>"
  have "arpcache_lookup ip s = None \<Longrightarrow> arpcache_lookup ip ?s = None" for ip
    by (auto simp: arpcache_lookup_def sweep_entries_def find_None_iff)
  then have "looping 0 ?s" using assms(1) by (simp add: looping_def Let_def)
  then show ?thesis
    using sweep_reqs_diverges [of ?s] assms(2) by (simp add: arpcache_sweep_def Let_def)
qed

definition self_packet :: bytes where
  "self_packet = example_packet [10, 0, 1, 1] [10, 0, 1, 1] 64 17 [1, 2, 3, 4, 5, 6, 7, 8]"

theorem arpcache_sweep_diverges_witness:
  "arpcache_sweep (example_pending \<lparr>req_iface = example_iface, req_ip4 = 0x0a000101, sent = 0, retries = 5,
     cached_packets = [self_packet, self_packet]\<rparr>) = None"
proof -
  have "pkt_source self_packet = 0x0a000101" "pkt_ok self_packet"
    by (simp_all add: self_packet_def pkt_source_def example_packet_fields le32_def le16_def pkt_ok_def
        icmp_input_ok_def)
  then show ?thesis
    by (intro arpcache_sweep_diverges) (simp_all add: looping_def exhausted_def due_def req_key_def Let_def)
qed

text \<open>
  Property C25: In every state the router reaches, whatever frames arrive, the cache has its 32 entries
  with 6-byte addresses, no two pending requests are for the same interface and address, each
  has been sent between 1 and 5 times, and every queued packet holds the Ethernet and IP headers
  that the code writes into it.
\<close>
theorem router_reachable_inv:
  assumes "router_reachable ifs s0 s" "macs_ok (rtable s0)"
  shows "length (entries s) = MAX_ARP_SIZE \<and> (\<forall>e\<in>set (entries s). length (mac e) = ETH_ALEN) \<and>
    distinct (map (\<lambda>r. (req_iface r, req_ip4 r)) (req_list s)) \<and>
    (\<forall>r\<in>set (req_list s). 1 \<le> retries r \<and> retries r \<le> ARP_REQUEST_MAX_RETRIES \<and>
       (\<forall>p\<in>set (cached_packets r). ETHER_HDR_SIZE + IP_BASE_HDR_SIZE \<le> length p))"
proof -
  have "router_inv s" using assms(1)
  proof (induction rule: router_reachable.induct)
    case start
    then show ?case
      using assms(2) by (simp add: router_inv_def arpcache_init_def entries_inv_def empty_entry_def)
  next
    case (step s t)
    then show ?case using router_inv_step by blast
  qed
  then show ?thesis by (auto simp: router_inv_def entries_inv_def pending_ok_def req_key_def [abs_def])
qed

theorem router_reachable_inv_witness:
  "length (entries (arpcache_init (example_pending example_request))) = MAX_ARP_SIZE"
  using router_reachable_inv [OF router_reachable.start, of "example_pending example_request"] by simp

end
