(* ===== verification/Router7.thy ===== *)
theory Router7
  imports Arp_Sweep
begin

text \<open>
  The IP layer of the router with dynamic routing. \<^verbatim>\<open>code-exp7\<close> repeats the files of \<^verbatim>\<open>code-exp5\<close>, but
  with another \<^verbatim>\<open>checksum.h\<close> under them, and it has an \<^verbatim>\<open>ip_forward_packet\<close> of its own. The functions
  here are the ones this reaches: \<^verbatim>\<open>ip_init_hdr\<close>, \<^verbatim>\<open>icmp_send_packet\<close> and \<^verbatim>\<open>arpcache_sweep\<close>, which reports
  through it. The checksums agree on an even number of bytes, which headers and ICMP errors have, so
  that all of them but the echo reply do the same as their counterparts. \<open>Routers\<close> compares the two routers
  packet by packet.
\<close>

section \<open>The code\<close>

definition ip_checksum7 :: "bytes \<Rightarrow> u16" where
  "ip_checksum7 p = checksum7 (sub 14 (IP_HDR_SIZE p) (put 24 [0, 0] p)) 0"

definition ip_init_hdr7 :: "bytes \<Rightarrow> u32 \<Rightarrow> u32 \<Rightarrow> u16 \<Rightarrow> u8 \<Rightarrow> router \<Rightarrow> bytes \<times> router" where
  "ip_init_hdr7 p saddr daddr len proto s =
     (let (r, s) = next_rand s;
          p = put 14 [0x45] p;
          p = put 15 [0] p;
          p = put 16 (bytes16 (htons len)) p;
          p = put 18 (bytes16 (of_nat r)) p;
          p = put 20 (bytes16 (htons IP_DF)) p;
          p = put 22 [DEFAULT_TTL] p;
          p = put 23 [proto] p;
          p = put 26 (bytes32 (htonl saddr)) p;
          p = put 30 (bytes32 (htonl daddr)) p
      in (put 24 (bytes16 (ip_checksum7 p)) p, s))"

definition icmp_checksum7 :: "nat \<Rightarrow> bytes \<Rightarrow> u16" where
  "icmp_checksum7 len p = checksum7 (sub 34 len (put 36 [0, 0] p)) 0"

definition icmp_packet7 :: "bytes \<Rightarrow> u8 \<Rightarrow> u8 \<Rightarrow> rt_entry \<Rightarrow> router \<Rightarrow> bytes \<times> router" where
  "icmp_packet7 in_pkt type code entry s =
     (let icmp_len = nat (icmp_length in_pkt type);
          p = malloc (ETHER_HDR_SIZE + IP_BASE_HDR_SIZE + icmp_len);
          p = put 0 (replicate ETHER_HDR_SIZE 0) p;
          p = put 12 (bytes16 (htons ETH_P_IP)) p;
          (p, s) = ip_init_hdr7 p (if_ip (rt_iface entry)) (ntohl (ip_saddr in_pkt))
                     (of_nat (IP_BASE_HDR_SIZE + icmp_len)) IPPROTO_ICMP s;
          p = put 34 [type, code, 0, 0] p;
          p = icmp_body in_pkt icmp_len type p
      in (put 36 (bytes16 (icmp_checksum7 icmp_len p)) p, s))"

definition icmp_send_packet7 :: "bytes \<Rightarrow> u8 \<Rightarrow> u8 \<Rightarrow> router \<Rightarrow> router res" where
  "icmp_send_packet7 in_pkt type code r =
     (if length in_pkt < ETHER_HDR_SIZE + IP_BASE_HDR_SIZE then Inl Out_Of_Bounds
      else let icmp_len = icmp_length in_pkt type
      in if int (ETHER_HDR_SIZE + IP_BASE_HDR_SIZE) + icmp_len < int ETHER_HDR_SIZE
        then Inl Out_Of_Bounds
      else case longest_prefix_match (rtable r) (ntohl (ip_saddr in_pkt)) of
        None \<Rightarrow> Inr r
      | Some entry \<Rightarrow>
         if icmp_len < 4 then Inl Out_Of_Bounds
         else if type \<noteq> ICMP_ECHOREPLY \<and>
                 length in_pkt < 14 + IP_HDR_SIZE in_pkt + ICMP_COPIED_DATA_LEN
           then Inl Out_Of_Bounds
         else let (p, r) = icmp_packet7 in_pkt type code entry r in Inr (ip_send_packet p r))"

definition ip_forward_packet7 :: "u32 \<Rightarrow> bytes \<Rightarrow> router \<Rightarrow> router res" where
  "ip_forward_packet7 ip_dst packet r =
     (if ip_ttl packet \<le> 1 then icmp_send_packet7 packet ICMP_TIME_EXCEEDED 0 r
      else let packet = packet[22 := ip_ttl packet - 1]
      in if length packet < 14 + IP_HDR_SIZE packet then Inl Out_Of_Bounds
         else let packet = put 24 (bytes16 (ip_checksum7 packet)) packet
         in case longest_prefix_match (rtable r) ip_dst of
              None \<Rightarrow> icmp_send_packet7 packet ICMP_DEST_UNREACH 0 r
            | Some entry \<Rightarrow>
                (let next_hop_ip = (if gw entry \<noteq> 0 then gw entry else ip_dst)
                 in Inr (iface_send_packet_by_arp (rt_iface entry) next_hop_ip packet r)))"

text \<open>The sweep, with the loops of \<open>Arp_Sweep\<close> over this \<^verbatim>\<open>icmp_send_packet\<close>.\<close>

partial_function (option) sweep_pkts7 :: "nat \<Rightarrow> router \<Rightarrow> router res option" where
  "sweep_pkts7 i s =
     (case cached_packets (req_list s ! i) of
        [] \<Rightarrow> Some (Inr s)
      | p # ps \<Rightarrow>
          (case icmp_send_packet7 p ICMP_DEST_UNREACH ICMP_HOST_UNREACH (set_packets i ps s) of
             Inl e \<Rightarrow> Some (Inl e)
           | Inr s' \<Rightarrow> if ps = [] then Some (Inr s') else sweep_pkts7 i s'))"

partial_function (option) sweep_reqs7 :: "int \<Rightarrow> nat \<Rightarrow> router \<Rightarrow> router res option" where
  "sweep_reqs7 now i s =
     (if i \<ge> length (req_list s) then Some (Inr s)
      else let r = req_list s ! i; is_last = (Suc i = length (req_list s))
      in if now - sent r \<ge> 1
         then if retries r < ARP_REQUEST_MAX_RETRIES
           then if is_last then Some (Inr (retry_req now i s))
                else sweep_reqs7 now (Suc i) (retry_req now i s)
           else Option.bind (sweep_pkts7 i s) (\<lambda>m. case m of
                  Inl e \<Rightarrow> Some (Inl e)
                | Inr s' \<Rightarrow> if is_last then Some (Inr (delete_req i s'))
                            else sweep_reqs7 now i (delete_req i s'))
         else if is_last then Some (Inr s) else sweep_reqs7 now (Suc i) s)"

definition arpcache_sweep7 :: "router \<Rightarrow> router res option" where
  "arpcache_sweep7 s =
     (let now = clock s
      in sweep_reqs7 now 0 (s\<lparr>entries := sweep_entries now (entries s)\<rparr>))"

section \<open>Agreement with the static router\<close>

lemma even_hdr: "even (IP_HDR_SIZE p)"
  by (simp add: IP_HDR_SIZE_def)

lemma ip_checksum7_eq: "14 + IP_HDR_SIZE p \<le> length p \<Longrightarrow> 26 \<le> length p \<Longrightarrow> ip_checksum7 p = ip_checksum p"
  using even_hdr [of p] by (simp add: ip_checksum7_def ip_checksum_def checksum7_even)

lemma ip_init_hdr7_eq:
  assumes "34 \<le> length p"
  shows "ip_init_hdr7 p sa da len proto s = ip_init_hdr p sa da len proto s"
proof -
  define q where "q = put 30 (bytes32 (htonl da)) (put 26 (bytes32 (htonl sa)) (put 23 [proto] (put 22 [DEFAULT_TTL]
    (put 20 (bytes16 (htons IP_DF)) (put 18 (bytes16 (of_nat (fst (next_rand s)))) (put 16 (bytes16 (htons len)) (put 15 [0] (put 14 [0x45] p))))))))"
  have "length q = length p" "q ! 14 = 0x45" using assms by (simp_all add: q_def buffer_simps)
  then have "ip_checksum7 q = ip_checksum q" using assms IP_HDR_SIZE_45 [of q] by (intro ip_checksum7_eq) simp_all
  then show ?thesis by (simp add: ip_init_hdr7_def ip_init_hdr_def q_def split_beta Let_def)
qed

lemma length_icmp_body:
  assumes "length q = 34 + n" "4 \<le> n" "type \<noteq> ICMP_ECHOREPLY \<Longrightarrow> n = 16 + IP_HDR_SIZE p"
  shows "length (icmp_body p n type q) = 34 + n"
  using assms by (cases "type = ICMP_ECHOREPLY") (simp_all add: icmp_body_def sub_def)

lemma icmp_packet7_eq:
  assumes "4 \<le> icmp_length p type" "even (icmp_length p type)"
  shows "icmp_packet7 p type code e s = icmp_packet p type code e s"
proof -
  define n where "n = nat (icmp_length p type)"
  have n: "4 \<le> n" "even n" using assms by (auto simp: n_def even_nat_iff)
  define m where "m = put 12 (bytes16 (htons ETH_P_IP)) (put 0 (replicate ETHER_HDR_SIZE 0) (malloc (ETHER_HDR_SIZE + IP_BASE_HDR_SIZE + n)))"
  define h where "h = ip_init_hdr m (if_ip (rt_iface e)) (ntohl (ip_saddr p)) (of_nat (IP_BASE_HDR_SIZE + n)) IPPROTO_ICMP s"
  define b where "b = icmp_body p n type (put 34 [type, code, 0, 0] (fst h))"
  have m: "length m = 34 + n" by (simp add: m_def)
  have "length (fst h) = 34 + n" unfolding h_def using m by (simp add: ip_init_hdr_fields(1))
  moreover have "type \<noteq> ICMP_ECHOREPLY \<Longrightarrow> n = 16 + IP_HDR_SIZE p" by (simp add: n_def icmp_length_def)
  ultimately have "length b = 34 + n" using n(1) unfolding b_def by (intro length_icmp_body) auto
  then have c: "icmp_checksum7 n b = icmp_checksum n b" using n by (simp add: icmp_checksum7_def icmp_checksum_def checksum7_even)
  have h: "ip_init_hdr7 m (if_ip (rt_iface e)) (ntohl (ip_saddr p)) (of_nat (IP_BASE_HDR_SIZE + n)) IPPROTO_ICMP s = h"
    unfolding h_def using m by (intro ip_init_hdr7_eq) simp
  show ?thesis
    unfolding icmp_packet7_def icmp_packet_def Let_def split_beta n_def [symmetric] m_def [symmetric] h h_def [symmetric]
      b_def [symmetric] c ..
qed

lemma icmp_send_packet7_eq:
  assumes "type = ICMP_ECHOREPLY \<longrightarrow> even (length p)"
  shows "icmp_send_packet7 p type code s = icmp_send_packet p type code s"
proof -
  have "even (icmp_length p type)" using assms even_hdr [of p] by (auto simp: icmp_length_def)
  then have "\<not> icmp_length p type < 4 \<Longrightarrow> icmp_packet7 p type code e s = icmp_packet p type code e s" for e
    by (intro icmp_packet7_eq) simp_all
  then show ?thesis
    by (auto simp: icmp_send_packet7_def icmp_send_packet_def Let_def split: option.split)
qed

text \<open>Each of the two loops gives what the other gives, so they end on the same states.\<close>

lemma option_eqI: "(\<And>y. f = Some y \<Longrightarrow> g = Some y) \<Longrightarrow> (\<And>y. g = Some y \<Longrightarrow> f = Some y) \<Longrightarrow> f = g"
  by (cases f; cases g) auto

lemma sweep_pkts7_eq: "sweep_pkts7 i s = sweep_pkts i s"
proof (rule option_eqI)
  fix y assume "sweep_pkts7 i s = Some y"
  then show "sweep_pkts i s = Some y"
    by (rule sweep_pkts7.raw_induct [where P = "\<lambda>i s y. sweep_pkts i s = Some y", rotated])
      (subst sweep_pkts.simps, auto simp: icmp_send_packet7_eq split: list.splits sum.splits if_splits)
next
  fix y assume "sweep_pkts i s = Some y"
  then show "sweep_pkts7 i s = Some y"
    by (rule sweep_pkts.raw_induct [where P = "\<lambda>i s y. sweep_pkts7 i s = Some y", rotated])
      (subst sweep_pkts7.simps, auto simp: icmp_send_packet7_eq split: list.splits sum.splits if_splits)
qed

lemma sweep_reqs7_eq: "sweep_reqs7 now i s = sweep_reqs now i s"
proof (rule option_eqI)
  fix y assume "sweep_reqs7 now i s = Some y"
  then show "sweep_reqs now i s = Some y"
    by (rule sweep_reqs7.raw_induct [where P = "\<lambda>now i s y. sweep_reqs now i s = Some y", rotated])
      (subst sweep_reqs.simps, auto simp: sweep_pkts7_eq Let_def bind_eq_Some_conv split: sum.splits if_splits)
next
  fix y assume "sweep_reqs now i s = Some y"
  then show "sweep_reqs7 now i s = Some y"
    by (rule sweep_reqs.raw_induct [where P = "\<lambda>now i s y. sweep_reqs7 now i s = Some y", rotated])
      (subst sweep_reqs7.simps, auto simp: sweep_pkts7_eq Let_def bind_eq_Some_conv split: sum.splits if_splits)
qed

lemma arpcache_sweep7_eq: "arpcache_sweep7 = arpcache_sweep"
  by (rule ext) (simp add: arpcache_sweep7_def arpcache_sweep_def sweep_reqs7_eq)

lemma length_icmp_packet7: "34 \<le> length (fst (icmp_packet7 p type code e s))"
proof -
  have "n \<le> length q \<Longrightarrow> n \<le> length (fst (ip_init_hdr7 q sa da len proto s))" for n q sa da len proto
    unfolding ip_init_hdr7_def Let_def split_beta fst_conv by (intro long_put)
  then show ?thesis
    unfolding icmp_packet7_def Let_def split_beta fst_conv by (intro long_put long_icmp_body) simp
qed

interpretation ic7: icmp_sender icmp_send_packet7
proof
  fix p type code s t assume "icmp_send_packet7 p type code s = Inr t"
  moreover have "snd (icmp_packet7 p type code e s) = s\<lparr>rnd_pos := Suc (rnd_pos s)\<rparr>" for e
    by (simp add: icmp_packet7_def ip_init_hdr7_def next_rand_def split_beta Let_def)
  ultimately show "t = s \<or> (\<exists>q. 34 \<le> length q \<and> t = ip_send_packet q (s\<lparr>rnd_pos := Suc (rnd_pos s)\<rparr>))"
    using length_icmp_packet7 [of p type code _ s]
    by (auto simp: icmp_send_packet7_def Let_def split_beta split: if_splits option.splits)
qed

section \<open>The invariant of the router\<close>

lemma router_inv_forward7:
  assumes "router_inv s" "ip_forward_packet7 d p s = Inr t" "34 \<le> length p"
  shows "router_inv t"
proof (cases "ip_ttl p \<le> 1")
  case True
  then show ?thesis using assms(1,2) ic7.router_inv_icmp by (auto simp: ip_forward_packet7_def)
next
  case False
  let ?q = "put 24 (bytes16 (ip_checksum7 (p[22 := ip_ttl p - 1]))) (p[22 := ip_ttl p - 1])"
  have q: "34 \<le> length ?q" using assms(3) by simp
  show ?thesis
  proof (cases "longest_prefix_match (rtable s) d")
    case None
    then show ?thesis
      using assms(1,2) False ic7.router_inv_icmp by (auto simp: ip_forward_packet7_def Let_def split: if_splits)
  next
    case (Some e)
    have "length (if_mac (rt_iface e)) = ETH_ALEN"
      using assms(1) lpm_in_table [OF Some] by (simp add: router_inv_def macs_ok_def)
    then show ?thesis
      using assms(1,2) False Some q
      by (auto simp: ip_forward_packet7_def Let_def split: if_splits intro!: router_inv_send_by_arp)
  qed
qed

lemma ip_forward_packet7_eq:
  assumes "34 \<le> length p" "2 \<le> ip_ttl p"
  shows "ip_forward_packet7 (ntohl (ip_daddr p)) p s = ip_forward_packet (ntohl (ip_daddr p)) p s"
proof -
  let ?q = "p[22 := ip_ttl p - 1]"
  have ttl: "\<not> ip_ttl p \<le> 1" "\<not> ip_ttl ?q \<le> 0"
    using assms by (auto simp: ip_ttl_def word_le_nat_alt unat_eq_0 word_unat_eq_iff unat_sub)
  have "ip_daddr (put 24 w ?q) = ip_daddr p" if "length w = 2" for w
    using assms(1) that by (simp add: ip_daddr_def ld32_def ld16_def nth_put_outside)
  moreover have "\<not> length ?q < 14 + IP_HDR_SIZE ?q \<Longrightarrow> ip_checksum7 ?q = ip_checksum ?q"
    using assms(1) by (intro ip_checksum7_eq) simp_all
  ultimately show ?thesis
    using ttl by (auto simp: ip_forward_packet7_def ip_forward_packet_def icmp_send_packet7_eq Let_def split: option.split)
qed

lemma ip_forward_packet7_expired:
  assumes "ip_ttl p < 2"
  shows "ip_forward_packet7 d p s = icmp_send_packet p ICMP_TIME_EXCEEDED ICMP_EXC_TTL s"
proof -
  have "ip_ttl p \<le> 1" using assms by (simp add: word_le_nat_alt word_less_nat_alt)
  then show ?thesis by (simp add: ip_forward_packet7_def icmp_send_packet7_eq)
qed

end
