(* ===== verification/Spf.thy ===== *)
theory Spf
  imports Rtable
begin

text \<open>
  The shortest path computation of the MOSPF router: \<^verbatim>\<open>mospf_dijkstra\<close> of
  \<^verbatim>\<open>code-exp7/mospf_daemon.c\<close> and the records of \<^verbatim>\<open>include/mospf_database.h\<close>,
  \<^verbatim>\<open>include/mospf_nbr.h\<close> and \<^verbatim>\<open>include/mospf_proto.h\<close> it works on. The list of nodes is a list
  of records. A database entry holds the advertisements that were allocated for it; reading past
  them is \<open>Out_Of_Bounds\<close>. The loop that follows the predecessors is a partial function; where it
  does not end the computation is \<open>Diverges\<close>.
\<close>

section \<open>The code\<close>

record mospf_lsa =
  network :: u32
  lmask :: u32
  lrid :: u32

record mospf_db_entry =
  db_rid :: u32
  db_seq :: u16
  nadv :: int
  db_alive :: int
  array :: "mospf_lsa list"

record mospf_nbr =
  nbr_id :: u32
  nbr_ip :: u32
  nbr_mask :: u32
  nbr_alive :: int

record mospf_iface =
  mi_iface :: iface_info
  helloint :: int
  num_nbr :: int
  nbr_list :: "mospf_nbr list"

record dijkstra_node =
  dn_rid :: u32
  cost :: int
  pre :: u32
  visited :: bool

definition INT_MAX :: int where "INT_MAX = 2147483647"

text \<open>The advertisements the loops \<^verbatim>\<open>for (i = 0; i < nadv; i++)\<close> read.\<close>

definition lsas :: "mospf_db_entry \<Rightarrow> mospf_lsa list res" where
  "lsas e = (if nadv e > int (length (array e)) then Inl Out_Of_Bounds
             else Inr (take (nat (nadv e)) (array e)))"

definition db_nodes :: "u32 \<Rightarrow> mospf_db_entry list \<Rightarrow> dijkstra_node list" where
  "db_nodes self db =
     map (\<lambda>e. \<lparr>dn_rid = db_rid e, cost = (if db_rid e = self then 0 else INT_MAX), pre = 0,
               visited = False\<rparr>) db"

definition add_self :: "u32 \<Rightarrow> mospf_db_entry list \<Rightarrow> dijkstra_node list \<Rightarrow> dijkstra_node list" where
  "add_self self db ns =
     (if \<exists>e\<in>set db. db_rid e = self then ns
      else ns @ [\<lparr>dn_rid = self, cost = 0, pre = 0, visited = False\<rparr>])"

fun upd_first :: "u32 \<Rightarrow> (dijkstra_node \<Rightarrow> dijkstra_node) \<Rightarrow> dijkstra_node list \<Rightarrow> dijkstra_node list" where
  "upd_first r f [] = []"
| "upd_first r f (n # ns) = (if dn_rid n = r then f n # ns else n # upd_first r f ns)"

definition add_nbr :: "u32 \<Rightarrow> mospf_nbr \<Rightarrow> dijkstra_node list \<Rightarrow> dijkstra_node list" where
  "add_nbr self nbr ns =
     (if \<exists>n\<in>set ns. dn_rid n = nbr_id nbr
      then upd_first (nbr_id nbr) (\<lambda>n. if cost n > 1 then n\<lparr>cost := 1, pre := self\<rparr> else n) ns
      else ns @ [\<lparr>dn_rid = nbr_id nbr, cost = 1, pre = self, visited = False\<rparr>])"

definition init_nodes :: "u32 \<Rightarrow> mospf_db_entry list \<Rightarrow> mospf_iface list \<Rightarrow> dijkstra_node list" where
  "init_nodes self db ifs =
     fold (add_nbr self) (concat (map nbr_list ifs)) (add_self self db (db_nodes self db))"

text \<open>The position of the first unvisited node of least cost.\<close>

fun min_loop :: "nat \<Rightarrow> dijkstra_node list \<Rightarrow> int \<Rightarrow> nat option \<Rightarrow> nat option" where
  "min_loop i [] min_cost u = u"
| "min_loop i (n # ns) min_cost u =
     (if \<not> visited n \<and> cost n < min_cost then min_loop (Suc i) ns (cost n) (Some i)
      else min_loop (Suc i) ns min_cost u)"

definition relax :: "u32 \<Rightarrow> int \<Rightarrow> mospf_lsa \<Rightarrow> dijkstra_node list \<Rightarrow> dijkstra_node list" where
  "relax u_rid u_cost l ns =
     upd_first (lrid l)
       (\<lambda>v. if \<not> visited v \<and> u_cost + 1 < cost v then v\<lparr>cost := u_cost + 1, pre := u_rid\<rparr> else v) ns"

definition visit :: "mospf_db_entry list \<Rightarrow> nat \<Rightarrow> dijkstra_node list \<Rightarrow> dijkstra_node list res" where
  "visit db i ns =
     (let u = ns ! i;
          ns = ns[i := u\<lparr>visited := True\<rparr>]
      in case find (\<lambda>e. db_rid e = dn_rid u) db of
           None \<Rightarrow> Inr ns
         | Some e \<Rightarrow> res_map (\<lambda>ls. fold (relax (dn_rid u) (cost u)) ls ns) (lsas e))"

definition unvisited :: "dijkstra_node list \<Rightarrow> nat" where
  "unvisited ns = length (filter (\<lambda>n. \<not> visited n) ns)"

lemma min_loop_Some:
  "min_loop i ns m b = Some k \<Longrightarrow>
   b = Some k \<or> (i \<le> k \<and> k < i + length ns \<and> \<not> visited (ns ! (k - i)) \<and> cost (ns ! (k - i)) < m)"
proof (induction i ns m b rule: min_loop.induct)
  case (2 i n ns m b)
  show ?case
  proof (cases "\<not> visited n \<and> cost n < m")
    case True
    then have "Some i = Some k \<or> (Suc i \<le> k \<and> k < Suc i + length ns \<and> \<not> visited (ns ! (k - Suc i)) \<and>
        cost (ns ! (k - Suc i)) < cost n)" using 2 by simp
    then show ?thesis using True by (auto simp: nth_Cons')
  next
    case False
    then have "b = Some k \<or> (Suc i \<le> k \<and> k < Suc i + length ns \<and> \<not> visited (ns ! (k - Suc i)) \<and>
        cost (ns ! (k - Suc i)) < m)" using 2 by (auto split: if_splits)
    then show ?thesis by (auto simp: nth_Cons')
  qed
qed simp

lemma filter_upd_first:
  "(\<And>n. visited (f n) = visited n) \<Longrightarrow> unvisited (upd_first r f ns) = unvisited ns"
  by (induction ns) (auto simp: unvisited_def)

lemma unvisited_relax: "unvisited (fold (relax r c) ls ns) = unvisited ns"
  by (induction ls arbitrary: ns) (simp_all add: relax_def filter_upd_first)

lemma unvisited_update:
  "i < length ns \<Longrightarrow> \<not> visited (ns ! i) \<Longrightarrow>
   unvisited ns = Suc (unvisited (ns[i := (ns ! i)\<lparr>visited := True\<rparr>]))"
proof (induction ns arbitrary: i)
  case (Cons n ns)
  then show ?case by (cases i) (auto simp: unvisited_def)
qed simp

lemma visit_unvisited:
  assumes "min_loop 0 ns INT_MAX None = Some i" "visit db i ns = Inr ns'"
  shows "unvisited ns' < unvisited ns"
proof -
  have i: "i < length ns" "\<not> visited (ns ! i)" using min_loop_Some [OF assms(1)] by auto
  then show ?thesis
    using assms(2) unvisited_update [OF i]
    by (auto simp: visit_def Let_def res_map_def unvisited_relax res_simps split: option.splits)
qed

text \<open>The main loop: visit nodes until no unvisited node has a finite cost.\<close>

function dijkstra_loop :: "mospf_db_entry list \<Rightarrow> dijkstra_node list \<Rightarrow> dijkstra_node list res" where
  "dijkstra_loop db ns =
     (case min_loop 0 ns INT_MAX None of
        None \<Rightarrow> Inr ns
      | Some i \<Rightarrow>
          (case visit db i ns of Inl e \<Rightarrow> Inl e | Inr ns' \<Rightarrow> dijkstra_loop db ns'))"
  by pat_completeness auto
termination
  by (relation "measure (\<lambda>(db, ns). unvisited ns)") (simp_all add: visit_unvisited)

declare dijkstra_loop.simps [simp del]

text \<open>Following the predecessors from \<open>cur\<close> to the router next to this one.\<close>

partial_function (option) next_hop_rid :: "u32 \<Rightarrow> dijkstra_node list \<Rightarrow> u32 \<Rightarrow> u32 option" where
  "next_hop_rid self ns cur =
     (case find (\<lambda>n. dn_rid n = cur) ns of
        None \<Rightarrow> Some cur
      | Some n \<Rightarrow>
          if pre n = self \<or> pre n = - 1 then Some cur else next_hop_rid self ns (pre n))"

fun find_nbr :: "u32 \<Rightarrow> mospf_iface list \<Rightarrow> (iface_info \<times> mospf_nbr) option" where
  "find_nbr r [] = None"
| "find_nbr r (i # ifs) =
     (case find (\<lambda>n. nbr_id n = r) (nbr_list i) of
        Some n \<Rightarrow> Some (mi_iface i, n)
      | None \<Rightarrow> find_nbr r ifs)"

definition add_route :: "mospf_lsa \<Rightarrow> iface_info \<Rightarrow> mospf_nbr \<Rightarrow> rt_entry list \<Rightarrow> rt_entry list" where
  "add_route l iface nbr rt =
     (if \<exists>e\<in>set rt. dest e = network l \<and> mask e = lmask l then rt
      else rt @ [new_rt_entry (network l) (lmask l) (nbr_ip nbr) iface])"

fun lsa_routes :: "u32 \<Rightarrow> mospf_iface list \<Rightarrow> dijkstra_node list \<Rightarrow> u32 \<Rightarrow> mospf_lsa list \<Rightarrow> rt_entry list
    \<Rightarrow> rt_entry list res" where
  "lsa_routes self ifs ns r [] rt = Inr rt"
| "lsa_routes self ifs ns r (l # ls) rt =
     (case next_hop_rid self ns r of
        None \<Rightarrow> Inl Diverges
      | Some prev \<Rightarrow>
          lsa_routes self ifs ns r ls
            (case find_nbr prev ifs of
               None \<Rightarrow> rt
             | Some (iface, nbr) \<Rightarrow> add_route l iface nbr rt))"

fun db_routes :: "u32 \<Rightarrow> mospf_iface list \<Rightarrow> dijkstra_node list \<Rightarrow> mospf_db_entry list \<Rightarrow> rt_entry list
    \<Rightarrow> rt_entry list res" where
  "db_routes self ifs ns [] rt = Inr rt"
| "db_routes self ifs ns (e # es) rt =
     (if db_rid e = self then db_routes self ifs ns es rt
      else res_bind (lsas e) (\<lambda>ls.
             res_bind (lsa_routes self ifs ns (db_rid e) ls rt) (db_routes self ifs ns es)))"

definition mospf_dijkstra ::
    "u32 \<Rightarrow> mospf_db_entry list \<Rightarrow> mospf_iface list \<Rightarrow> rt_entry list \<Rightarrow> rt_entry list res" where
  "mospf_dijkstra self db ifs routing_table =
     res_bind (dijkstra_loop db (init_nodes self db ifs))
       (\<lambda>ns. db_routes self ifs ns db routing_table)"

section \<open>Updating the node of one router\<close>

definition rids :: "dijkstra_node list \<Rightarrow> u32 list" where
  "rids ns = map dn_rid ns"

lemma upd_first_map:
  "distinct (rids ns) \<Longrightarrow> upd_first r f ns = map (\<lambda>n. if dn_rid n = r then f n else n) ns"
proof (induction ns)
  case (Cons n ns)
  then have "dn_rid n = r \<Longrightarrow> map (\<lambda>n. if dn_rid n = r then f n else n) ns = ns"
    by (intro map_idI) (auto simp: rids_def image_iff)
  then show ?case using Cons by (simp add: rids_def)
qed simp

lemma update_nth_map:
  assumes "distinct (rids ns)" "i < length ns"
  shows "ns[i := f (ns ! i)] = map (\<lambda>n. if dn_rid n = dn_rid (ns ! i) then f n else n) ns"
proof (rule nth_equalityI)
  fix k assume "k < length (ns[i := f (ns ! i)])"
  then have k: "k < length ns" by simp
  have "dn_rid (ns ! k) = dn_rid (ns ! i) \<longleftrightarrow> k = i"
    using assms k by (auto simp: rids_def distinct_conv_nth)
  then show "ns[i := f (ns ! i)] ! k = map (\<lambda>n. if dn_rid n = dn_rid (ns ! i) then f n else n) ns ! k"
    using k assms(2) by (auto simp: nth_list_update)
qed simp

definition relax_node :: "u32 set \<Rightarrow> u32 \<Rightarrow> int \<Rightarrow> dijkstra_node \<Rightarrow> dijkstra_node" where
  "relax_node adj r c v =
     (if dn_rid v \<in> adj \<and> \<not> visited v \<and> c + 1 < cost v then v\<lparr>cost := c + 1, pre := r\<rparr> else v)"

lemma dn_rid_relax [simp]: "dn_rid (relax_node adj r c v) = dn_rid v"
  by (simp add: relax_node_def)

lemma relax_node_insert: "relax_node A r c (relax_node {l} r c v) = relax_node (insert l A) r c v"
  by (auto simp: relax_node_def)

lemma find_SomeD: "find P xs = Some x \<Longrightarrow> x \<in> set xs \<and> P x"
  by (auto simp: find_Some_iff)

lemma relax_map:
  assumes "distinct (rids ns)"
  shows "relax r c l ns = map (relax_node {lrid l} r c) ns"
  unfolding relax_def upd_first_map [OF assms] by (simp add: relax_node_def)

lemma relax_fold_map:
  "distinct (rids ns) \<Longrightarrow> fold (relax r c) ls ns = map (relax_node (lrid ` set ls) r c) ns"
proof (induction ls arbitrary: ns)
  case Nil
  then show ?case by (simp add: relax_node_def)
next
  case (Cons l ls)
  have "distinct (rids (map (relax_node {lrid l} r c) ns))"
    using Cons.prems by (simp add: rids_def comp_def)
  then show ?case
    using Cons by (simp add: relax_map comp_def relax_node_insert)
qed

section \<open>The graph\<close>

text \<open>A router is adjacent to what it advertises; this router is adjacent to its neighbours.\<close>

definition adv :: "mospf_db_entry list \<Rightarrow> u32 \<Rightarrow> u32 set" where
  "adv db r = (case find (\<lambda>e. db_rid e = r) db of
                 None \<Rightarrow> {}
               | Some e \<Rightarrow> lrid ` set (take (nat (nadv e)) (array e)))"

definition nbrs :: "mospf_iface list \<Rightarrow> u32 set" where
  "nbrs ifs = nbr_id ` set (concat (map nbr_list ifs))"

definition edges :: "u32 \<Rightarrow> mospf_db_entry list \<Rightarrow> mospf_iface list \<Rightarrow> (u32 \<times> u32) set" where
  "edges self db ifs = {(u, v). v \<in> adv db u \<or> u = self \<and> v \<in> nbrs ifs}"

definition db_ok :: "mospf_db_entry list \<Rightarrow> bool" where
  "db_ok db = (\<forall>e\<in>set db. nadv e \<le> int (length (array e)))"

text \<open>One visit, as a map over the nodes.\<close>

definition visit_node :: "u32 set \<Rightarrow> u32 \<Rightarrow> int \<Rightarrow> dijkstra_node \<Rightarrow> dijkstra_node" where
  "visit_node adj r c v = (if dn_rid v = r then v\<lparr>visited := True\<rparr> else relax_node adj r c v)"

lemma visit_map:
  assumes "distinct (rids ns)" "i < length ns" "db_ok db"
  shows "visit db i ns = Inr (map (visit_node (adv db (dn_rid (ns ! i))) (dn_rid (ns ! i)) (cost (ns ! i))) ns)"
proof -
  let ?u = "ns ! i"
  let ?m = "map (\<lambda>n. if dn_rid n = dn_rid ?u then n\<lparr>visited := True\<rparr> else n) ns"
  have upd: "ns[i := ?u\<lparr>visited := True\<rparr>] = ?m"
    using update_nth_map [OF assms(1,2), of "\<lambda>n. n\<lparr>visited := True\<rparr>"] by simp
  have d: "distinct (rids ?m)"
  proof -
    have "rids ?m = rids ns" by (simp add: rids_def)
    then show ?thesis using assms(1) by simp
  qed
  have r: "map (relax_node adj (dn_rid ?u) (cost ?u)) ?m = map (visit_node adj (dn_rid ?u) (cost ?u)) ns" for adj
    by (simp add: visit_node_def relax_node_def)
  have e0: "map (relax_node {} (dn_rid ?u) (cost ?u)) ?m = ?m" by (simp add: relax_node_def)
  show ?thesis
  proof (cases "find (\<lambda>e. db_rid e = dn_rid ?u) db")
    case None
    then have "visit db i ns = Inr ?m" by (simp add: visit_def upd)
    moreover have "?m = map (visit_node {} (dn_rid ?u) (cost ?u)) ns" unfolding r [symmetric] e0 ..
    ultimately show ?thesis using None by (simp add: adv_def)
  next
    case (Some e)
    then have "lsas e = Inr (take (nat (nadv e)) (array e))"
      using assms(3) find_SomeD [OF Some] by (auto simp: lsas_def db_ok_def)
    then show ?thesis
      using Some by (simp only: visit_def Let_def upd option.case res_map_simps relax_fold_map [OF d] r)
        (simp add: adv_def)
  qed
qed

section \<open>The invariant of the search\<close>

definition spf_inv :: "u32 \<Rightarrow> mospf_db_entry list \<Rightarrow> mospf_iface list \<Rightarrow> dijkstra_node list \<Rightarrow> bool" where
  "spf_inv self db ifs ns =
     (distinct (rids ns) \<and> self \<in> set (rids ns) \<and>
      (\<forall>n\<in>set ns. dn_rid n = self \<longrightarrow> cost n = 0 \<and> pre n = 0) \<and>
      (\<forall>n\<in>set ns. 0 \<le> cost n \<and> cost n \<le> INT_MAX \<and>
         (cost n < INT_MAX \<longrightarrow> (self, dn_rid n) \<in> edges self db ifs ^^ nat (cost n))) \<and>
      (\<forall>n\<in>set ns. dn_rid n \<in> nbrs ifs \<longrightarrow> cost n \<le> 1) \<and>
      (\<forall>u\<in>set ns. \<forall>v\<in>set ns. visited u \<and> dn_rid v \<in> adv db (dn_rid u) \<longrightarrow> cost v \<le> cost u + 1) \<and>
      (\<forall>u\<in>set ns. \<forall>v\<in>set ns. visited u \<and> \<not> visited v \<longrightarrow> cost u \<le> cost v) \<and>
      (\<forall>u\<in>set ns. visited u \<longrightarrow> cost u < INT_MAX) \<and>
      (\<forall>v\<in>set ns. dn_rid v \<noteq> self \<longrightarrow>
         cost v = INT_MAX \<and> pre v = 0 \<or>
         (\<exists>u\<in>set ns. dn_rid u = pre v \<and> dn_rid v \<in> edges self db ifs `` {pre v} \<and>
            cost v = cost u + 1 \<and> cost v < INT_MAX \<and> (visited u \<or> dn_rid u = self))))"

lemma min_loop_least:
  "min_loop i ns m b = r \<Longrightarrow>
   (\<forall>n\<in>set ns. \<not> visited n \<longrightarrow> m \<le> cost n) \<and> r = b \<or>
   (\<exists>k. r = Some (i + k) \<and> k < length ns \<and> \<not> visited (ns ! k) \<and> cost (ns ! k) < m \<and>
      (\<forall>n\<in>set ns. \<not> visited n \<longrightarrow> cost (ns ! k) \<le> cost n))"
proof (induction i ns m b rule: min_loop.induct)
  case (2 i n ns m b)
  show ?case
  proof (cases "\<not> visited n \<and> cost n < m")
    case True
    then have "(\<forall>x\<in>set ns. \<not> visited x \<longrightarrow> cost n \<le> cost x) \<and> r = Some i \<or>
        (\<exists>k. r = Some (Suc i + k) \<and> k < length ns \<and> \<not> visited (ns ! k) \<and> cost (ns ! k) < cost n \<and>
          (\<forall>x\<in>set ns. \<not> visited x \<longrightarrow> cost (ns ! k) \<le> cost x))" using 2 by simp
    then show ?thesis
    proof (elim disjE exE conjE)
      assume "\<forall>x\<in>set ns. \<not> visited x \<longrightarrow> cost n \<le> cost x" "r = Some i"
      then show ?thesis using True by (intro disjI2 exI [of _ 0]) simp
    next
      fix k assume "r = Some (Suc i + k)" "k < length ns" "\<not> visited (ns ! k)" "cost (ns ! k) < cost n"
        "\<forall>x\<in>set ns. \<not> visited x \<longrightarrow> cost (ns ! k) \<le> cost x"
      then show ?thesis using True by (intro disjI2 exI [of _ "Suc k"]) auto
    qed
  next
    case False
    then have "(\<forall>x\<in>set ns. \<not> visited x \<longrightarrow> m \<le> cost x) \<and> r = b \<or>
        (\<exists>k. r = Some (Suc i + k) \<and> k < length ns \<and> \<not> visited (ns ! k) \<and> cost (ns ! k) < m \<and>
          (\<forall>x\<in>set ns. \<not> visited x \<longrightarrow> cost (ns ! k) \<le> cost x))" using 2 by (auto split: if_splits)
    then show ?thesis
    proof (elim disjE exE conjE)
      assume "\<forall>x\<in>set ns. \<not> visited x \<longrightarrow> m \<le> cost x" "r = b"
      then show ?thesis using False by auto
    next
      fix k assume "r = Some (Suc i + k)" "k < length ns" "\<not> visited (ns ! k)" "cost (ns ! k) < m"
        "\<forall>x\<in>set ns. \<not> visited x \<longrightarrow> cost (ns ! k) \<le> cost x"
      then show ?thesis using False by (intro disjI2 exI [of _ "Suc k"]) auto
    qed
  qed
qed simp

lemma spf_invD:
  assumes "spf_inv self db ifs ns"
  shows "distinct (rids ns)" "self \<in> set (rids ns)"
    "\<And>n. n \<in> set ns \<Longrightarrow> dn_rid n = self \<Longrightarrow> cost n = 0 \<and> pre n = 0"
    "\<And>n. n \<in> set ns \<Longrightarrow> 0 \<le> cost n \<and> cost n \<le> INT_MAX"
    "\<And>n. n \<in> set ns \<Longrightarrow> cost n < INT_MAX \<Longrightarrow> (self, dn_rid n) \<in> edges self db ifs ^^ nat (cost n)"
    "\<And>n. n \<in> set ns \<Longrightarrow> dn_rid n \<in> nbrs ifs \<Longrightarrow> cost n \<le> 1"
    "\<And>u v. u \<in> set ns \<Longrightarrow> v \<in> set ns \<Longrightarrow> visited u \<Longrightarrow> dn_rid v \<in> adv db (dn_rid u) \<Longrightarrow> cost v \<le> cost u + 1"
    "\<And>u v. u \<in> set ns \<Longrightarrow> v \<in> set ns \<Longrightarrow> visited u \<Longrightarrow> \<not> visited v \<Longrightarrow> cost u \<le> cost v"
    "\<And>u. u \<in> set ns \<Longrightarrow> visited u \<Longrightarrow> cost u < INT_MAX"
    "\<And>v. v \<in> set ns \<Longrightarrow> dn_rid v \<noteq> self \<Longrightarrow> cost v = INT_MAX \<and> pre v = 0 \<or>
         (\<exists>u\<in>set ns. dn_rid u = pre v \<and> dn_rid v \<in> edges self db ifs `` {pre v} \<and>
            cost v = cost u + 1 \<and> cost v < INT_MAX \<and> (visited u \<or> dn_rid u = self))"
  using assms unfolding spf_inv_def by blast+

text \<open>A visit of a least unvisited node keeps the invariant.\<close>

lemma visit_node_cases:
  fixes adj :: "u32 set" and ru :: u32 and cu :: int and v :: dijkstra_node
  defines "w \<equiv> visit_node adj ru cu v"
  shows "dn_rid w = dn_rid v" "cost w \<le> cost v"
    "cost w = cost v \<and> pre w = pre v \<or>
     cost w = cu + 1 \<and> pre w = ru \<and> dn_rid v \<in> adj \<and> dn_rid v \<noteq> ru \<and> \<not> visited v \<and> cu + 1 < cost v"
    "visited w \<longleftrightarrow> visited v \<or> dn_rid v = ru"
    "visited v \<Longrightarrow> cost w = cost v" "dn_rid v = ru \<Longrightarrow> cost w = cost v \<and> pre w = pre v"
    "dn_rid v \<in> adj \<Longrightarrow> \<not> visited v \<Longrightarrow> dn_rid v \<noteq> ru \<Longrightarrow> cost w \<le> cu + 1"
  unfolding w_def by (auto simp: visit_node_def relax_node_def)

lemma spf_inv_visit:
  assumes inv: "spf_inv self db ifs ns" and u: "u \<in> set ns" "\<not> visited u" "cost u < INT_MAX"
    and least: "\<forall>n\<in>set ns. \<not> visited n \<longrightarrow> cost u \<le> cost n"
  shows "spf_inv self db ifs (map (visit_node (adv db (dn_rid u)) (dn_rid u) (cost u)) ns)"
proof -
  let ?f = "visit_node (adv db (dn_rid u)) (dn_rid u) (cost u)"
  note I = spf_invD [OF inv]
  note f = visit_node_cases [where adj = "adv db (dn_rid u)" and ru = "dn_rid u" and cu = "cost u"]
  have uniq: "v = u" if "v \<in> set ns" "dn_rid v = dn_rid u" for v
    using I(1) that u(1) by (auto simp: rids_def distinct_map inj_on_def)
  have fu: "cost (?f u) = cost u" using f(6) [of u] by simp
  have r: "rids (map ?f ns) = rids ns" by (simp add: rids_def f(1))
  have edge: "(dn_rid u, x) \<in> edges self db ifs" if "x \<in> adv db (dn_rid u)" for x
    using that by (simp add: edges_def)
  have "cost (?f n) = 0 \<and> pre (?f n) = 0" if "n \<in> set ns" "dn_rid n = self" for n
    using f(3) [of n] I(3) [OF that] I(4) [OF u(1)] by auto
  moreover have "0 \<le> cost (?f n) \<and> cost (?f n) \<le> INT_MAX" if "n \<in> set ns" for n
    using f(3) [of n] I(4) [OF that] I(4) [OF u(1)] by auto
  moreover have "(self, dn_rid n) \<in> edges self db ifs ^^ nat (cost (?f n))"
    if n: "n \<in> set ns" and c: "cost (?f n) < INT_MAX" for n
  proof (cases "cost (?f n) = cost n")
    case True
    then show ?thesis using I(5) [OF n] c by simp
  next
    case False
    then have "cost (?f n) = cost u + 1" "dn_rid n \<in> adv db (dn_rid u)" using f(3) [of n] by auto
    then show ?thesis
      using I(5) [OF u(1,3)] edge I(4) [OF u(1)] by (auto simp: nat_add_distrib)
  qed
  moreover have "cost (?f n) \<le> 1" if "n \<in> set ns" "dn_rid n \<in> nbrs ifs" for n
    using f(2) [of n] I(6) [OF that] by linarith
  moreover have "cost (?f w) \<le> cost (?f v) + 1"
    if v: "v \<in> set ns" "w \<in> set ns" "visited (?f v)" "dn_rid w \<in> adv db (dn_rid v)" for v w
  proof (cases "visited v")
    case True
    then show ?thesis using I(7) [OF v(1,2) _ v(4)] f(2) [of w] f(5) [of v] by linarith
  next
    case False
    then have v: "v = u" using v(3) uniq [OF v(1)] f(4) [of v] by simp
    show ?thesis
    proof (cases "visited w \<or> w = u")
      case True
      then have "cost w \<le> cost u" using I(8) [OF that(2) u(1) _ u(2)] by auto
      then show ?thesis using f(2) [of w] fu unfolding v by linarith
    next
      case False
      then show ?thesis using f(7) [of w] that(2,4) v fu uniq by auto
    qed
  qed
  moreover have "cost (?f v) \<le> cost (?f w)"
    if v: "v \<in> set ns" "w \<in> set ns" "visited (?f v)" "\<not> visited (?f w)" for v w
  proof -
    have w: "\<not> visited w" "w \<noteq> u" using v(4) f(4) [of w] by auto
    have "cost (?f v) \<le> cost u"
      using v(1,3) f(4) [of v] f(5) [of v] I(8) [OF v(1) u(1) _ u(2)] uniq [OF v(1)] fu by fastforce
    moreover have "cost u \<le> cost (?f w)" using f(3) [of w] least v(2) w(1) by auto
    ultimately show ?thesis by linarith
  qed
  moreover have "cost (?f v) < INT_MAX" if "v \<in> set ns" "visited (?f v)" for v
    using f(4) [of v] f(2) [of v] I(9) [OF that(1)] u(3) that uniq [OF that(1)] by fastforce
  moreover have "cost (?f v) = INT_MAX \<and> pre (?f v) = 0 \<or>
      (\<exists>x\<in>set (map ?f ns). dn_rid x = pre (?f v) \<and> dn_rid v \<in> edges self db ifs `` {pre (?f v)} \<and>
         cost (?f v) = cost x + 1 \<and> cost (?f v) < INT_MAX \<and> (visited x \<or> dn_rid x = self))"
    if v: "v \<in> set ns" "dn_rid v \<noteq> self" for v
    using f(3) [of v]
  proof (elim disjE conjE)
    assume "cost (?f v) = cost u + 1" "pre (?f v) = dn_rid u" "dn_rid v \<in> adv db (dn_rid u)"
      "cost u + 1 < cost v"
    then show ?thesis using I(4) [OF v(1)] u fu edge f(1) [of u] f(4) [of u] by (intro disjI2 bexI [of _ "?f u"]) auto
  next
    assume same: "cost (?f v) = cost v" "pre (?f v) = pre v"
    consider "cost v = INT_MAX" "pre v = 0" | x where "x \<in> set ns" "dn_rid x = pre v"
      "dn_rid v \<in> edges self db ifs `` {pre v}" "cost v = cost x + 1" "cost v < INT_MAX"
      "visited x \<or> dn_rid x = self"
      using I(10) [OF v] by blast
    then show ?thesis
    proof cases
      case 1
      then show ?thesis using same by simp
    next
      case (2 x)
      have "cost (?f x) = cost x"
        using 2(6) f(5) [of x] f(3) [of x] I(3) [OF 2(1)] I(4) [OF u(1)] by auto
      then show ?thesis using same 2 f(1) [of x] f(4) [of x] by (intro disjI2 bexI [of _ "?f x"]) auto
    qed
  qed
  ultimately show ?thesis
    using I(1,2) unfolding spf_inv_def r by (simp add: f(1))
qed

section \<open>The start of the search\<close>

text \<open>Before the neighbours are added, and while they are.\<close>

definition start_ok :: "u32 \<Rightarrow> u32 set \<Rightarrow> dijkstra_node \<Rightarrow> bool" where
  "start_ok self D n =
     (\<not> visited n \<and>
      (if dn_rid n = self then cost n = 0 \<and> pre n = 0
       else if dn_rid n \<in> D then cost n = 1 \<and> pre n = self
       else cost n = INT_MAX \<and> pre n = 0))"

definition start_inv :: "u32 \<Rightarrow> u32 set \<Rightarrow> dijkstra_node list \<Rightarrow> bool" where
  "start_inv self D ns =
     (distinct (rids ns) \<and> self \<in> set (rids ns) \<and> (\<forall>n\<in>set ns. start_ok self D n))"

lemma start_ok_nbr:
  "start_ok self D x \<Longrightarrow>
   start_ok self (insert r D) (if dn_rid x = r then if cost x > 1 then x\<lparr>cost := 1, pre := self\<rparr> else x else x)"
  by (auto simp: start_ok_def INT_MAX_def split: if_splits)

lemma start_inv_db:
  assumes "distinct (map db_rid db)"
  shows "start_inv self {} (add_self self db (db_nodes self db))"
proof -
  have r: "rids (db_nodes self db) = map db_rid db" by (simp add: rids_def db_nodes_def)
  have n: "\<forall>n\<in>set (db_nodes self db). start_ok self {} n"
    by (auto simp: db_nodes_def start_ok_def)
  show ?thesis
  proof (cases "\<exists>e\<in>set db. db_rid e = self")
    case True
    then show ?thesis using assms n by (auto simp: start_inv_def add_self_def r image_iff)
  next
    case False
    then have "rids (add_self self db (db_nodes self db)) = map db_rid db @ [self]"
      using r by (simp add: add_self_def rids_def)
    moreover have "self \<notin> set (map db_rid db)" using False by auto
    ultimately show ?thesis using False assms n by (auto simp: start_inv_def add_self_def start_ok_def)
  qed
qed

lemma start_inv_nbr:
  assumes "start_inv self D ns"
  shows "start_inv self (insert (nbr_id n) D) (add_nbr self n ns)"
proof (cases "\<exists>x\<in>set ns. dn_rid x = nbr_id n")
  case True
  let ?f = "\<lambda>x. if cost x > 1 then x\<lparr>cost := 1, pre := self\<rparr> else x"
  let ?g = "\<lambda>x. if dn_rid x = nbr_id n then ?f x else x"
  have d: "distinct (rids ns)" using assms by (simp add: start_inv_def)
  have ns: "add_nbr self n ns = map ?g ns" using True by (simp add: add_nbr_def upd_first_map [OF d])
  have "rids (map ?g ns) = rids ns" by (simp add: rids_def)
  moreover have "start_ok self (insert (nbr_id n) D) y" if y: "y \<in> set (map ?g ns)" for y
  proof -
    obtain x where x: "y = ?g x" "x \<in> set ns" using y unfolding set_map by (rule imageE)
    then show ?thesis using assms start_ok_nbr [of self D x "nbr_id n"] by (simp only: start_inv_def)
  qed
  ultimately show ?thesis using assms unfolding ns start_inv_def by simp
next
  case False
  then have "nbr_id n \<notin> set (rids ns)" by (auto simp: rids_def)
  then show ?thesis using False assms by (auto simp: add_nbr_def start_inv_def rids_def start_ok_def)
qed

lemma start_inv_init:
  assumes "distinct (map db_rid db)"
  shows "start_inv self (nbrs ifs) (init_nodes self db ifs)"
proof -
  have "start_inv self (D \<union> nbr_id ` set ms) (fold (add_nbr self) ms ns)" if "start_inv self D ns" for D ms ns
    using that
  proof (induction ms arbitrary: D ns)
    case (Cons m ms)
    show ?case using Cons.IH [OF start_inv_nbr [OF Cons.prems]] by simp
  qed simp
  from this [OF start_inv_db [OF assms], of "concat (map nbr_list ifs)"] show ?thesis
    unfolding init_nodes_def nbrs_def by simp
qed

lemma spf_inv_init:
  assumes "distinct (map db_rid db)"
  shows "spf_inv self db ifs (init_nodes self db ifs)"
proof -
  let ?ns = "init_nodes self db ifs"
  have s: "distinct (rids ?ns)" "self \<in> set (rids ?ns)"
    and n: "\<And>n. n \<in> set ?ns \<Longrightarrow> \<not> visited n \<and>
         (if dn_rid n = self then cost n = 0 \<and> pre n = 0
          else if dn_rid n \<in> nbrs ifs then cost n = 1 \<and> pre n = self
          else cost n = INT_MAX \<and> pre n = 0)"
    using start_inv_init [OF assms] unfolding start_inv_def start_ok_def by blast+
  obtain u where u: "u \<in> set ?ns" "dn_rid u = self" using s(2) by (auto simp: rids_def)
  have u0: "cost u = 0" using n [OF u(1)] u(2) by simp
  have e: "(self, r) \<in> edges self db ifs" if "r \<in> nbrs ifs" for r using that by (simp add: edges_def)
  show ?thesis unfolding spf_inv_def
  proof (intro conjI ballI impI)
    fix v assume v: "v \<in> set ?ns" "cost v < INT_MAX"
    then show "(self, dn_rid v) \<in> edges self db ifs ^^ nat (cost v)"
      using n [OF v(1)] e by (auto split: if_splits)
  next
    fix v assume v: "v \<in> set ?ns" "dn_rid v \<noteq> self"
    show "cost v = INT_MAX \<and> pre v = 0 \<or>
       (\<exists>u\<in>set ?ns. dn_rid u = pre v \<and> dn_rid v \<in> edges self db ifs `` {pre v} \<and>
            cost v = cost u + 1 \<and> cost v < INT_MAX \<and> (visited u \<or> dn_rid u = self))"
    proof (cases "dn_rid v \<in> nbrs ifs")
      case True
      then show ?thesis using n [OF v(1)] v(2) u u0 e
        by (intro disjI2 bexI [of _ u]) (auto simp: INT_MAX_def)
    next
      case False
      then show ?thesis using n [OF v(1)] v(2) by simp
    qed
  next
    fix v assume v: "v \<in> set ?ns"
    show "0 \<le> cost v" "cost v \<le> INT_MAX" using n [OF v] by (auto simp: INT_MAX_def split: if_splits)
    show "dn_rid v \<in> nbrs ifs \<Longrightarrow> cost v \<le> 1" "dn_rid v = self \<Longrightarrow> cost v = 0" "dn_rid v = self \<Longrightarrow> pre v = 0"
      using n [OF v] by (auto split: if_splits)
    show "visited v \<Longrightarrow> cost v < INT_MAX" using n [OF v] by simp
  next
    fix v w assume "v \<in> set ?ns" "visited v \<and> dn_rid w \<in> adv db (dn_rid v)"
    then show "cost w \<le> cost v + 1" using n by blast
  next
    fix v w assume "v \<in> set ?ns" "visited v \<and> \<not> visited w"
    then show "cost v \<le> cost w" using n by blast
  qed (use s in simp_all)
qed

section \<open>The end of the search\<close>

lemma dijkstra_loop_inv:
  "db_ok db \<Longrightarrow> spf_inv self db ifs ns \<Longrightarrow>
    \<exists>ns'. dijkstra_loop db ns = Inr ns' \<and> spf_inv self db ifs ns' \<and>
      (\<forall>n\<in>set ns'. \<not> visited n \<longrightarrow> INT_MAX \<le> cost n) \<and> rids ns' = rids ns"
proof (induction db ns rule: dijkstra_loop.induct)
  case (1 db ns)
  show ?case
  proof (cases "min_loop 0 ns INT_MAX None")
    case None
    then show ?thesis using 1(3) min_loop_least [OF None] by (auto simp: dijkstra_loop.simps [of _ ns])
  next
    case (Some i)
    let ?u = "ns ! i"
    let ?ns = "map (visit_node (adv db (dn_rid ?u)) (dn_rid ?u) (cost ?u)) ns"
    have i: "i < length ns" "\<not> visited ?u" "cost ?u < INT_MAX"
      "\<forall>n\<in>set ns. \<not> visited n \<longrightarrow> cost ?u \<le> cost n"
      using min_loop_least [OF Some] by auto
    have v: "visit db i ns = Inr ?ns"
      using visit_map [OF spf_invD(1) [OF 1(3)] i(1) 1(2)] .
    have "spf_inv self db ifs ?ns" using i by (intro spf_inv_visit [OF 1(3)]) auto
    moreover have "rids ?ns = rids ns" by (simp add: rids_def visit_node_cases(1))
    moreover have "dijkstra_loop db ns = dijkstra_loop db ?ns"
      using Some v by (simp add: dijkstra_loop.simps [of db ns])
    ultimately show ?thesis using 1(1) [OF Some v 1(2)] by simp
  qed
qed

text \<open>The search is over and the invariant holds: the costs are distances.\<close>

definition spf_done :: "u32 \<Rightarrow> mospf_db_entry list \<Rightarrow> mospf_iface list \<Rightarrow> dijkstra_node list \<Rightarrow> bool" where
  "spf_done self db ifs ns =
     (spf_inv self db ifs ns \<and> (\<forall>n\<in>set ns. \<not> visited n \<longrightarrow> INT_MAX \<le> cost n) \<and>
      set (map db_rid db) \<subseteq> set (rids ns))"

lemma start_rids: "set (map db_rid db) \<subseteq> set (rids (init_nodes self db ifs))"
proof -
  have nbr: "set (rids ns) \<subseteq> set (rids (add_nbr self m ns))" for m ns
  proof -
    have "rids (upd_first r f ns) = rids ns" if "\<And>n. dn_rid (f n) = dn_rid n" for r f
      using that by (induction ns) (auto simp: rids_def)
    note u = this [of "\<lambda>n. if cost n > 1 then n\<lparr>cost := 1, pre := self\<rparr> else n"]
    show ?thesis by (auto simp: add_nbr_def u) (auto simp: rids_def)
  qed
  have "set (rids ns) \<subseteq> set (rids (fold (add_nbr self) ms ns))" for ms ns
    by (induction ms arbitrary: ns) (auto dest: nbr [THEN subsetD])
  moreover have "set (map db_rid db) \<subseteq> set (rids (add_self self db (db_nodes self db)))"
    by (auto simp: rids_def add_self_def db_nodes_def image_image)
  ultimately show ?thesis unfolding init_nodes_def by blast
qed

lemma dijkstra_done:
  assumes "distinct (map db_rid db)" "db_ok db"
  shows "\<exists>ns. dijkstra_loop db (init_nodes self db ifs) = Inr ns \<and> spf_done self db ifs ns \<and>
    rids ns = rids (init_nodes self db ifs)"
  using dijkstra_loop_inv [OF assms(2) spf_inv_init [OF assms(1)]] start_rids
  unfolding spf_done_def by metis

lemma adv_in_db: "v \<in> adv db u \<Longrightarrow> u \<in> set (map db_rid db)"
  by (auto simp: adv_def dest: find_SomeD split: option.splits)

text \<open>Every path is at least as long as the cost of its end.\<close>

lemma cost_le_path:
  assumes "spf_done self db ifs ns" "n \<in> set ns" "(self, dn_rid n) \<in> edges self db ifs ^^ k" "int k < INT_MAX"
  shows "cost n \<le> int k"
  using assms(2-4)
proof (induction k arbitrary: n)
  case 0
  then show ?case using assms(1) by (simp add: spf_done_def spf_inv_def)
next
  case (Suc k)
  have inv: "spf_inv self db ifs ns" using assms(1) by (simp add: spf_done_def)
  note I = spf_invD [OF inv]
  obtain x where x: "(self, x) \<in> edges self db ifs ^^ k" "(x, dn_rid n) \<in> edges self db ifs"
    using Suc.prems(2) by auto
  show ?case
  proof (cases "dn_rid n \<in> adv db x")
    case True
    then have "x \<in> set (rids ns)" using assms(1) adv_in_db by (auto simp: spf_done_def)
    then obtain u where u: "u \<in> set ns" "dn_rid u = x" by (auto simp: rids_def)
    have c: "cost u \<le> int k" using Suc.IH [OF u(1)] u(2) x(1) Suc.prems(3) by simp
    then have "visited u" using assms(1) u(1) Suc.prems(3) by (force simp: spf_done_def)
    then show ?thesis using I(7) [OF u(1) Suc.prems(1)] True u(2) c by simp
  next
    case False
    then have "dn_rid n \<in> nbrs ifs" using x(2) by (simp add: edges_def)
    then show ?thesis using I(6) [OF Suc.prems(1)] by simp
  qed
qed

section \<open>The next hop\<close>

lemma find_rid:
  assumes "distinct (rids ns)" "n \<in> set ns"
  shows "find (\<lambda>x. dn_rid x = dn_rid n) ns = Some n"
proof -
  obtain m where m: "find (\<lambda>x. dn_rid x = dn_rid n) ns = Some m"
    using assms(2) by (cases "find (\<lambda>x. dn_rid x = dn_rid n) ns") (auto simp: find_None_iff)
  then have "m = n"
    using find_SomeD [OF m] assms by (auto simp: rids_def distinct_map inj_on_def)
  then show ?thesis using m by simp
qed

text \<open>From a reachable router the predecessors lead to the first hop of a shortest path.\<close>

lemma next_hop_reachable:
  assumes "spf_inv self db ifs ns" "n \<in> set ns" "dn_rid n \<noteq> self" "cost n < INT_MAX" "- 1 \<notin> set (rids ns)"
  shows "\<exists>h. next_hop_rid self ns (dn_rid n) = Some h \<and> (self, h) \<in> edges self db ifs \<and>
    (h, dn_rid n) \<in> edges self db ifs ^^ (nat (cost n) - 1) \<and> 1 \<le> cost n"
  using assms(2-4)
proof (induction "nat (cost n)" arbitrary: n rule: less_induct)
  case less
  note I = spf_invD [OF assms(1)]
  obtain u where u: "u \<in> set ns" "dn_rid u = pre n" "(pre n, dn_rid n) \<in> edges self db ifs"
    "cost n = cost u + 1"
    using I(10) [OF less.prems(1,2)] less.prems(3) by fastforce
  have c: "0 \<le> cost u" using I(4) [OF u(1)] ..
  have pre: "pre n \<noteq> - 1" using u(1,2) assms(5) by (auto simp: rids_def image_iff)
  have step: "next_hop_rid self ns (dn_rid n) =
      (if pre n = self then Some (dn_rid n) else next_hop_rid self ns (pre n))"
    using pre find_rid [OF I(1) less.prems(1)] by (subst next_hop_rid.simps) simp
  show ?case
  proof (cases "pre n = self")
    case True
    then have "cost u = 0" using I(3) [OF u(1)] u(2) by simp
    then show ?thesis using step True u(3,4) by simp
  next
    case False
    obtain h where h: "next_hop_rid self ns (dn_rid u) = Some h" "(self, h) \<in> edges self db ifs"
      "(h, dn_rid u) \<in> edges self db ifs ^^ (nat (cost u) - 1)" "1 \<le> cost u"
      using less.hyps [of u] u c False less.prems(3) by auto
    have "nat (cost n) - 1 = Suc (nat (cost u) - 1)" using u(4) h(4) by simp
    moreover have "(h, dn_rid n) \<in> edges self db ifs ^^ Suc (nat (cost u) - 1)"
      using h(3) u(2,3) by auto
    ultimately show ?thesis using h step False u(2,4) by simp
  qed
qed

lemma next_hop_unreachable:
  assumes "spf_inv self db ifs ns" "n \<in> set ns" "cost n = INT_MAX" "self \<noteq> 0" "0 \<notin> set (rids ns)"
  shows "next_hop_rid self ns (dn_rid n) = Some 0"
proof -
  note I = spf_invD [OF assms(1)]
  have "dn_rid n \<noteq> self" using I(3) [OF assms(2)] assms(3) by (auto simp: INT_MAX_def)
  then have "pre n = 0" using I(10) [OF assms(2)] assms(3) by auto
  moreover have "find (\<lambda>x. dn_rid x = 0) ns = None"
    using assms(5) by (auto simp: find_None_iff rids_def)
  then have "next_hop_rid self ns 0 = Some 0" by (subst next_hop_rid.simps) simp
  ultimately show ?thesis
    using find_rid [OF I(1) assms(2)] assms(4) by (subst next_hop_rid.simps) simp
qed

text \<open>A router with identifier 0 is its own predecessor when it is not reached.\<close>

lemma next_hop_diverges:
  assumes "find (\<lambda>n. dn_rid n = r) ns = Some n" "pre n = r" "r \<noteq> self" "r \<noteq> - 1"
  shows "next_hop_rid self ns r = None"
proof -
  have "\<not> (c = r)" if eq: "next_hop_rid self ns c = Some y" for c y
  proof (rule next_hop_rid.raw_induct [of "\<lambda>s m c y. s = self \<longrightarrow> m = ns \<longrightarrow> c \<noteq> r" self ns c y, THEN mp, THEN mp])
    fix f s m c y
    assume IH: "\<And>s m c y. f s m c = Some y \<Longrightarrow> s = self \<longrightarrow> m = ns \<longrightarrow> c \<noteq> r"
      and step: "(case find (\<lambda>n. dn_rid n = c) m of None \<Rightarrow> Some c
        | Some n \<Rightarrow> if pre n = s \<or> pre n = - 1 then Some c else f s m (pre n)) = Some y"
    show "s = self \<longrightarrow> m = ns \<longrightarrow> c \<noteq> r"
    proof (intro impI notI)
      assume "s = self" "m = ns" "c = r"
      then have "f self ns r = Some y" using step assms by simp
      then show False using IH by blast
    qed
  qed (use eq in simp_all)
  then show ?thesis by (cases "next_hop_rid self ns r") auto
qed

section \<open>The routes\<close>

definition hop_dist :: "u32 \<Rightarrow> mospf_db_entry list \<Rightarrow> mospf_iface list \<Rightarrow> u32 \<Rightarrow> nat \<Rightarrow> bool" where
  "hop_dist self db ifs r k =
     (int k < INT_MAX \<and> (self, r) \<in> edges self db ifs ^^ k \<and>
      (\<forall>j<k. (self, r) \<notin> edges self db ifs ^^ j))"

lemma spf_done_dist:
  assumes "spf_done self db ifs ns" "n \<in> set ns"
  shows "cost n < INT_MAX \<Longrightarrow> hop_dist self db ifs (dn_rid n) (nat (cost n))"
    "hop_dist self db ifs (dn_rid n) k \<Longrightarrow> cost n = int k"
proof -
  have inv: "spf_inv self db ifs ns" using assms(1) by (simp add: spf_done_def)
  note I = spf_invD [OF inv]
  show *: "hop_dist self db ifs (dn_rid n) (nat (cost n))" if c: "cost n < INT_MAX"
  proof -
    have "(self, dn_rid n) \<notin> edges self db ifs ^^ j" if "j < nat (cost n)" for j
      using cost_le_path [OF assms, of j] that c by fastforce
    then show ?thesis using I(4,5) [OF assms(2)] c by (simp add: hop_dist_def)
  qed
  assume k: "hop_dist self db ifs (dn_rid n) k"
  then have "cost n \<le> int k" using cost_le_path [OF assms, of k] by (simp add: hop_dist_def)
  moreover from this have "(self, dn_rid n) \<in> edges self db ifs ^^ nat (cost n)"
    using I(5) [OF assms(2)] k by (simp add: hop_dist_def)
  then have "\<not> nat (cost n) < k" using k by (auto simp: hop_dist_def)
  ultimately show "cost n = int k" using I(4) [OF assms(2)] by linarith
qed

text \<open>The predecessors: a node that is reached has one a step nearer.\<close>

lemma spf_done_pre:
  assumes "spf_done self db ifs ns"
  shows "\<forall>n\<in>set ns. if dn_rid n = self then pre n = 0
       else if \<exists>k. hop_dist self db ifs (dn_rid n) k
       then (pre n, dn_rid n) \<in> edges self db ifs \<and> hop_dist self db ifs (pre n) (nat (cost n) - 1) \<and> 1 \<le> cost n
       else cost n = INT_MAX \<and> pre n = 0"
proof
  fix n assume n: "n \<in> set ns"
  have inv: "spf_inv self db ifs ns" using assms by (simp add: spf_done_def)
  note I = spf_invD [OF inv]
  have reached: "(\<exists>k. hop_dist self db ifs (dn_rid n) k) \<longleftrightarrow> cost n < INT_MAX"
  proof
    assume "\<exists>k. hop_dist self db ifs (dn_rid n) k"
    then obtain k where k: "hop_dist self db ifs (dn_rid n) k" by blast
    then have "int k < INT_MAX" unfolding hop_dist_def by blast
    then show "cost n < INT_MAX" using spf_done_dist(2) [OF assms n k] by simp
  qed (use spf_done_dist(1) [OF assms n] in blast)
  show "if dn_rid n = self then pre n = 0
       else if \<exists>k. hop_dist self db ifs (dn_rid n) k
       then (pre n, dn_rid n) \<in> edges self db ifs \<and> hop_dist self db ifs (pre n) (nat (cost n) - 1) \<and> 1 \<le> cost n
       else cost n = INT_MAX \<and> pre n = 0"
  proof (cases "dn_rid n = self")
    case True
    then show ?thesis using I(3) [OF n] by simp
  next
    case False
    show ?thesis
    proof (cases "cost n < INT_MAX")
      case True
      then obtain u where u: "u \<in> set ns" "dn_rid u = pre n" "(pre n, dn_rid n) \<in> edges self db ifs" "cost n = cost u + 1"
        using I(10) [OF n False] by auto
      have "hop_dist self db ifs (pre n) (nat (cost u))" using spf_done_dist(1) [OF assms u(1)] u(2,4) True by simp
      moreover have "nat (cost n) - 1 = nat (cost u)" "1 \<le> cost n" using u(4) I(4) [OF u(1)] by simp_all
      ultimately show ?thesis using False True reached u(3) by simp
    next
      case c: False
      then have "\<not> (\<exists>k. hop_dist self db ifs (dn_rid n) k)" using reached by blast
      then show ?thesis using c False I(10) [OF n False] by (simp only: if_False) auto
    qed
  qed
qed

definition via :: "mospf_lsa list \<Rightarrow> (iface_info \<times> mospf_nbr) option \<Rightarrow> rt_entry list \<Rightarrow> rt_entry list" where
  "via ls g rt = (case g of None \<Rightarrow> rt | Some (i, n) \<Rightarrow> fold (\<lambda>l. add_route l i n) ls rt)"

lemma lsa_routes_via:
  "next_hop_rid self ns r = Some h \<Longrightarrow> lsa_routes self ifs ns r ls rt = Inr (via ls (find_nbr h ifs) rt)"
  by (induction ls arbitrary: rt) (auto simp: via_def split: option.split)

lemma add_route_split:
  "\<exists>news. add_route l i n rt = rt @ news \<and>
     (\<forall>e\<in>set news. e = new_rt_entry (network l) (lmask l) (nbr_ip n) i) \<and>
     (\<exists>e\<in>set (rt @ news). dest e = network l \<and> mask e = lmask l)"
  by (auto simp: add_route_def new_rt_entry_def)

lemma via_split:
  "\<exists>news. via ls g rt = rt @ news \<and>
     (\<forall>e\<in>set news. \<exists>l\<in>set ls. \<exists>i n. g = Some (i, n) \<and> e = new_rt_entry (network l) (lmask l) (nbr_ip n) i) \<and>
     (g \<noteq> None \<longrightarrow> (\<forall>l\<in>set ls. \<exists>e\<in>set (rt @ news). dest e = network l \<and> mask e = lmask l))"
proof (cases g)
  case (Some p)
  obtain i n where p: "p = (i, n)" by (cases p)
  have "\<exists>news. fold (\<lambda>l. add_route l i n) ls rt = rt @ news \<and>
     (\<forall>e\<in>set news. \<exists>l\<in>set ls. e = new_rt_entry (network l) (lmask l) (nbr_ip n) i) \<and>
     (\<forall>l\<in>set ls. \<exists>e\<in>set (rt @ news). dest e = network l \<and> mask e = lmask l)"
  proof (induction ls arbitrary: rt)
    case (Cons l ls)
    obtain as where as: "add_route l i n rt = rt @ as"
      "\<forall>e\<in>set as. e = new_rt_entry (network l) (lmask l) (nbr_ip n) i"
      "\<exists>e\<in>set (rt @ as). dest e = network l \<and> mask e = lmask l" using add_route_split by blast
    obtain bs where bs: "fold (\<lambda>l. add_route l i n) ls (rt @ as) = (rt @ as) @ bs"
      "\<forall>e\<in>set bs. \<exists>l\<in>set ls. e = new_rt_entry (network l) (lmask l) (nbr_ip n) i"
      "\<forall>l\<in>set ls. \<exists>e\<in>set ((rt @ as) @ bs). dest e = network l \<and> mask e = lmask l"
      using Cons.IH by blast
    have "fold (\<lambda>l. add_route l i n) (l # ls) rt = rt @ (as @ bs)" using as(1) bs(1) by simp
    moreover have "\<forall>e\<in>set (as @ bs). \<exists>l\<in>set (l # ls). e = new_rt_entry (network l) (lmask l) (nbr_ip n) i"
      using as(2) bs(2) by auto
    moreover have "\<forall>k\<in>set (l # ls). \<exists>e\<in>set (rt @ as @ bs). dest e = network k \<and> mask e = lmask k"
      using as(3) bs(3) by auto
    ultimately show ?case by blast
  qed simp
  then show ?thesis using Some p by (simp add: via_def)
qed (simp add: via_def)

lemma find_nbr_Some: "find_nbr h ifs = Some (i, n) \<Longrightarrow>
    nbr_id n = h \<and> (\<exists>m\<in>set ifs. mi_iface m = i \<and> n \<in> set (nbr_list m))"
  by (induction ifs) (auto dest: find_SomeD split: option.splits)

lemma find_nbr_None: "find_nbr h ifs = None \<longleftrightarrow> h \<notin> nbrs ifs"
  by (induction ifs) (auto simp: nbrs_def find_None_iff dest!: find_SomeD split: option.splits)

text \<open>What a route stands for: a network of a router, through the first hop of a shortest path.\<close>

definition route_ok :: "u32 \<Rightarrow> mospf_db_entry list \<Rightarrow> mospf_iface list \<Rightarrow> rt_entry \<Rightarrow> bool" where
  "route_ok self db ifs e =
     (\<exists>d\<in>set db. \<exists>l\<in>set (take (nat (nadv d)) (array d)). \<exists>m\<in>set ifs. \<exists>n\<in>set (nbr_list m). \<exists>k.
        e = new_rt_entry (network l) (lmask l) (nbr_ip n) (mi_iface m) \<and>
        hop_dist self db ifs (db_rid d) (Suc k) \<and> (nbr_id n, db_rid d) \<in> edges self db ifs ^^ k)"

definition ids_ok :: "u32 \<Rightarrow> mospf_db_entry list \<Rightarrow> mospf_iface list \<Rightarrow> bool" where
  "ids_ok self db ifs =
     (distinct (map db_rid db) \<and> db_ok db \<and> self \<notin> set (map db_rid db) \<and>
      (\<forall>r \<in> insert self (set (map db_rid db) \<union> nbrs ifs). r \<noteq> 0 \<and> r \<noteq> - 1))"

lemma init_rids_subset:
  "set (rids (init_nodes self db ifs)) \<subseteq> insert self (set (map db_rid db) \<union> nbrs ifs)"
proof -
  have u: "set (rids (add_nbr self m ns)) \<subseteq> insert (nbr_id m) (set (rids ns))" for m ns
  proof -
    have "rids (upd_first r f ns) = rids ns" if "\<And>n. dn_rid (f n) = dn_rid n" for r f
      using that by (induction ns) (auto simp: rids_def)
    note u = this [of "\<lambda>n. if cost n > 1 then n\<lparr>cost := 1, pre := self\<rparr> else n"]
    show ?thesis by (auto simp: add_nbr_def u) (auto simp: rids_def)
  qed
  have "set (rids (fold (add_nbr self) ms ns)) \<subseteq> set (rids ns) \<union> nbr_id ` set ms" for ms ns
  proof (induction ms arbitrary: ns)
    case (Cons m ms)
    show ?case using Cons [of "add_nbr self m ns"] u [of m ns] by auto
  qed simp
  moreover have "set (rids (add_self self db (db_nodes self db))) \<subseteq> insert self (set (map db_rid db))"
    by (auto simp: rids_def add_self_def db_nodes_def)
  ultimately show ?thesis unfolding init_nodes_def nbrs_def by blast
qed

lemma self_edges:
  assumes "ids_ok self db ifs" "(self, h) \<in> edges self db ifs"
  shows "h \<in> nbrs ifs"
  using assms adv_in_db [of h db self] by (auto simp: edges_def ids_ok_def)

text \<open>The routes of one reachable or unreachable router.\<close>

lemma entry_routes:
  assumes ids: "ids_ok self db ifs" and fin: "spf_done self db ifs ns"
    and sub: "set (rids ns) \<subseteq> insert self (set (map db_rid db) \<union> nbrs ifs)" and d: "d \<in> set db"
  shows "\<exists>news. res_bind (lsas d) (\<lambda>ls. lsa_routes self ifs ns (db_rid d) ls rt) = Inr (rt @ news) \<and>
    (\<forall>e\<in>set news. route_ok self db ifs e) \<and>
    ((\<exists>k. hop_dist self db ifs (db_rid d) k) \<longrightarrow>
      (\<forall>l\<in>set (take (nat (nadv d)) (array d)). \<exists>e\<in>set (rt @ news). dest e = network l \<and> mask e = lmask l))"
proof -
  let ?ls = "take (nat (nadv d)) (array d)"
  have inv: "spf_inv self db ifs ns" using fin by (simp add: spf_done_def)
  have l: "lsas d = Inr ?ls" using ids d by (auto simp: lsas_def ids_ok_def db_ok_def)
  have "db_rid d \<in> set (rids ns)" using fin d by (auto simp: spf_done_def)
  then obtain n where n: "n \<in> set ns" "dn_rid n = db_rid d" by (auto simp: rids_def)
  have self: "dn_rid n \<noteq> self" "self \<noteq> 0" using ids d n(2) by (auto simp: ids_ok_def)
  have rids: "0 \<notin> set (rids ns)" "- 1 \<notin> set (rids ns)" using sub ids by (auto simp: ids_ok_def)
  show ?thesis
  proof (cases "cost n < INT_MAX")
    case True
    obtain h where h: "next_hop_rid self ns (db_rid d) = Some h" "(self, h) \<in> edges self db ifs"
      "(h, db_rid d) \<in> edges self db ifs ^^ (nat (cost n) - 1)" "1 \<le> cost n"
      using next_hop_reachable [OF inv n(1) self(1) True rids(2)] n(2) by auto
    have k: "hop_dist self db ifs (db_rid d) (Suc (nat (cost n) - 1))"
      using spf_done_dist(1) [OF fin n(1) True] n(2) h(4) by (simp add: Suc_nat_eq_nat_zadd1)
    obtain i m where g: "find_nbr h ifs = Some (i, m)"
      using self_edges [OF ids h(2)] find_nbr_None [of h ifs] by (cases "find_nbr h ifs") auto
    obtain news where v: "via ?ls (find_nbr h ifs) rt = rt @ news"
      "\<forall>e\<in>set news. \<exists>l\<in>set ?ls. e = new_rt_entry (network l) (lmask l) (nbr_ip m) i"
      "\<forall>l\<in>set ?ls. \<exists>e\<in>set (rt @ news). dest e = network l \<and> mask e = lmask l"
      using via_split [of ?ls "find_nbr h ifs" rt] g by auto
    have "\<forall>e\<in>set news. route_ok self db ifs e"
      using v(2) d k h(3) find_nbr_Some [OF g] unfolding route_ok_def by metis
    then show ?thesis using l lsa_routes_via [OF h(1)] v by auto
  next
    case False
    then have c: "cost n = INT_MAX" using spf_invD(4) [OF inv n(1)] by simp
    have z: "next_hop_rid self ns (db_rid d) = Some 0"
      using next_hop_unreachable [OF inv n(1) c self(2) rids(1)] n(2) by simp
    have "find_nbr 0 ifs = None" using ids by (auto simp: find_nbr_None ids_ok_def)
    moreover have "\<not> hop_dist self db ifs (db_rid d) k" for k
      using spf_done_dist(2) [OF fin n(1), of k] n(2) c by (auto simp: hop_dist_def)
    ultimately show ?thesis
      using l lsa_routes_via [OF z, of ifs ?ls rt] by (intro exI [of _ "[]"]) (simp add: via_def)
  qed
qed

lemma db_routes_ok:
  assumes ids: "ids_ok self db ifs" and fin: "spf_done self db ifs ns"
    and sub: "set (rids ns) \<subseteq> insert self (set (map db_rid db) \<union> nbrs ifs)"
  shows "set es \<subseteq> set db \<Longrightarrow> \<exists>news. db_routes self ifs ns es rt = Inr (rt @ news) \<and>
    (\<forall>e\<in>set news. route_ok self db ifs e) \<and>
    (\<forall>d\<in>set es. (\<exists>k. hop_dist self db ifs (db_rid d) k) \<longrightarrow>
      (\<forall>l\<in>set (take (nat (nadv d)) (array d)). \<exists>e\<in>set (rt @ news). dest e = network l \<and> mask e = lmask l))"
proof (induction es arbitrary: rt)
  case (Cons d es)
  have d: "d \<in> set db" "db_rid d \<noteq> self" using Cons.prems ids by (auto simp: ids_ok_def)
  obtain as where as: "res_bind (lsas d) (\<lambda>ls. lsa_routes self ifs ns (db_rid d) ls rt) = Inr (rt @ as)"
    "\<forall>e\<in>set as. route_ok self db ifs e"
    "(\<exists>k. hop_dist self db ifs (db_rid d) k) \<longrightarrow>
      (\<forall>l\<in>set (take (nat (nadv d)) (array d)). \<exists>e\<in>set (rt @ as). dest e = network l \<and> mask e = lmask l)"
    using entry_routes [OF ids fin sub d(1)] by blast
  obtain bs where bs: "db_routes self ifs ns es (rt @ as) = Inr ((rt @ as) @ bs)"
    "\<forall>e\<in>set bs. route_ok self db ifs e"
    "\<forall>d\<in>set es. (\<exists>k. hop_dist self db ifs (db_rid d) k) \<longrightarrow>
      (\<forall>l\<in>set (take (nat (nadv d)) (array d)). \<exists>e\<in>set ((rt @ as) @ bs). dest e = network l \<and> mask e = lmask l)"
    using Cons.IH [of "rt @ as"] Cons.prems by auto
  have "db_routes self ifs ns (d # es) rt =
      res_bind (res_bind (lsas d) (\<lambda>ls. lsa_routes self ifs ns (db_rid d) ls rt)) (db_routes self ifs ns es)"
    using d(2) by (simp add: res_bind_assoc)
  then have "db_routes self ifs ns (d # es) rt = Inr (rt @ as @ bs)" using as(1) bs(1) by simp
  then show ?case
    using as(2,3) bs(2,3) by (intro exI [of _ "as @ bs"]) auto
qed simp

section \<open>Properties\<close>

text \<open>A topology with one neighbour that advertises one network.\<close>

definition example_entry :: "u32 \<Rightarrow> mospf_db_entry" where
  "example_entry r = \<lparr>db_rid = r, db_seq = 1, nadv = 1, db_alive = 40,
     array = [\<lparr>network = 0x0a000200, lmask = 0xffffff00, lrid = 5\<rparr>]\<rparr>"

definition example_mif :: mospf_iface where
  "example_mif = \<lparr>mi_iface = \<lparr>if_fd = 3, if_index = 1, if_mac = replicate 6 9, if_ip = 0x0a000001,
       if_mask = 0xffffff00, if_name = ''r1-eth0''\<rparr>,
     helloint = 5, num_nbr = 1,
     nbr_list = [\<lparr>nbr_id = 2, nbr_ip = 0x0a000002, nbr_mask = 0xffffff00, nbr_alive = 40\<rparr>]\<rparr>"

lemma example_entry_ok [simp]: "db_ok [example_entry r]" "db_rid (example_entry r) = r" "nadv (example_entry r) = 1"
  by (simp_all add: example_entry_def db_ok_def)

text \<open>
  Property C16: The search computes shortest paths. For a database with one entry per router, the search
  ends, and the cost of every node is the length of a shortest path from this router in the
  advertised topology. The predecessor of a node that is reached is the router before it on such a path: it is a step
  nearer, and its link to the node is advertised. A node that is not reached by a path shorter than \<^verbatim>\<open>INT_MAX\<close> keeps that
  cost and the predecessor 0, which the router itself has too.
\<close>
theorem dijkstra_shortest_paths:
  assumes "distinct (map db_rid db)" "db_ok db"
  shows "\<exists>ns. dijkstra_loop db (init_nodes self db ifs) = Inr ns \<and>
    set (map db_rid db) \<subseteq> set (map dn_rid ns) \<and>
    (\<forall>n\<in>set ns. \<forall>k. int k < INT_MAX \<longrightarrow> (cost n = int k \<longleftrightarrow> hop_dist self db ifs (dn_rid n) k)) \<and>
    (\<forall>n\<in>set ns. if dn_rid n = self then pre n = 0
       else if \<exists>k. hop_dist self db ifs (dn_rid n) k
       then (pre n, dn_rid n) \<in> edges self db ifs \<and> hop_dist self db ifs (pre n) (nat (cost n) - 1) \<and> 1 \<le> cost n
       else cost n = INT_MAX \<and> pre n = 0)"
proof -
  obtain ns where ns: "dijkstra_loop db (init_nodes self db ifs) = Inr ns" "spf_done self db ifs ns"
    using dijkstra_done [OF assms] by blast
  have "set (map db_rid db) \<subseteq> set (map dn_rid ns)" using ns(2) by (simp add: spf_done_def rids_def)
  moreover have "cost n = int k \<longleftrightarrow> hop_dist self db ifs (dn_rid n) k" if "n \<in> set ns" "int k < INT_MAX" for n k
    using spf_done_dist(1) [OF ns(2) that(1)] spf_done_dist(2) [OF ns(2) that(1), of k] that(2) by auto
  ultimately show ?thesis using ns(1) spf_done_pre [OF ns(2)] by blast
qed

theorem dijkstra_shortest_paths_witness:
  "\<exists>ns n. dijkstra_loop [example_entry 2] (init_nodes 1 [example_entry 2] [example_mif]) = Inr ns \<and>
     n \<in> set ns \<and> dn_rid n = 2 \<and> cost n = 1 \<and> pre n = 1"
proof -
  let ?d = "hop_dist 1 [example_entry 2] [example_mif]"
  have "nbrs [example_mif] = {2}" by (simp add: nbrs_def example_mif_def)
  then have d: "?d 2 1" by (auto simp: hop_dist_def edges_def INT_MAX_def)
  have z: "r = 1" if "?d r 0" for r using that by (simp add: hop_dist_def)
  obtain ns where ns: "dijkstra_loop [example_entry 2] (init_nodes 1 [example_entry 2] [example_mif]) = Inr ns"
    "2 \<in> dn_rid ` set ns"
    "\<forall>n\<in>set ns. \<forall>k. int k < INT_MAX \<longrightarrow> (cost n = int k \<longleftrightarrow> ?d (dn_rid n) k)"
    "\<forall>n\<in>set ns. dn_rid n \<noteq> 1 \<longrightarrow> (\<exists>k. ?d (dn_rid n) k) \<longrightarrow> ?d (pre n) (nat (cost n) - 1)"
  proof -
    obtain ns where p: "dijkstra_loop [example_entry 2] (init_nodes 1 [example_entry 2] [example_mif]) = Inr ns"
      "set (map db_rid [example_entry 2]) \<subseteq> set (map dn_rid ns)"
      "\<forall>n\<in>set ns. \<forall>k. int k < INT_MAX \<longrightarrow> (cost n = int k \<longleftrightarrow> ?d (dn_rid n) k)"
      "\<forall>n\<in>set ns. if dn_rid n = 1 then pre n = 0 else if \<exists>k. ?d (dn_rid n) k
         then (pre n, dn_rid n) \<in> edges 1 [example_entry 2] [example_mif] \<and> ?d (pre n) (nat (cost n) - 1) \<and> 1 \<le> cost n
         else cost n = INT_MAX \<and> pre n = 0"
      using dijkstra_shortest_paths [of "[example_entry 2]" 1 "[example_mif]"] by (simp only: example_entry_ok) auto
    show thesis
    proof (rule that [OF p(1) _ p(3)])
      show "2 \<in> dn_rid ` set ns" using p(2) by simp
      show "\<forall>n\<in>set ns. dn_rid n \<noteq> 1 \<longrightarrow> (\<exists>k. ?d (dn_rid n) k) \<longrightarrow> ?d (pre n) (nat (cost n) - 1)"
        using p(4) by meson
    qed
  qed
  then obtain n where n: "n \<in> set ns" "2 = dn_rid n" by (auto elim: imageE)
  have "int 1 < INT_MAX" by (simp add: INT_MAX_def)
  then have c: "cost n = int 1" using ns(3) n d by metis
  have "?d (pre n) (nat (cost n) - 1)" using ns(4) [rule_format, OF n(1)] n(2) [symmetric] d by auto
  then have "pre n = 1" using c z by simp
  then show ?thesis using ns(1) n c by auto
qed

text \<open>
  Property C17: The routes follow shortest paths. When no router is called 0 or 255.255.255.255 and this
  router is not in its own database, \<^verbatim>\<open>mospf_dijkstra\<close> returns; it keeps the given entries and adds
  only routes to advertised networks of reachable routers, each through a neighbour that is the
  first hop of a shortest path to that router; and every network of a reachable router has an
  entry.
\<close>
theorem mospf_dijkstra_routes:
  assumes "ids_ok self db ifs"
  shows "\<exists>news. mospf_dijkstra self db ifs rt = Inr (rt @ news) \<and>
    (\<forall>e\<in>set news. route_ok self db ifs e) \<and>
    (\<forall>d\<in>set db. (\<exists>k. hop_dist self db ifs (db_rid d) k) \<longrightarrow>
      (\<forall>l\<in>set (take (nat (nadv d)) (array d)). \<exists>e\<in>set (rt @ news). dest e = network l \<and> mask e = lmask l))"
proof -
  have d: "distinct (map db_rid db)" "db_ok db" using assms by (simp_all add: ids_ok_def)
  obtain ns where ns: "dijkstra_loop db (init_nodes self db ifs) = Inr ns" "spf_done self db ifs ns"
    "rids ns = rids (init_nodes self db ifs)"
    using dijkstra_done [OF d] by blast
  have "set (rids ns) \<subseteq> insert self (set (map db_rid db) \<union> nbrs ifs)"
    using init_rids_subset ns(3) by simp
  from db_routes_ok [OF assms ns(2) this subset_refl, of rt] show ?thesis
    by (simp add: mospf_dijkstra_def ns(1))
qed

theorem mospf_dijkstra_routes_witness:
  "\<exists>rt. mospf_dijkstra 1 [example_entry 2] [example_mif] [] = Inr rt"
proof -
  have "nbrs [example_mif] = {2}" by (simp add: nbrs_def example_mif_def)
  then have "ids_ok 1 [example_entry 2] [example_mif]" by (simp add: ids_ok_def)
  then show ?thesis using mospf_dijkstra_routes by blast
qed

text \<open>
  A router that calls itself 0 stops the routing daemon. When the database has an entry
  for identifier 0 that advertises something and is not reachable, following its predecessors
  never ends, and \<^verbatim>\<open>mospf_dijkstra\<close> does not return.
\<close>
theorem mospf_dijkstra_rid0_diverges:
  assumes "distinct (map db_rid db)" "db_ok db" "self \<noteq> 0" "d \<in> set db" "db_rid d = 0" "0 < nadv d"
    "\<forall>k. (self, 0) \<notin> edges self db ifs ^^ k"
  shows "mospf_dijkstra self db ifs rt = Inl Diverges"
proof -
  obtain ns where ns: "dijkstra_loop db (init_nodes self db ifs) = Inr ns" "spf_done self db ifs ns"
    using dijkstra_done [OF assms(1,2)] by blast
  have inv: "spf_inv self db ifs ns" using ns(2) by (simp add: spf_done_def)
  have "0 \<in> set (rids ns)" using ns(2) assms(4,5) by (force simp: spf_done_def)
  then obtain n where n: "n \<in> set ns" "dn_rid n = 0" by (auto simp: rids_def)
  have "cost n = INT_MAX" using spf_invD(4,5) [OF inv n(1)] n(2) assms(7) by fastforce
  then have "pre n = 0" using spf_invD(10) [OF inv n(1)] n(2) assms(3) by fastforce
  then have div: "next_hop_rid self ns 0 = None"
    using find_rid [OF spf_invD(1) [OF inv] n(1)] n(2) assms(3) by (intro next_hop_diverges) simp_all
  have ls: "lsa_routes self ifs ns r xs rt = Inl Diverges \<or> (\<exists>y. lsa_routes self ifs ns r xs rt = Inr y)" for r xs rt
    by (induction xs arbitrary: rt) (auto split: option.split)
  have "d \<in> set es \<Longrightarrow> set es \<subseteq> set db \<Longrightarrow> db_routes self ifs ns es rt = Inl Diverges" for es rt
  proof (induction es arbitrary: rt)
    case (Cons x es)
    have x: "lsas x = Inr (take (nat (nadv x)) (array x))"
      using Cons.prems(2) assms(2) by (auto simp: lsas_def db_ok_def)
    show ?case
    proof (cases "x = d")
      case True
      have "take (nat (nadv d)) (array d) \<noteq> []" using assms(2,4,6) by (force simp: db_ok_def)
      then obtain y ys where "take (nat (nadv d)) (array d) = y # ys" by (meson neq_Nil_conv)
      then show ?thesis using True x assms(3,5) div by simp
    next
      case False
      then have ih: "db_routes self ifs ns es rt = Inl Diverges" for rt using Cons by simp
      show ?thesis
        using x ih ls [of "db_rid x" "take (nat (nadv x)) (array x)" rt] by auto
    qed
  qed simp
  then show ?thesis using assms(4) by (simp add: mospf_dijkstra_def ns(1))
qed

theorem mospf_dijkstra_rid0_diverges_witness: "mospf_dijkstra 1 [example_entry 0] [] [] = Inl Diverges"
proof -
  have "(1, y) \<notin> edges 1 [example_entry 0] []" for y
    by (simp add: edges_def adv_def nbrs_def)
  then have "(1, 0) \<notin> edges 1 [example_entry 0] [] ^^ k" for k
    by (cases k) (auto simp del: relpow.simps(2) dest: relpow_Suc_D2)
  then show ?thesis
    using mospf_dijkstra_rid0_diverges [of "[example_entry 0]" 1 "example_entry 0" "[]" "[]"] by simp
qed

end
