(* ===== verification/Mospf.thy ===== *)
theory Mospf
  imports Spf Router7
begin

text \<open>
  The MOSPF routing daemon of \<^verbatim>\<open>code-exp7\<close>: \<^verbatim>\<open>mospf_proto.c\<close>, \<^verbatim>\<open>include/mospf_proto.h\<close>,
  \<^verbatim>\<open>mospf_database.c\<close> and \<^verbatim>\<open>mospf_daemon.c\<close> (the path computation is in \<open>Spf\<close>), and \<^verbatim>\<open>handle_ip_packet\<close> of
  \<^verbatim>\<open>ip.c\<close> of that directory. The record \<open>mospf\<close> is the state of the process: the \<^verbatim>\<open>ustack_t\<close> fields, the
  interfaces with their neighbours, the link state database and the state \<open>net\<close> of the IP
  stack, whose operations are those of \<open>Arp_Cache\<close>, \<open>Ip_Router\<close> and \<open>Router7\<close>. \<open>ktable\<close> is what
  \<^verbatim>\<open>read_kernel_rtable\<close> returns. Each thread is given by the work of one second. The handlers change
  the neighbours and the database under \<^verbatim>\<open>mospf_lock\<close>, and two of the threads hold it for all they do; \<^verbatim>\<open>checking_nbr_thread\<close> and
  \<^verbatim>\<open>checking_database_thread\<close> hold it for their scan only (\<open>checking_nbr_scan\<close>,
  \<open>checking_database_scan\<close>) and send and compute without it; how that interleaves with the rest is in
  \<open>Mospf_Net\<close>. Interfaces have different records, so a pointer to one is its record.
\<close>

section \<open>Messages\<close>

definition IPPROTO_MOSPF :: u8 where "IPPROTO_MOSPF = 90"
definition MOSPF_VERSION :: u8 where "MOSPF_VERSION = 2"
definition MOSPF_ALLSPFRouters :: u32 where "MOSPF_ALLSPFRouters = 0xe0000005"
definition MOSPF_TYPE_HELLO :: u8 where "MOSPF_TYPE_HELLO = 1"
definition MOSPF_TYPE_LSU :: u8 where "MOSPF_TYPE_LSU = 4"
definition MOSPF_DEFAULT_HELLOINT :: int where "MOSPF_DEFAULT_HELLOINT = 5"
definition MOSPF_HELLO_TIMEOUT :: int where "MOSPF_HELLO_TIMEOUT = 6"
definition MOSPF_DEFAULT_LSUINT :: int where "MOSPF_DEFAULT_LSUINT = 30"
definition MOSPF_DATABASE_TIMEOUT :: int where "MOSPF_DATABASE_TIMEOUT = 40"
definition MOSPF_MAX_LSU_TTL :: u8 where "MOSPF_MAX_LSU_TTL = 255"
definition MOSPF_HDR_SIZE :: nat where "MOSPF_HDR_SIZE = 16"
definition MOSPF_HELLO_SIZE :: nat where "MOSPF_HELLO_SIZE = 8"
definition MOSPF_LSU_SIZE :: nat where "MOSPF_LSU_SIZE = 8"
definition MOSPF_LSA_SIZE :: nat where "MOSPF_LSA_SIZE = 12"

lemmas mospf_consts [simp] =
  IPPROTO_MOSPF_def MOSPF_VERSION_def MOSPF_ALLSPFRouters_def MOSPF_TYPE_HELLO_def MOSPF_TYPE_LSU_def
  MOSPF_DEFAULT_HELLOINT_def MOSPF_HELLO_TIMEOUT_def MOSPF_DEFAULT_LSUINT_def
  MOSPF_DATABASE_TIMEOUT_def MOSPF_MAX_LSU_TTL_def MOSPF_HDR_SIZE_def MOSPF_HELLO_SIZE_def
  MOSPF_LSU_SIZE_def MOSPF_LSA_SIZE_def

text \<open>Fields of a message that starts at offset \<open>m\<close> of the buffer.\<close>

definition m_version :: "nat \<Rightarrow> bytes \<Rightarrow> u8" where "m_version m p = p ! m"
definition m_type :: "nat \<Rightarrow> bytes \<Rightarrow> u8" where "m_type m p = p ! (m + 1)"
definition m_len :: "nat \<Rightarrow> bytes \<Rightarrow> nat" where "m_len m p = unat (ntohs (ld16 (m + 2) p))"
definition m_rid :: "nat \<Rightarrow> bytes \<Rightarrow> u32" where "m_rid m p = ntohl (ld32 (m + 4) p)"
definition m_aid :: "nat \<Rightarrow> bytes \<Rightarrow> u32" where "m_aid m p = ntohl (ld32 (m + 8) p)"
definition m_cksum :: "nat \<Rightarrow> bytes \<Rightarrow> u16" where "m_cksum m p = ld16 (m + 12) p"
definition hello_mask :: "nat \<Rightarrow> bytes \<Rightarrow> u32" where "hello_mask m p = ntohl (ld32 (m + 16) p)"
definition hello_int :: "nat \<Rightarrow> bytes \<Rightarrow> int" where "hello_int m p = int (unat (ntohs (ld16 (m + 20) p)))"
definition lsu_seq :: "nat \<Rightarrow> bytes \<Rightarrow> u16" where "lsu_seq m p = ntohs (ld16 (m + 16) p)"
definition lsu_ttl :: "nat \<Rightarrow> bytes \<Rightarrow> u8" where "lsu_ttl m p = p ! (m + 18)"
definition lsu_nadv :: "nat \<Rightarrow> bytes \<Rightarrow> u32" where "lsu_nadv m p = ntohl (ld32 (m + 20) p)"

definition lsa_at :: "nat \<Rightarrow> bytes \<Rightarrow> mospf_lsa" where
  "lsa_at i p = \<lparr>network = ld32 i p, lmask = ld32 (i + 4) p, lrid = ld32 (i + 8) p\<rparr>"

definition lsa_bytes :: "mospf_lsa \<Rightarrow> bytes" where
  "lsa_bytes l = bytes32 (network l) @ bytes32 (lmask l) @ bytes32 (lrid l)"

definition mospf_init_hdr :: "nat \<Rightarrow> u8 \<Rightarrow> u16 \<Rightarrow> u32 \<Rightarrow> u32 \<Rightarrow> bytes \<Rightarrow> bytes" where
  "mospf_init_hdr m type len rid aid p =
     (let p = put m [MOSPF_VERSION] p;
          p = put (m + 1) [type] p;
          p = put (m + 2) (bytes16 (htons len)) p;
          p = put (m + 4) (bytes32 (htonl rid)) p;
          p = put (m + 8) (bytes32 (htonl aid)) p
      in put (m + 14) (bytes16 0) p)"

definition mospf_init_hello :: "nat \<Rightarrow> u32 \<Rightarrow> bytes \<Rightarrow> bytes" where
  "mospf_init_hello h msk p =
     (let p = put h (bytes32 (htonl msk)) p;
          p = put (h + 4) (bytes16 (htons (of_int MOSPF_DEFAULT_HELLOINT))) p
      in put (h + 6) (bytes16 0) p)"

definition mospf_init_lsu :: "nat \<Rightarrow> u16 \<Rightarrow> u32 \<Rightarrow> bytes \<Rightarrow> bytes" where
  "mospf_init_lsu l seqn n p =
     (let p = put l (bytes16 (htons seqn)) p;
          p = put (l + 3) [0] p;
          p = put (l + 2) [MOSPF_MAX_LSU_TTL] p
      in put (l + 4) (bytes32 (htonl n)) p)"

definition mospf_checksum :: "nat \<Rightarrow> bytes \<Rightarrow> u16" where
  "mospf_checksum m p = checksum7 (sub m (m_len m p) (put (m + 12) [0, 0] p)) 0"

section \<open>State\<close>

record mospf =
  area_id :: u32
  router_id :: u32
  sequence_num :: u16
  lsuint :: int
  ifaces :: "mospf_iface list"
  mospf_db :: "mospf_db_entry list"
  net :: router
  ktable :: "rt_entry list"

text \<open>The interfaces were zeroed when they were allocated, so \<^verbatim>\<open>num_nbr\<close> starts at 0.\<close>

definition init_mospf_db :: "mospf_db_entry list" where
  [simp]: "init_mospf_db = []"

definition mospf_init :: "iface_info list \<Rightarrow> router \<Rightarrow> rt_entry list \<Rightarrow> mospf" where
  "mospf_init ifs r kt =
     \<lparr>area_id = 0, router_id = if_ip (hd ifs), sequence_num = 0, lsuint = MOSPF_DEFAULT_LSUINT,
      ifaces = map (\<lambda>i. \<lparr>mi_iface = i, helloint = MOSPF_DEFAULT_HELLOINT, num_nbr = 0, nbr_list = []\<rparr>) ifs,
      mospf_db = init_mospf_db, net = r, ktable = kt\<rparr>"

section \<open>Hello\<close>

definition hello_packet :: "iface_info \<Rightarrow> u32 \<Rightarrow> u32 \<Rightarrow> router \<Rightarrow> bytes \<times> router" where
  "hello_packet iface rid aid r =
     (let len = ETHER_HDR_SIZE + IP_BASE_HDR_SIZE + MOSPF_HDR_SIZE + MOSPF_HELLO_SIZE;
          p = replicate len 0;
          p = put 0 (replicate ETH_ALEN 0xff) p;
          p = put 6 (if_mac iface) p;
          p = put 12 (bytes16 (htons ETH_P_IP)) p;
          (p, r) = ip_init_hdr7 p (if_ip iface) MOSPF_ALLSPFRouters (of_nat (len - ETHER_HDR_SIZE))
                     IPPROTO_MOSPF r;
          p = mospf_init_hdr 34 MOSPF_TYPE_HELLO (of_nat (MOSPF_HDR_SIZE + MOSPF_HELLO_SIZE)) rid aid p;
          p = mospf_init_hello 50 (if_mask iface) p
      in (put 46 (bytes16 (mospf_checksum 34 p)) p, r))"

definition send_mospf_hello :: "iface_info \<Rightarrow> mospf \<Rightarrow> mospf" where
  "send_mospf_hello iface s =
     (let (p, r) = hello_packet iface (router_id s) (area_id s) (net s)
      in s\<lparr>net := iface_send_packet iface p r\<rparr>)"

text \<open>One second of \<^verbatim>\<open>sending_mospf_hello_thread\<close>.\<close>

fun hello_loop :: "mospf_iface list \<Rightarrow> mospf \<Rightarrow> mospf_iface list \<times> mospf" where
  "hello_loop [] s = ([], s)"
| "hello_loop (i # ifs) s =
     (let i = i\<lparr>helloint := helloint i - 1\<rparr>;
          (i, s) = (if helloint i \<le> 0
                    then (i\<lparr>helloint := MOSPF_DEFAULT_HELLOINT\<rparr>, send_mospf_hello (mi_iface i) s)
                    else (i, s));
          (ifs', s') = hello_loop ifs s
      in (i # ifs', s'))"

definition sending_mospf_hello :: "mospf \<Rightarrow> mospf" where
  "sending_mospf_hello s = (let (ifs, s') = hello_loop (ifaces s) s in s'\<lparr>ifaces := ifs\<rparr>)"

section \<open>Link state updates\<close>

definition iface_lsas :: "u32 \<Rightarrow> mospf_iface \<Rightarrow> mospf_lsa list" where
  "iface_lsas rid i =
     (if num_nbr i = 0
      then [\<lparr>network = if_ip (mi_iface i) AND if_mask (mi_iface i), lmask = if_mask (mi_iface i), lrid = rid\<rparr>]
      else map (\<lambda>n. \<lparr>network = nbr_ip n AND nbr_mask n, lmask = nbr_mask n, lrid = nbr_id n\<rparr>) (nbr_list i))"

definition own_lsas :: "mospf \<Rightarrow> mospf_lsa list" where
  "own_lsas s = concat (map (iface_lsas (router_id s)) (ifaces s))"

definition generate_mospf_lsu :: "mospf \<Rightarrow> bytes" where
  "generate_mospf_lsu s =
     (let ls = own_lsas s;
          len = MOSPF_HDR_SIZE + MOSPF_LSU_SIZE + length ls * MOSPF_LSA_SIZE;
          p = replicate len 0;
          p = mospf_init_hdr 0 MOSPF_TYPE_LSU (of_nat len) (router_id s) (area_id s) p;
          p = put 16 (bytes16 (htons (sequence_num s))) p;
          p = put 18 [MOSPF_MAX_LSU_TTL] p;
          p = put 20 (bytes32 (htonl (of_nat (length ls)))) p;
          p = put 24 (concat (map lsa_bytes ls)) p
      in put 12 (bytes16 (mospf_checksum 0 p)) p)"

definition lsu_packet :: "iface_info \<Rightarrow> mospf_nbr \<Rightarrow> bytes \<Rightarrow> router \<Rightarrow> bytes \<times> router" where
  "lsu_packet iface nbr msg r =
     (let pkt_len = ETHER_HDR_SIZE + IP_BASE_HDR_SIZE + length msg;
          p = replicate pkt_len 0;
          p = put 6 (if_mac iface) p;
          p = put 0 (replicate ETH_ALEN 0xff) p;
          p = put 12 (bytes16 (htons ETH_P_IP)) p;
          (p, r) = ip_init_hdr7 p (if_ip iface) (nbr_ip nbr) (of_nat (pkt_len - ETHER_HDR_SIZE)) IPPROTO_MOSPF r
      in (put 34 msg p, r))"

definition nbr_pairs :: "mospf_iface list \<Rightarrow> (iface_info \<times> mospf_nbr) list" where
  "nbr_pairs ifs = concat (map (\<lambda>i. map (Pair (mi_iface i)) (nbr_list i)) ifs)"

definition lsu_send :: "bytes \<Rightarrow> iface_info \<Rightarrow> mospf_nbr \<Rightarrow> mospf \<Rightarrow> mospf" where
  "lsu_send msg iface nbr s =
     (let (p, r) = lsu_packet iface nbr msg (net s);
          s = s\<lparr>sequence_num := sequence_num s + 1\<rparr>
      in s\<lparr>net := ip_send_packet p r\<rparr>)"

fun lsu_loop :: "bytes \<Rightarrow> (iface_info \<times> mospf_nbr) list \<Rightarrow> mospf \<Rightarrow> mospf" where
  "lsu_loop msg [] s = s"
| "lsu_loop msg ((iface, nbr) # ns) s = lsu_loop msg ns (lsu_send msg iface nbr s)"

definition send_mospf_lsu :: "mospf \<Rightarrow> mospf" where
  "send_mospf_lsu s = lsu_loop (generate_mospf_lsu s) (nbr_pairs (ifaces s)) s"

text \<open>One second of \<^verbatim>\<open>sending_mospf_lsu_thread\<close>.\<close>

definition sending_mospf_lsu :: "mospf \<Rightarrow> mospf" where
  "sending_mospf_lsu s =
     (let s = s\<lparr>lsuint := lsuint s - 1\<rparr>
      in if lsuint s \<le> 0 then (send_mospf_lsu s)\<lparr>lsuint := MOSPF_DEFAULT_LSUINT\<rparr> else s)"

section \<open>Neighbours\<close>

definition add_neighbour :: "iface_info \<Rightarrow> mospf_nbr \<Rightarrow> mospf_iface list \<Rightarrow> mospf_iface list" where
  "add_neighbour iface n ifs =
     map (\<lambda>i. if mi_iface i = iface then i\<lparr>nbr_list := nbr_list i @ [n], num_nbr := num_nbr i + 1\<rparr> else i) ifs"

fun refresh_nbr :: "u32 \<Rightarrow> mospf_nbr list \<Rightarrow> mospf_nbr list" where
  "refresh_nbr rid [] = []"
| "refresh_nbr rid (n # ns) =
     (if nbr_id n = rid then n\<lparr>nbr_alive := MOSPF_DATABASE_TIMEOUT\<rparr> # ns else n # refresh_nbr rid ns)"

definition update_nbr_list_via_hello :: "iface_info \<Rightarrow> u32 \<Rightarrow> u32 \<Rightarrow> u32 \<Rightarrow> mospf \<Rightarrow> mospf" where
  "update_nbr_list_via_hello iface rid ip msk s =
     (if \<exists>i\<in>set (ifaces s). mi_iface i = iface \<and> (\<exists>n\<in>set (nbr_list i). nbr_id n = rid)
      then s\<lparr>ifaces := map (\<lambda>i. if mi_iface i = iface then i\<lparr>nbr_list := refresh_nbr rid (nbr_list i)\<rparr> else i)
                          (ifaces s)\<rparr>
      else if if_mask iface \<noteq> msk then s
      else if if_ip iface AND if_mask iface \<noteq> ip AND msk then s
      else let n = \<lparr>nbr_id = rid, nbr_ip = ip, nbr_mask = msk, nbr_alive = MOSPF_DATABASE_TIMEOUT\<rparr>
           in send_mospf_lsu (s\<lparr>ifaces := add_neighbour iface n (ifaces s)\<rparr>))"

text \<open>
  One second of \<^verbatim>\<open>checking_nbr_thread\<close>: neighbours at 0 go, the others count down. The scan is what the
  thread does under the lock.
\<close>

definition age_iface :: "mospf_iface \<Rightarrow> mospf_iface" where
  "age_iface i =
     i\<lparr>num_nbr := num_nbr i - int (length (filter (\<lambda>n. nbr_alive n \<le> 0) (nbr_list i))),
       nbr_list := map (\<lambda>n. n\<lparr>nbr_alive := nbr_alive n - 1\<rparr>) (filter (\<lambda>n. \<not> nbr_alive n \<le> 0) (nbr_list i))\<rparr>"

definition checking_nbr_scan :: "mospf \<Rightarrow> bool \<times> mospf" where
  "checking_nbr_scan s =
     (\<exists>i\<in>set (ifaces s). \<exists>n\<in>set (nbr_list i). nbr_alive n \<le> 0, s\<lparr>ifaces := map age_iface (ifaces s)\<rparr>)"

definition checking_nbr :: "mospf \<Rightarrow> mospf" where
  "checking_nbr s = (let (updated, s) = checking_nbr_scan s in if updated then send_mospf_lsu s else s)"

section \<open>The database\<close>

definition spf_run :: "mospf \<Rightarrow> mospf res" where
  "spf_run s =
     res_map (\<lambda>routing_table.
         s\<lparr>net := (net s)\<lparr>rtable := load_rtable (clear_rtable (rtable (net s))) routing_table\<rparr>\<rparr>)
       (mospf_dijkstra (router_id s) (mospf_db s) (ifaces s) (ktable s))"

text \<open>
  One second of \<^verbatim>\<open>checking_database_thread\<close>: entries count down and go at 0. The scan is what the
  thread does under the lock.
\<close>

definition checking_database_scan :: "mospf \<Rightarrow> bool \<times> mospf" where
  "checking_database_scan s =
     (let es = map (\<lambda>e. e\<lparr>db_alive := db_alive e - 1\<rparr>) (mospf_db s)
      in (\<exists>e\<in>set es. db_alive e \<le> 0, s\<lparr>mospf_db := filter (\<lambda>e. \<not> db_alive e \<le> 0) es\<rparr>))"

definition checking_database :: "mospf \<Rightarrow> mospf res" where
  "checking_database s =
     (let (changed, s) = checking_database_scan s in if changed then spf_run s else Inr s)"

text \<open>
  The advertisements of an update at offset \<open>m\<close>: \<^verbatim>\<open>nadv\<close> is an \<^verbatim>\<open>int\<close>, the size \<^verbatim>\<open>12 * nadv\<close> is
  truncated to an \<^verbatim>\<open>int\<close>, a negative size makes \<^verbatim>\<open>malloc\<close> fail, and the copy reads that many bytes.
\<close>

definition lsu_array :: "nat \<Rightarrow> bytes \<Rightarrow> (int \<times> mospf_lsa list) res" where
  "lsu_array m p =
     (let w = lsu_nadv m p;
          size = sint (12 * w)
      in if size < 0 then Inl Null_Deref
         else if int (length p) < int m + 24 + size then Inl Out_Of_Bounds
         else Inr (sint w, map (\<lambda>i. lsa_at (m + 24 + 12 * i) p) [0..<nat (size div 12)]))"

fun db_replace :: "mospf_db_entry \<Rightarrow> mospf_db_entry list \<Rightarrow> mospf_db_entry list" where
  "db_replace e [] = [e]"
| "db_replace e (d # ds) = (if db_rid d = db_rid e then e # ds else d # db_replace e ds)"

definition db_touch :: "u32 \<Rightarrow> mospf_db_entry list \<Rightarrow> mospf_db_entry list" where
  "db_touch rid ds = map (\<lambda>d. if db_rid d = rid then d\<lparr>db_alive := MOSPF_DATABASE_TIMEOUT\<rparr> else d) ds"

text \<open>Steps 3 to 5 of \<^verbatim>\<open>handle_mospf_lsu\<close>: the update of the database.\<close>

definition lsu_update :: "nat \<Rightarrow> bytes \<Rightarrow> mospf \<Rightarrow> mospf res" where
  "lsu_update m p s =
     (let rid = m_rid m p; seq = lsu_seq m p;
          entry = find (\<lambda>d. db_rid d = rid) (mospf_db s)
      in if (case entry of None \<Rightarrow> True | Some d \<Rightarrow> seq > db_seq d)
         then if length p < m + 24 then Inl Out_Of_Bounds
           else res_bind (lsu_array m p) (\<lambda>(n, arr).
             spf_run (s\<lparr>mospf_db := db_replace \<lparr>db_rid = rid, db_seq = seq, nadv = n,
                db_alive = MOSPF_DATABASE_TIMEOUT, array = arr\<rparr> (mospf_db s)\<rparr>))
         else Inr (s\<lparr>mospf_db := db_touch rid (mospf_db s)\<rparr>))"

text \<open>Step 6: a copy for each neighbour on the other interfaces.\<close>

definition lsu_copy :: "nat \<Rightarrow> bytes \<Rightarrow> u8 \<Rightarrow> mospf_nbr \<Rightarrow> bytes" where
  "lsu_copy m p ttl nbr =
     (let q = put 30 (bytes32 (htonl (nbr_ip nbr))) p;
          q = put 24 (bytes16 (ip_checksum7 q)) q;
          q = put (m + 18) [ttl] q
      in put (m + 12) (bytes16 (mospf_checksum m q)) q)"

definition lsu_flood :: "iface_info \<Rightarrow> nat \<Rightarrow> bytes \<Rightarrow> mospf \<Rightarrow> mospf" where
  "lsu_flood iface m p s =
     (let ttl = lsu_ttl m p - 1;
          p = put (m + 18) [ttl] p;
          p = put (m + 12) (bytes16 (mospf_checksum m p)) p
      in if ttl > 0
         then s\<lparr>net := fold (\<lambda>(i, n). ip_send_packet (lsu_copy m p ttl n))
                   (filter (\<lambda>(i, n). i \<noteq> iface) (nbr_pairs (ifaces s))) (net s)\<rparr>
         else s)"

definition handle_mospf_lsu :: "iface_info \<Rightarrow> bytes \<Rightarrow> mospf \<Rightarrow> mospf res" where
  "handle_mospf_lsu iface p s =
     (let m = 14 + IP_HDR_SIZE p
      in if length p < m + 14 \<or> length p < m + m_len m p then Inl Out_Of_Bounds
         else if mospf_checksum m p \<noteq> m_cksum m p then Inr s
         else if length p < m + 18 then Inl Out_Of_Bounds
         else if m_rid m p = router_id s then Inr s
         else if length p < m + 19 then Inl Out_Of_Bounds
         else res_map (lsu_flood iface m p) (lsu_update m p s))"

definition handle_mospf_hello :: "iface_info \<Rightarrow> bytes \<Rightarrow> mospf \<Rightarrow> mospf res" where
  "handle_mospf_hello iface p s =
     (let m = 14 + IP_HDR_SIZE p
      in if length p < m + 14 \<or> length p < m + m_len m p then Inl Out_Of_Bounds
         else if mospf_checksum m p \<noteq> m_cksum m p then Inr s
         else if length p < m + 20 then Inl Out_Of_Bounds
         else if hello_mask m p \<noteq> if_mask iface then Inr s
         else if length p < m + 22 then Inl Out_Of_Bounds
         else if hello_int m p \<noteq> MOSPF_DEFAULT_HELLOINT then Inr s
         else Inr (update_nbr_list_via_hello iface (m_rid m p) (ntohl (ip_saddr p)) (hello_mask m p) s))"

definition handle_mospf_packet :: "iface_info \<Rightarrow> bytes \<Rightarrow> mospf \<Rightarrow> mospf res" where
  "handle_mospf_packet iface p s =
     (let m = 14 + IP_HDR_SIZE p
      in if length p \<le> m then Inl Out_Of_Bounds
         else if m_version m p \<noteq> MOSPF_VERSION then Inr s
         else if length p < m + 14 \<or> length p < m + m_len m p then Inl Out_Of_Bounds
         else if m_cksum m p \<noteq> mospf_checksum m p then Inr s
         else if m_aid m p \<noteq> area_id s then Inr s
         else if m_type m p = MOSPF_TYPE_HELLO then handle_mospf_hello iface p s
         else if m_type m p = MOSPF_TYPE_LSU then handle_mospf_lsu iface p s
         else Inr s)"

section \<open>IP\<close>

definition handle_ip_packet7 :: "iface_info \<Rightarrow> bytes \<Rightarrow> mospf \<Rightarrow> mospf res" where
  "handle_ip_packet7 iface packet s =
     (if length packet < ETHER_HDR_SIZE + IP_BASE_HDR_SIZE then Inl Out_Of_Bounds
      else let daddr = ntohl (ip_daddr packet)
      in if daddr = if_ip iface
         then if ip_protocol packet = IPPROTO_ICMP
           then if length packet \<le> 14 + IP_HDR_SIZE packet then Inl Out_Of_Bounds
             else if packet ! (14 + IP_HDR_SIZE packet) = ICMP_ECHOREQUEST
               then res_map (\<lambda>r. s\<lparr>net := r\<rparr>) (icmp_send_packet7 packet ICMP_ECHOREPLY 0 (net s))
             else Inr s
           else if ip_protocol packet = IPPROTO_MOSPF then handle_mospf_packet iface packet s
           else Inr s
         else if ip_daddr packet = htonl MOSPF_ALLSPFRouters
           then if ip_protocol packet = IPPROTO_MOSPF then handle_mospf_packet iface packet s
             else Inl Assert_Failed
         else res_map (\<lambda>r. s\<lparr>net := r\<rparr>) (ip_forward_packet7 daddr packet (net s)))"

definition handle_packet7 :: "iface_info \<Rightarrow> bytes \<Rightarrow> mospf \<Rightarrow> mospf res" where
  "handle_packet7 iface packet s =
     (if length packet < ETHER_HDR_SIZE then Inl Out_Of_Bounds
      else if ntohs (ether_type packet) = ETH_P_IP then handle_ip_packet7 iface packet s
      else if ntohs (ether_type packet) = ETH_P_ARP
        then res_map (\<lambda>r. s\<lparr>net := r\<rparr>) (handle_arp_packet iface packet (net s))
      else Inr s)"

section \<open>Reading back what was written\<close>

lemma nth_put_shift: "i + length msg \<le> length p \<Longrightarrow> k < length msg \<Longrightarrow> put i msg p ! (i + k) = msg ! k"
  by (simp add: nth_put)

lemma ld16_put_shift: "i + length msg \<le> length p \<Longrightarrow> k + 2 \<le> length msg \<Longrightarrow> ld16 (i + k) (put i msg p) = ld16 k msg"
  using nth_put_shift [of i msg p k] nth_put_shift [of i msg p "k + 1"] by (simp add: ld16_def add.assoc)

lemma ld32_put_shift: "i + length msg \<le> length p \<Longrightarrow> k + 4 \<le> length msg \<Longrightarrow> ld32 (i + k) (put i msg p) = ld32 k msg"
  using ld16_put_shift [of i msg p k] ld16_put_shift [of i msg p "k + 2"] by (simp add: ld32_def add.assoc)

text \<open>The fields of a message copied to offset \<open>i\<close> of a packet are those of the message.\<close>

lemma message_shift:
  assumes "i + length msg \<le> length p" "24 \<le> length msg"
  shows "m_version i (put i msg p) = m_version 0 msg" "m_type i (put i msg p) = m_type 0 msg"
    "m_len i (put i msg p) = m_len 0 msg" "m_rid i (put i msg p) = m_rid 0 msg"
    "m_aid i (put i msg p) = m_aid 0 msg" "m_cksum i (put i msg p) = m_cksum 0 msg"
    "lsu_seq i (put i msg p) = lsu_seq 0 msg" "lsu_ttl i (put i msg p) = lsu_ttl 0 msg"
    "lsu_nadv i (put i msg p) = lsu_nadv 0 msg"
proof -
  note n = nth_put_shift [OF assms(1)] and h = ld16_put_shift [OF assms(1)] and w = ld32_put_shift [OF assms(1)]
  have "put i msg p ! i = msg ! 0" "put i msg p ! (i + 1) = msg ! 1" "put i msg p ! (i + 18) = msg ! 18"
    using n [of 0] n [of 1] n [of 18] assms(2) by force+
  moreover have "ld16 (i + 2) (put i msg p) = ld16 2 msg" "ld16 (i + 12) (put i msg p) = ld16 12 msg"
    "ld16 (i + 16) (put i msg p) = ld16 16 msg"
    using h [of 2] h [of 12] h [of 16] assms(2) by force+
  moreover have "ld32 (i + 4) (put i msg p) = ld32 4 msg" "ld32 (i + 8) (put i msg p) = ld32 8 msg"
    "ld32 (i + 20) (put i msg p) = ld32 20 msg"
    using w [of 4] w [of 8] w [of 20] assms(2) by force+
  ultimately show "m_version i (put i msg p) = m_version 0 msg" "m_type i (put i msg p) = m_type 0 msg"
    "m_len i (put i msg p) = m_len 0 msg" "m_rid i (put i msg p) = m_rid 0 msg"
    "m_aid i (put i msg p) = m_aid 0 msg" "m_cksum i (put i msg p) = m_cksum 0 msg"
    "lsu_seq i (put i msg p) = lsu_seq 0 msg" "lsu_ttl i (put i msg p) = lsu_ttl 0 msg"
    "lsu_nadv i (put i msg p) = lsu_nadv 0 msg"
    unfolding m_version_def m_type_def m_len_def m_rid_def m_aid_def m_cksum_def lsu_seq_def
      lsu_ttl_def lsu_nadv_def add_0 by simp_all
qed

lemma lsa_at_sub: "i + 12 \<le> length p \<Longrightarrow> lsa_at i p = lsa_at 0 (sub i 12 p)"
  by (simp add: lsa_at_def ld32_def ld16_def ac_simps)

lemma lsa_at_bytes: "lsa_at 0 (lsa_bytes l) = l"
  by (simp add: lsa_at_def lsa_bytes_def ld32_def ld16_def bytes32_def bytes16_def)

lemma length_lsa_bytes [simp]: "length (lsa_bytes l) = 12"
  by (simp add: lsa_bytes_def)

lemma length_lsas_bytes [simp]: "length (concat (map lsa_bytes ls)) = 12 * length ls"
  by (induction ls) simp_all

lemma sub_lsas_bytes: "i < length ls \<Longrightarrow> sub (12 * i) 12 (concat (map lsa_bytes ls)) = lsa_bytes (ls ! i)"
proof (induction ls arbitrary: i)
  case (Cons l ls)
  then show ?case by (cases i) (simp_all add: sub_def)
qed simp

lemma sint_small: "n < 2147483648 \<Longrightarrow> sint (of_nat n :: u32) = int n"
  by (simp add: signed_of_nat signed_take_bit_int_eq_self)

lemma of_nat_u16_small: "n < 65536 \<Longrightarrow> unat (of_nat n :: u16) = n"
  by (rule unat_of_nat_u16)

section \<open>The update a router sends\<close>

definition lsu_fits :: "mospf \<Rightarrow> bool" where
  "lsu_fits s = (length (own_lsas s) \<le> 5000)"

lemma mospf_init_hdr_length [simp]: "m + 16 \<le> length p \<Longrightarrow> length (mospf_init_hdr m ty len rid aid p) = length p"
  by (simp add: mospf_init_hdr_def Let_def)

lemma mospf_init_hdr_fields:
  fixes p :: bytes and rid aid :: u32 and len :: u16 and ty :: u8
  assumes "m + 16 \<le> length p"
  defines "q \<equiv> mospf_init_hdr m ty len rid aid p"
  shows "m_version m q = MOSPF_VERSION" "m_type m q = ty" "m_len m q = unat len"
    "m_rid m q = rid" "m_aid m q = aid" "k < m \<Longrightarrow> q ! k = p ! k"
  using assms
  by (simp_all add: mospf_init_hdr_def Let_def m_version_def m_type_def m_len_def m_rid_def
      m_aid_def buffer_simps)

lemma put_later_fields:
  assumes "m + 16 \<le> i" "i + length bs \<le> length p"
  shows "m_version m (put i bs p) = m_version m p" "m_type m (put i bs p) = m_type m p"
    "m_len m (put i bs p) = m_len m p" "m_rid m (put i bs p) = m_rid m p"
    "m_aid m (put i bs p) = m_aid m p" "m_cksum m (put i bs p) = m_cksum m p"
  using assms
  by (simp_all add: m_version_def m_type_def m_len_def m_rid_def m_aid_def m_cksum_def buffer_simps)

lemma put_cksum_fields:
  assumes "m + 14 \<le> length p"
  shows "m_version m (put (m + 12) (bytes16 c) p) = m_version m p" "m_type m (put (m + 12) (bytes16 c) p) = m_type m p"
    "m_len m (put (m + 12) (bytes16 c) p) = m_len m p" "m_rid m (put (m + 12) (bytes16 c) p) = m_rid m p"
    "m_aid m (put (m + 12) (bytes16 c) p) = m_aid m p" "m_cksum m (put (m + 12) (bytes16 c) p) = c"
  using assms
  by (simp_all add: m_version_def m_type_def m_len_def m_rid_def m_aid_def m_cksum_def buffer_simps)

text \<open>A stored checksum verifies, because it is computed with the field set to zero.\<close>

lemma mospf_checksum_stored:
  assumes "m + 14 \<le> length p"
  shows "mospf_checksum m (put (m + 12) (bytes16 c) p) = mospf_checksum m p"
  using assms put_cksum_fields(3) [OF assms, of c] by (simp add: mospf_checksum_def)

lemma generate_mospf_lsu_fields:
  assumes "lsu_fits s"
  defines "q \<equiv> generate_mospf_lsu s"
  shows "length q = 24 + 12 * length (own_lsas s)" "m_version 0 q = MOSPF_VERSION"
    "m_type 0 q = MOSPF_TYPE_LSU" "m_len 0 q = length q" "m_rid 0 q = router_id s" "m_aid 0 q = area_id s"
    "m_cksum 0 q = mospf_checksum 0 q" "lsu_seq 0 q = sequence_num s"
    "lsu_nadv 0 q = of_nat (length (own_lsas s))"
    "sub 24 (12 * length (own_lsas s)) q = concat (map lsa_bytes (own_lsas s))"
proof -
  define n where "n = length (own_lsas s)"
  define h where "h = mospf_init_hdr 0 MOSPF_TYPE_LSU (of_nat (24 + n * 12)) (router_id s) (area_id s)
    (replicate (24 + n * 12) 0)"
  define b where "b = put 24 (concat (map lsa_bytes (own_lsas s)))
    (put 20 (bytes32 (htonl (of_nat n))) (put 18 [MOSPF_MAX_LSU_TTL] (put 16 (bytes16 (htons (sequence_num s))) h)))"
  have n: "n \<le> 5000" using assms(1) by (simp add: lsu_fits_def n_def)
  have q: "q = put (0 + 12) (bytes16 (mospf_checksum 0 b)) b"
    by (simp add: q_def generate_mospf_lsu_def b_def h_def n_def Let_def)
  have lh: "length h = 24 + 12 * n" by (simp add: h_def)
  have lb: "length b = 24 + 12 * n" using lh by (simp add: b_def n_def)
  then show lq: "length q = 24 + 12 * length (own_lsas s)" by (simp add: q n_def)
  have "m_len 0 h = unat (of_nat (24 + n * 12) :: u16)"
    unfolding h_def by (rule mospf_init_hdr_fields(3)) simp
  also have "\<dots> = 24 + 12 * n" using n by (subst of_nat_u16_small) simp_all
  finally have hl: "m_len 0 h = 24 + 12 * n" .
  have hf: "m_version 0 h = MOSPF_VERSION" "m_type 0 h = MOSPF_TYPE_LSU"
    "m_rid 0 h = router_id s" "m_aid 0 h = area_id s"
    using n by (simp_all add: h_def mospf_init_hdr_fields)
  have bf: "m_version 0 b = m_version 0 h" "m_type 0 b = m_type 0 h" "m_len 0 b = m_len 0 h"
    "m_rid 0 b = m_rid 0 h" "m_aid 0 b = m_aid 0 h"
    using lh by (simp_all add: b_def put_later_fields n_def)
  have c: "0 + 14 \<le> length b" using lb by simp
  note cf = put_cksum_fields [OF c, of "mospf_checksum 0 b", folded q]
  show "m_version 0 q = MOSPF_VERSION" "m_type 0 q = MOSPF_TYPE_LSU" "m_len 0 q = length q"
    "m_rid 0 q = router_id s" "m_aid 0 q = area_id s"
    using hf hl bf cf lq n_def by simp_all
  show "m_cksum 0 q = mospf_checksum 0 q"
    using cf(6) mospf_checksum_stored [OF c, of "mospf_checksum 0 b", folded q] by simp
  have sb: "ld16 16 b = htons (sequence_num s)" "ld32 20 b = htonl (of_nat n)"
    "sub 24 (12 * n) b = concat (map lsa_bytes (own_lsas s))"
    using lh by (simp_all add: b_def n_def buffer_simps)
  have "ld16 16 q = ld16 16 b" "ld32 20 q = ld32 20 b" "sub 24 (12 * n) q = sub 24 (12 * n) b"
    using lb by (simp_all add: q buffer_simps)
  then show "lsu_seq 0 q = sequence_num s" "lsu_nadv 0 q = of_nat (length (own_lsas s))"
    "sub 24 (12 * length (own_lsas s)) q = concat (map lsa_bytes (own_lsas s))"
    using sb by (simp_all add: lsu_seq_def lsu_nadv_def n_def)
qed

lemma lsu_packet_fields:
  fixes msg :: bytes and iface :: iface_info and nbr :: mospf_nbr and r :: router
  assumes "length (if_mac iface) = ETH_ALEN"
  defines "q \<equiv> fst (lsu_packet iface nbr msg r)"
  obtains h where "q = put 34 msg h" "length h = 34 + length msg" "IP_HDR_SIZE q = 20"
    "ether_type q = htons ETH_P_IP" "ip_daddr q = htonl (nbr_ip nbr)" "ip_protocol q = IPPROTO_MOSPF"
    "length q = 34 + length msg"
proof -
  define e where "e = put 12 (bytes16 (htons ETH_P_IP)) (put 0 (replicate ETH_ALEN 0xff)
    (put 6 (if_mac iface) (replicate (34 + length msg) (0 :: u8))))"
  define h where "h = fst (ip_init_hdr e (if_ip iface) (nbr_ip nbr) (of_nat (20 + length msg)) IPPROTO_MOSPF r)"
  have e: "length e = 34 + length msg" "ld16 12 e = htons ETH_P_IP"
    using assms(1) by (simp_all add: e_def)
  note f = ip_init_hdr_fields [where p = e and sa = "if_ip iface" and da = "nbr_ip nbr" and s = r
      and len = "of_nat (20 + length msg)" and proto = IPPROTO_MOSPF, folded h_def]
  have q: "q = put 34 msg h"
    using e(1) by (simp add: q_def lsu_packet_def Let_def split_beta h_def ip_init_hdr7_eq e_def)
  have lh: "length h = 34 + length msg" using f(1) e(1) by simp
  have k: "q ! k = h ! k" if "k < 34" for k using that lh by (simp add: q buffer_simps)
  have "ether_type h = htons ETH_P_IP"
    using f(8) [of 12] f(8) [of 13] e by (simp add: ether_type_def ld16_def)
  then show thesis
    using that [OF q lh] header_cong [OF k] IP_HDR_SIZE_45 [of h] f e lh q by simp
qed

text \<open>A message whose length field covers it verifies inside a packet as it does alone.\<close>

lemma mospf_checksum_shift:
  assumes "i + length msg = length h" "24 \<le> length msg" "m_len 0 msg = length msg"
  shows "mospf_checksum i (put i msg h) = mospf_checksum 0 msg"
proof -
  have "m_len i (put i msg h) = length msg" using message_shift(3) [of i msg h] assms by simp
  moreover have "sub i (length msg) (put (i + 12) [0, 0] (put i msg h)) = put 12 [0, 0] msg"
    using assms by (simp add: sub_put_inside)
  ultimately show ?thesis using assms by (simp add: mospf_checksum_def)
qed

lemma lsu_array_shift:
  assumes "length h = 34 + length msg" "length msg = 24 + 12 * length ls" "length ls \<le> 5000"
    "lsu_nadv 0 msg = of_nat (length ls)" "sub 24 (12 * length ls) msg = concat (map lsa_bytes ls)"
  shows "lsu_array 34 (put 34 msg h) = Inr (int (length ls), ls)"
proof -
  let ?p = "put 34 msg h"
  have w: "lsu_nadv 34 ?p = of_nat (length ls)" using message_shift(9) [of 34 msg h] assms by simp
  have "sint (12 * of_nat (length ls) :: u32) = 12 * int (length ls)"
    using sint_small [of "12 * length ls"] assms(3) by simp
  moreover have "sint (of_nat (length ls) :: u32) = int (length ls)"
    using assms(3) by (intro sint_small) simp
  moreover have "lsa_at (58 + 12 * i) ?p = ls ! i" if "i < length ls" for i
  proof -
    have "sub (58 + 12 * i) 12 ?p = sub (24 + 12 * i) 12 msg"
      using that assms(1,2) by (intro nth_equalityI) (simp_all add: nth_put add.assoc)
    also have "\<dots> = sub (12 * i) 12 (sub 24 (12 * length ls) msg)"
      using that assms(2) by (intro nth_equalityI) (simp_all add: add.assoc)
    also have "\<dots> = lsa_bytes (ls ! i)" using sub_lsas_bytes [OF that] assms(5) by simp
    finally show ?thesis using that assms(1,2) by (simp add: lsa_at_sub lsa_at_bytes)
  qed
  then have "map (\<lambda>i. lsa_at (58 + 12 * i) ?p) [0..<length ls] = ls"
    by (intro nth_equalityI) simp_all
  ultimately show ?thesis using w assms(1,2) by (simp add: lsu_array_def Let_def)
qed

section \<open>Receiving\<close>

definition newer :: "mospf \<Rightarrow> u32 \<Rightarrow> u16 \<Rightarrow> bool" where
  "newer s rid seq = (case find (\<lambda>d. db_rid d = rid) (mospf_db s) of None \<Rightarrow> True | Some d \<Rightarrow> seq > db_seq d)"

lemma handle_packet7_mospf:
  assumes "34 \<le> length p" "ether_type p = htons ETH_P_IP" "ip_protocol p = IPPROTO_MOSPF"
    "ntohl (ip_daddr p) = if_ip i \<or> ntohl (ip_daddr p) = MOSPF_ALLSPFRouters"
  shows "handle_packet7 i p s = handle_mospf_packet i p s"
proof -
  have "ip_daddr p = htonl (ntohl (ip_daddr p))" by simp
  then show ?thesis
    using assms by (auto simp: handle_packet7_def handle_ip_packet7_def Let_def simp del: ntohl_ntohl)
qed

lemma lsu_handled:
  fixes r :: router
  assumes "lsu_fits sa" "length (if_mac ia) = ETH_ALEN" "area_id sa = area_id sb"
    "router_id sa \<noteq> router_id sb" "newer sb (router_id sa) (sequence_num sa)" "if_ip ib = nbr_ip nbr"
  defines "p \<equiv> fst (lsu_packet ia nbr (generate_mospf_lsu sa) r)"
  shows "handle_packet7 ib p sb = res_map (lsu_flood ib 34 p)
    (spf_run (sb\<lparr>mospf_db := db_replace \<lparr>db_rid = router_id sa, db_seq = sequence_num sa,
       nadv = int (length (own_lsas sa)), db_alive = MOSPF_DATABASE_TIMEOUT, array = own_lsas sa\<rparr> (mospf_db sb)\<rparr>))"
proof -
  let ?msg = "generate_mospf_lsu sa"
  note g = generate_mospf_lsu_fields [OF assms(1)]
  obtain h where h: "p = put 34 ?msg h" "length h = 34 + length ?msg" "IP_HDR_SIZE p = 20"
    "ether_type p = htons ETH_P_IP" "ip_daddr p = htonl (nbr_ip nbr)" "ip_protocol p = IPPROTO_MOSPF"
    "length p = 34 + length ?msg"
    unfolding p_def by (rule lsu_packet_fields [OF assms(2), of nbr ?msg r])
  have l: "24 \<le> length ?msg" using g(1) by simp
  have ls: "length (own_lsas sa) \<le> 5000" using assms(1) by (simp add: lsu_fits_def)
  have hm: "34 + length ?msg \<le> length h" using h(2) by simp
  note f = message_shift [OF hm l, folded h(1)]
  have c: "mospf_checksum 34 p = m_cksum 34 p"
    using mospf_checksum_shift [of 34 ?msg h, folded h(1)] h(2) l g(4,7) f(6) by simp
  have arr: "lsu_array 34 p = Inr (int (length (own_lsas sa)), own_lsas sa)"
    using lsu_array_shift [OF h(2) g(1) ls g(9,10)] h(1) by simp
  have len: "m_len 34 p = length ?msg" using f(3) g(4) by simp
  have "handle_packet7 ib p sb = handle_mospf_packet ib p sb"
    using h assms(6) by (intro handle_packet7_mospf) simp_all
  also have "\<dots> = handle_mospf_lsu ib p sb"
    using h(3,7) l f g len c assms(3) by (simp add: handle_mospf_packet_def)
  also have "\<dots> = res_map (lsu_flood ib 34 p) (lsu_update 34 p sb)"
    using h(3,7) l f g len c assms(4) by (simp add: handle_mospf_lsu_def)
  also have "lsu_update 34 p sb = spf_run (sb\<lparr>mospf_db := db_replace \<lparr>db_rid = router_id sa,
      db_seq = sequence_num sa, nadv = int (length (own_lsas sa)), db_alive = MOSPF_DATABASE_TIMEOUT,
      array = own_lsas sa\<rparr> (mospf_db sb)\<rparr>)"
    using h(7) l f g arr assms(5) by (simp add: lsu_update_def newer_def Let_def)
  finally show ?thesis .
qed

lemma hello_packet_fields:
  fixes ia :: iface_info and rid aid :: u32 and r :: router
  assumes "length (if_mac ia) = ETH_ALEN"
  defines "q \<equiv> fst (hello_packet ia rid aid r)"
  shows "length q = 58" "IP_HDR_SIZE q = 20" "ether_type q = htons ETH_P_IP"
    "ip_daddr q = htonl MOSPF_ALLSPFRouters" "ip_saddr q = htonl (if_ip ia)" "ip_protocol q = IPPROTO_MOSPF"
    "m_version 34 q = MOSPF_VERSION" "m_type 34 q = MOSPF_TYPE_HELLO" "m_len 34 q = 24" "m_rid 34 q = rid"
    "m_aid 34 q = aid" "m_cksum 34 q = mospf_checksum 34 q" "hello_mask 34 q = if_mask ia"
    "hello_int 34 q = MOSPF_DEFAULT_HELLOINT"
proof -
  define e where "e = put 12 (bytes16 (htons ETH_P_IP)) (put 6 (if_mac ia) (put 0 (replicate ETH_ALEN 0xff)
    (replicate 58 (0 :: u8))))"
  define h where "h = fst (ip_init_hdr e (if_ip ia) MOSPF_ALLSPFRouters 44 IPPROTO_MOSPF r)"
  define g where "g = mospf_init_hdr 34 MOSPF_TYPE_HELLO 24 rid aid h"
  define b where "b = mospf_init_hello 50 (if_mask ia) g"
  have e: "length e = 58" "ld16 12 e = htons ETH_P_IP" using assms(1) by (simp_all add: e_def)
  have q: "q = put (34 + 12) (bytes16 (mospf_checksum 34 b)) b"
    using e(1) by (simp add: q_def hello_packet_def Let_def split_beta h_def g_def b_def ip_init_hdr7_eq e_def)
  note f = ip_init_hdr_fields [where p = e and sa = "if_ip ia" and da = MOSPF_ALLSPFRouters and s = r
      and len = 44 and proto = IPPROTO_MOSPF, folded h_def]
  have lh: "length h = 58" using f(1) e(1) by simp
  have lg: "length g = 58" using lh by (simp add: g_def)
  have lb: "length b = 58" using lg by (simp add: b_def mospf_init_hello_def Let_def)
  show lq: "length q = 58" using lb by (simp add: q)
  have gk: "g ! k = h ! k" if "k < 34" for k
    using mospf_init_hdr_fields(6) [of 34 h k] that lh by (simp add: g_def)
  have k: "q ! k = h ! k" if "k < 34" for k
    using gk [OF that] that lg lb by (simp add: q b_def mospf_init_hello_def Let_def buffer_simps)
  have "ether_type h = htons ETH_P_IP"
    using f(8) [of 12] f(8) [of 13] e by (simp add: ether_type_def ld16_def)
  then show "IP_HDR_SIZE q = 20" "ether_type q = htons ETH_P_IP" "ip_daddr q = htonl MOSPF_ALLSPFRouters"
    "ip_saddr q = htonl (if_ip ia)" "ip_protocol q = IPPROTO_MOSPF"
    using header_cong [OF k] IP_HDR_SIZE_45 [of h] f e by simp_all
  have c: "34 + 14 \<le> length b" using lb by simp
  note cf = put_cksum_fields [OF c, of "mospf_checksum 34 b", folded q]
  have bf: "m_version 34 b = m_version 34 g" "m_type 34 b = m_type 34 g" "m_len 34 b = m_len 34 g"
    "m_rid 34 b = m_rid 34 g" "m_aid 34 b = m_aid 34 g"
    using lg by (simp_all add: b_def mospf_init_hello_def Let_def put_later_fields)
  show "m_version 34 q = MOSPF_VERSION" "m_type 34 q = MOSPF_TYPE_HELLO" "m_len 34 q = 24" "m_rid 34 q = rid"
    "m_aid 34 q = aid"
    using cf bf lh by (simp_all add: g_def mospf_init_hdr_fields)
  show "m_cksum 34 q = mospf_checksum 34 q"
    using cf(6) mospf_checksum_stored [OF c, of "mospf_checksum 34 b", folded q] by simp
  show "hello_mask 34 q = if_mask ia" "hello_int 34 q = MOSPF_DEFAULT_HELLOINT"
    using lg lb by (simp_all add: q b_def mospf_init_hello_def Let_def hello_mask_def hello_int_def buffer_simps)
qed

lemma hello_handled:
  assumes "length (if_mac ia) = ETH_ALEN" "if_mask ia = if_mask ib"
  shows "handle_packet7 ib (fst (hello_packet ia rid (area_id s) r)) s =
    Inr (update_nbr_list_via_hello ib rid (if_ip ia) (if_mask ia) s)"
  using hello_packet_fields [OF assms(1), of rid "area_id s" r] assms(2)
  by (simp add: handle_packet7_mospf handle_mospf_packet_def handle_mospf_hello_def)

section \<open>What the operations leave alone\<close>

lemma lsu_send_frame [simp]:
  "ifaces (lsu_send msg i n s) = ifaces s" "mospf_db (lsu_send msg i n s) = mospf_db s"
  "router_id (lsu_send msg i n s) = router_id s" "area_id (lsu_send msg i n s) = area_id s"
  "sequence_num (lsu_send msg i n s) = sequence_num s + 1"
  by (simp_all add: lsu_send_def split_beta Let_def)

lemma lsu_loop_frame [simp]:
  "ifaces (lsu_loop msg ns s) = ifaces s" "mospf_db (lsu_loop msg ns s) = mospf_db s"
  "router_id (lsu_loop msg ns s) = router_id s" "area_id (lsu_loop msg ns s) = area_id s"
  "sequence_num (lsu_loop msg ns s) = sequence_num s + of_nat (length ns)"
  by (induction msg ns s rule: lsu_loop.induct) simp_all

lemma send_mospf_lsu_frame [simp]:
  "ifaces (send_mospf_lsu s) = ifaces s" "mospf_db (send_mospf_lsu s) = mospf_db s"
  "router_id (send_mospf_lsu s) = router_id s" "area_id (send_mospf_lsu s) = area_id s"
  by (simp_all add: send_mospf_lsu_def)

lemma send_mospf_hello_frame [simp]:
  "ifaces (send_mospf_hello i s) = ifaces s" "mospf_db (send_mospf_hello i s) = mospf_db s"
  "router_id (send_mospf_hello i s) = router_id s" "area_id (send_mospf_hello i s) = area_id s"
  by (simp_all add: send_mospf_hello_def split_beta Let_def)

lemma lsu_flood_frame [simp]:
  "ifaces (lsu_flood i m p s) = ifaces s" "mospf_db (lsu_flood i m p s) = mospf_db s"
  "router_id (lsu_flood i m p s) = router_id s" "area_id (lsu_flood i m p s) = area_id s"
  by (simp_all add: lsu_flood_def Let_def)

lemma spf_run_frame:
  assumes "spf_run s = Inr t"
  shows "ifaces t = ifaces s" "mospf_db t = mospf_db s" "router_id t = router_id s" "area_id t = area_id s"
    "\<exists>rt. mospf_dijkstra (router_id s) (mospf_db s) (ifaces s) (ktable s) = Inr rt \<and> rtable (net t) = rt"
proof -
  obtain rt where rt: "mospf_dijkstra (router_id s) (mospf_db s) (ifaces s) (ktable s) = Inr rt"
    using assms by (cases "mospf_dijkstra (router_id s) (mospf_db s) (ifaces s) (ktable s)") (auto simp: spf_run_def)
  then have "t = s\<lparr>net := (net s)\<lparr>rtable := rt\<rparr>\<rparr>"
    using assms by (simp add: spf_run_def load_rtable_append clear_rtable_def)
  then show "ifaces t = ifaces s" "mospf_db t = mospf_db s" "router_id t = router_id s" "area_id t = area_id s"
    "\<exists>rt. mospf_dijkstra (router_id s) (mospf_db s) (ifaces s) (ktable s) = Inr rt \<and> rtable (net t) = rt"
    using rt by simp_all
qed

lemma hello_loop_frame:
  "map mi_iface (fst (hello_loop ifs s)) = map mi_iface ifs"
  "map nbr_list (fst (hello_loop ifs s)) = map nbr_list ifs"
  "map num_nbr (fst (hello_loop ifs s)) = map num_nbr ifs"
  "mospf_db (snd (hello_loop ifs s)) = mospf_db s" "router_id (snd (hello_loop ifs s)) = router_id s"
  by (induction ifs s rule: hello_loop.induct) (simp_all add: split_beta Let_def)

section \<open>The invariant\<close>

definition nbrs_ok :: "mospf_iface \<Rightarrow> bool" where
  "nbrs_ok i = (num_nbr i = int (length (nbr_list i)) \<and> distinct (map nbr_id (nbr_list i)))"

definition mospf_inv :: "mospf \<Rightarrow> bool" where
  "mospf_inv s =
     ((\<forall>i\<in>set (ifaces s). nbrs_ok i) \<and> distinct (map db_rid (mospf_db s)) \<and>
      router_id s \<notin> set (map db_rid (mospf_db s)))"

lemma mospf_inv_frame:
  "mospf_inv s \<Longrightarrow> ifaces t = ifaces s \<Longrightarrow> mospf_db t = mospf_db s \<Longrightarrow> router_id t = router_id s \<Longrightarrow> mospf_inv t"
  by (simp add: mospf_inv_def)

lemma refresh_nbr_ids [simp]: "map nbr_id (refresh_nbr r ns) = map nbr_id ns"
  by (induction ns) auto

lemma refresh_nbr_length [simp]: "length (refresh_nbr r ns) = length ns"
  by (induction ns) auto

lemma db_replace_rids:
  "set (map db_rid (db_replace e ds)) = insert (db_rid e) (set (map db_rid ds))"
  "distinct (map db_rid ds) \<Longrightarrow> distinct (map db_rid (db_replace e ds))"
proof -
  show s: "set (map db_rid (db_replace e ds)) = insert (db_rid e) (set (map db_rid ds))" for ds
    by (induction ds) auto
  show "distinct (map db_rid ds) \<Longrightarrow> distinct (map db_rid (db_replace e ds))"
  proof (induction ds)
    case (Cons d ds)
    then show ?case using s [of ds] by auto
  qed simp
qed

lemma db_touch_rids [simp]: "map db_rid (db_touch r ds) = map db_rid ds"
  by (simp add: db_touch_def)

lemma db_touch_image: "db_rid ` set (db_touch r ds) = db_rid ` set ds"
  by (metis db_touch_rids set_map)

lemma mospf_inv_flood: "mospf_inv s \<Longrightarrow> mospf_inv (lsu_flood i m p s)"
  by (erule mospf_inv_frame) simp_all

lemma mospf_inv_hello_update:
  assumes "mospf_inv s"
  shows "mospf_inv (update_nbr_list_via_hello iface rid ip msk s)"
proof (cases "\<exists>i\<in>set (ifaces s). mi_iface i = iface \<and> (\<exists>n\<in>set (nbr_list i). nbr_id n = rid)")
  case True
  then show ?thesis
    using assms by (auto simp: update_nbr_list_via_hello_def mospf_inv_def nbrs_ok_def)
next
  case False
  let ?n = "\<lparr>nbr_id = rid, nbr_ip = ip, nbr_mask = msk, nbr_alive = MOSPF_DATABASE_TIMEOUT\<rparr>"
  have "nbrs_ok i'" if i': "i' \<in> set (add_neighbour iface ?n (ifaces s))" for i'
  proof -
    obtain i where "i \<in> set (ifaces s)" "i' = (if mi_iface i = iface
        then i\<lparr>nbr_list := nbr_list i @ [?n], num_nbr := num_nbr i + 1\<rparr> else i)"
      using i' unfolding add_neighbour_def set_map by (rule imageE) metis
    then show ?thesis using assms False by (auto simp: mospf_inv_def nbrs_ok_def)
  qed
  then show ?thesis
    using assms False by (auto simp: update_nbr_list_via_hello_def mospf_inv_def Let_def)
qed

lemma mospf_inv_lsu_update:
  assumes "mospf_inv s" "lsu_update m p s = Inr t" "m_rid m p \<noteq> router_id s"
  shows "mospf_inv t"
proof (cases "newer s (m_rid m p) (lsu_seq m p)")
  case True
  then obtain n arr where arr: "spf_run (s\<lparr>mospf_db := db_replace \<lparr>db_rid = m_rid m p, db_seq = lsu_seq m p,
      nadv = n, db_alive = MOSPF_DATABASE_TIMEOUT, array = arr\<rparr> (mospf_db s)\<rparr>) = Inr t"
    using assms(2) by (auto simp: lsu_update_def newer_def Let_def res_simps split: if_splits)
  then show ?thesis
    using assms(1,3) spf_run_frame [OF arr] db_replace_rids by (simp add: mospf_inv_def)
next
  case False
  then have "t = s\<lparr>mospf_db := db_touch (m_rid m p) (mospf_db s)\<rparr>"
    using assms(2) by (simp add: lsu_update_def newer_def Let_def)
  then show ?thesis using assms(1) by (simp add: mospf_inv_def db_touch_image)
qed

lemma mospf_inv_mospf_packet:
  assumes "mospf_inv s" "handle_mospf_packet i p s = Inr t"
  shows "mospf_inv t"
proof -
  have hello: "mospf_inv t" if "handle_mospf_hello i p s = Inr t"
    using that assms(1) mospf_inv_hello_update by (auto simp: handle_mospf_hello_def Let_def split: if_splits)
  have lsu: "mospf_inv t" if l: "handle_mospf_lsu i p s = Inr t"
  proof -
    let ?m = "14 + IP_HDR_SIZE p"
    have "t = s \<or> (m_rid ?m p \<noteq> router_id s \<and> (\<exists>u. lsu_update ?m p s = Inr u \<and> t = lsu_flood i ?m p u))"
      using l by (auto simp: handle_mospf_lsu_def Let_def res_map_def res_simps split: if_splits)
    then show ?thesis
      using assms(1) mospf_inv_lsu_update [OF assms(1)] by (auto intro: mospf_inv_flood)
  qed
  show ?thesis
    using assms hello lsu by (auto simp: handle_mospf_packet_def Let_def split: if_splits)
qed

lemma mospf_inv_receive:
  assumes "mospf_inv s" "handle_packet7 i p s = Inr t"
  shows "mospf_inv t"
proof -
  have net: "mospf_inv t" if "res_map (\<lambda>r. s\<lparr>net := r\<rparr>) m = Inr t" for m
    using that assms(1) by (cases m) (auto intro: mospf_inv_frame)
  have ip: "mospf_inv t" if "handle_ip_packet7 i p s = Inr t"
    using that assms(1) net mospf_inv_mospf_packet [OF assms(1)]
    by (auto simp: handle_ip_packet7_def Let_def split: if_splits)
  show ?thesis using assms net ip by (auto simp: handle_packet7_def split: if_splits)
qed

lemma age_iface_ok: "nbrs_ok i \<Longrightarrow> nbrs_ok (age_iface i)"
proof -
  assume i: "nbrs_ok i"
  let ?d = "filter (\<lambda>n. nbr_alive n \<le> 0) (nbr_list i)" and ?k = "filter (\<lambda>n. \<not> nbr_alive n \<le> 0) (nbr_list i)"
  have "length (nbr_list i) = length ?d + length ?k" by (simp add: sum_length_filter_compl)
  moreover have "distinct (map nbr_id ?k)" using i by (simp add: nbrs_ok_def distinct_map_filter)
  ultimately show ?thesis using i by (simp add: nbrs_ok_def age_iface_def comp_def)
qed

lemma mospf_inv_nbr_scan: "checking_nbr_scan s = (b, t) \<Longrightarrow> mospf_inv s \<Longrightarrow> mospf_inv t"
  by (auto simp: checking_nbr_scan_def mospf_inv_def age_iface_ok)

lemma mospf_inv_hello_thread:
  assumes "mospf_inv s"
  shows "mospf_inv (sending_mospf_hello s)"
proof -
  let ?ifs = "fst (hello_loop (ifaces s) s)"
  note f = hello_loop_frame [of "ifaces s" s]
  have "nbrs_ok i" if i: "i \<in> set ?ifs" for i
  proof -
    obtain k where k: "k < length ?ifs" "i = ?ifs ! k" using i by (auto simp: in_set_conv_nth)
    have len: "length ?ifs = length (ifaces s)" using f(2) by (metis length_map)
    have "nbr_list i = nbr_list (ifaces s ! k)" using k f(2) len by (metis nth_map)
    moreover have "num_nbr i = num_nbr (ifaces s ! k)" using k f(3) len by (metis nth_map)
    ultimately show ?thesis using assms k(1) len by (simp add: mospf_inv_def nbrs_ok_def)
  qed
  then show ?thesis
    using assms f(4,5) by (simp add: sending_mospf_hello_def mospf_inv_def split_beta)
qed

lemma mospf_inv_lsu_thread: "mospf_inv s \<Longrightarrow> mospf_inv (sending_mospf_lsu s)"
  by (auto simp: sending_mospf_lsu_def Let_def intro: mospf_inv_frame)

lemma mospf_inv_db_scan:
  assumes "checking_database_scan s = (b, t)" "mospf_inv s"
  shows "mospf_inv t"
proof -
  let ?es = "map (\<lambda>e. e\<lparr>db_alive := db_alive e - 1\<rparr>) (mospf_db s)"
  have "distinct (map db_rid ?es)" using assms(2) by (simp add: mospf_inv_def comp_def)
  then have "distinct (map db_rid (filter (\<lambda>e. \<not> db_alive e \<le> 0) ?es))" by (rule distinct_map_filter)
  then show ?thesis using assms by (auto simp: checking_database_scan_def mospf_inv_def)
qed

section \<open>Ageing\<close>

lemma checking_nbr_ifaces: "ifaces (checking_nbr s) = map age_iface (ifaces s)"
  by (simp add: checking_nbr_def checking_nbr_scan_def)

lemma checking_nbr_iterate: "ifaces ((checking_nbr ^^ k) s) = map (age_iface ^^ k) (ifaces s)"
  by (induction k) (simp_all add: checking_nbr_ifaces)

lemma age_iterate:
  "nbr_list ((age_iface ^^ k) i) =
     map (\<lambda>n. n\<lparr>nbr_alive := nbr_alive n - int k\<rparr>) (filter (\<lambda>n. int k \<le> nbr_alive n \<or> k = 0) (nbr_list i))"
proof (induction k)
  case 0
  then show ?case by simp
next
  case (Suc k)
  have eq: "filter (\<lambda>n. \<not> nbr_alive n \<le> 0) (map (\<lambda>n. n\<lparr>nbr_alive := nbr_alive n - int k\<rparr>)
      (filter (\<lambda>n. int k \<le> nbr_alive n \<or> k = 0) ns)) =
    map (\<lambda>n. n\<lparr>nbr_alive := nbr_alive n - int k\<rparr>) (filter (\<lambda>n. int (Suc k) \<le> nbr_alive n \<or> Suc k = 0) ns)" for ns
    by (induction ns) auto
  show ?case using Suc by (simp add: age_iface_def eq comp_def algebra_simps)
qed

lemma mi_iface_age: "mi_iface ((age_iface ^^ k) i) = mi_iface i"
  by (induction k) (simp_all add: age_iface_def)

section \<open>An advertisement count that overflows\<close>

lemma lsu_array_overflow:
  assumes "m + 24 \<le> length p" "lsu_nadv m p = 0x40000000"
  shows "lsu_array m p = Inr (1073741824, [])"
  using assms by (simp add: lsu_array_def Let_def)

lemma dijkstra_short_array:
  assumes "e \<in> set db" "db_rid e \<noteq> self" "nadv e > int (length (array e))"
  shows "mospf_dijkstra self db ifs rt \<noteq> Inr rt'"
proof -
  have bad: "lsas e = Inl Out_Of_Bounds" using assms(3) by (simp add: lsas_def)
  have "e \<in> set es \<Longrightarrow> db_routes self ifs ns es rt \<noteq> Inr rt'" for ns es rt
  proof (induction es arbitrary: rt)
    case (Cons d es)
    show ?case
    proof (cases "d = e")
      case True
      then show ?thesis using bad assms(2) by simp
    next
      case False
      then have "db_routes self ifs ns es rt \<noteq> Inr rt'" for rt using Cons by simp
      then show ?thesis by (auto simp: res_simps)
    qed
  qed simp
  then show ?thesis using assms(1) by (auto simp: mospf_dijkstra_def res_simps)
qed

lemma db_replace_in: "e \<in> set (db_replace e ds)"
  by (induction ds) auto

section \<open>Properties\<close>

text \<open>
  Property C19: Link state information arrives as it was sent. The update that a router builds for one of
  its neighbours, received by that neighbour, replaces the neighbour's database entry for the
  router by exactly the sender's advertisements and sequence number, whenever that number is
  newer than what the neighbour has; then the routes are recomputed and the update is flooded.
\<close>
theorem lsu_roundtrip:
  assumes "lsu_fits sa" "length (if_mac ia) = ETH_ALEN" "area_id sa = area_id sb"
    "router_id sa \<noteq> router_id sb" "newer sb (router_id sa) (sequence_num sa)" "if_ip ib = nbr_ip nbr"
  shows "let p = fst (lsu_packet ia nbr (generate_mospf_lsu sa) r) in
    handle_packet7 ib p sb = res_map (lsu_flood ib 34 p)
      (spf_run (sb\<lparr>mospf_db := db_replace \<lparr>db_rid = router_id sa, db_seq = sequence_num sa,
         nadv = int (length (own_lsas sa)), db_alive = MOSPF_DATABASE_TIMEOUT, array = own_lsas sa\<rparr> (mospf_db sb)\<rparr>))"
  unfolding Let_def by (rule lsu_handled [OF assms])

definition example_mospf :: "u32 \<Rightarrow> mospf_iface \<Rightarrow> mospf" where
  "example_mospf rid i = \<lparr>area_id = 0, router_id = rid, sequence_num = 7, lsuint = 30, ifaces = [i],
     mospf_db = [], net = example_router, ktable = []\<rparr>"

theorem lsu_roundtrip_witness:
  "\<exists>p. handle_packet7 (example_iface\<lparr>if_ip := 0x0a000002\<rparr>) p (example_mospf 2 example_mif) =
     res_map (lsu_flood (example_iface\<lparr>if_ip := 0x0a000002\<rparr>) 34 p)
       (spf_run ((example_mospf 2 example_mif)\<lparr>mospf_db := [\<lparr>db_rid = 1, db_seq = 7, nadv = 1, db_alive = 40,
          array = own_lsas (example_mospf 1 example_mif)\<rparr>]\<rparr>))"
proof -
  let ?n = "\<lparr>nbr_id = 2, nbr_ip = 0x0a000002, nbr_mask = 0xffffff00, nbr_alive = 40\<rparr>"
  have "length (own_lsas (example_mospf 1 example_mif)) = 1"
    by (simp add: own_lsas_def iface_lsas_def example_mospf_def example_mif_def)
  then show ?thesis
    using lsu_roundtrip [of "example_mospf 1 example_mif" example_iface "example_mospf 2 example_mif"
        "example_iface\<lparr>if_ip := 0x0a000002\<rparr>" ?n example_router]
    by (intro exI [of _ "fst (lsu_packet example_iface ?n (generate_mospf_lsu (example_mospf 1 example_mif)) example_router)"])
      (simp add: lsu_fits_def newer_def example_mospf_def Let_def)
qed

text \<open>
  A hello makes a neighbour. The hello a router sends on an interface, received on an interface
  of the same subnet and area where the router is not yet known, adds exactly that router with
  its address to the neighbours of the interface.
\<close>
theorem hello_forms_adjacency:
  assumes "length (if_mac ia) = ETH_ALEN" "if_mask ia = if_mask ib"
    "if_ip ib AND if_mask ib = if_ip ia AND if_mask ia"
    "\<forall>i\<in>set (ifaces s). mi_iface i = ib \<longrightarrow> (\<forall>n\<in>set (nbr_list i). nbr_id n \<noteq> rid)"
  shows "\<exists>t. handle_packet7 ib (fst (hello_packet ia rid (area_id s) r)) s = Inr t \<and>
    ifaces t = map (\<lambda>i. if mi_iface i = ib
      then i\<lparr>nbr_list := nbr_list i @ [\<lparr>nbr_id = rid, nbr_ip = if_ip ia, nbr_mask = if_mask ia,
               nbr_alive = MOSPF_DATABASE_TIMEOUT\<rparr>], num_nbr := num_nbr i + 1\<rparr> else i) (ifaces s)"
proof -
  have unknown: "\<not> (\<exists>i\<in>set (ifaces s). mi_iface i = ib \<and> (\<exists>n\<in>set (nbr_list i). nbr_id n = rid))"
    using assms(4) by blast
  show ?thesis
    using hello_handled [OF assms(1,2), of rid s r] assms(2,3)
    unfolding update_nbr_list_via_hello_def if_not_P [OF unknown] by (simp add: add_neighbour_def)
qed

theorem hello_forms_adjacency_witness:
  "\<exists>t. handle_packet7 example_iface (fst (hello_packet (example_iface\<lparr>if_ip := 0x0a000102\<rparr>) 9 0 example_router))
     (example_mospf 1 (example_mif\<lparr>mi_iface := example_iface\<rparr>)) = Inr t \<and> length (ifaces t) = 1"
  using hello_forms_adjacency [of "example_iface\<lparr>if_ip := 0x0a000102\<rparr>" example_iface
      "example_mospf 1 (example_mif\<lparr>mi_iface := example_iface\<rparr>)" 9 example_router]
  by (fastforce simp: example_mospf_def example_mif_def example_iface_def)

text \<open>
  Sequence numbers do not wrap for the receiver. Sequence numbers have 16 bits and a router
  adds one for every neighbour it sends an update to, but the receiver compares them as numbers:
  once its entry for a router carries 65535, no later update of that router is stored; it only
  keeps the old advertisements alive.
\<close>
theorem lsu_sequence_wrap_ignored:
  assumes "find (\<lambda>d. db_rid d = m_rid m p) (mospf_db s) = Some d" "db_seq d = 0xffff"
  shows "lsu_update m p s = Inr (s\<lparr>mospf_db := db_touch (m_rid m p) (mospf_db s)\<rparr>) \<and>
    sequence_num (send_mospf_lsu s) = sequence_num s + of_nat (length (nbr_pairs (ifaces s)))"
proof -
  have "\<not> lsu_seq m p > 0xffff"
    using unat_u16_less [of "lsu_seq m p"] by (simp add: word_less_nat_alt not_less del: unat_u16_less)
  then show ?thesis using assms by (simp add: lsu_update_def send_mospf_lsu_def Let_def)
qed

theorem lsu_sequence_wrap_ignored_witness:
  "\<exists>t. lsu_update 0 (replicate 36 0) ((example_mospf 1 example_mif)\<lparr>mospf_db :=
      [\<lparr>db_rid = 0, db_seq = 0xffff, nadv = 0, db_alive = 1, array = []\<rparr>]\<rparr>) = Inr t \<and>
     map array (mospf_db t) = [[]]"
proof -
  have "m_rid 0 (replicate 36 0) = 0"
    by (simp add: m_rid_def ld32_def ld16_def le16_def le32_def ntohl_def ntohs_def lo8_def hi8_def lo16_def hi16_def)
  then show ?thesis
    using lsu_sequence_wrap_ignored [of 0 "replicate 36 0" "(example_mospf 1 example_mif)\<lparr>mospf_db :=
      [\<lparr>db_rid = 0, db_seq = 0xffff, nadv = 0, db_alive = 1, array = []\<rparr>]\<rparr>"]
    by (simp add: db_touch_def)
qed

text \<open>
  A silent neighbour is kept for the database timeout. After \<open>k\<close> seconds without a hello the
  neighbours of an interface are those whose counter was at least \<open>k\<close>; hellos set it to 40, so a
  neighbour that falls silent is kept for 40 more seconds, although the protocol header
  defines a hello timeout of 6.
\<close>
theorem silent_neighbour_kept:
  "map (map nbr_id \<circ> nbr_list) (ifaces ((checking_nbr ^^ Suc k) s)) =
   map (\<lambda>i. map nbr_id (filter (\<lambda>n. int (Suc k) \<le> nbr_alive n) (nbr_list i))) (ifaces s) \<and>
   MOSPF_HELLO_TIMEOUT < MOSPF_DATABASE_TIMEOUT"
  unfolding checking_nbr_iterate by (simp add: age_iterate comp_def del: funpow.simps)

text \<open>
  An update can crash the daemon. An update of another router that is newer and announces
  1073741824 advertisements is accepted, because the size of the copy wraps to 0, and reading
  the advertisements then runs outside the empty array, or the computation fails before that.
\<close>
theorem lsu_count_overflow_faults:
  assumes "m + 24 \<le> length p" "lsu_nadv m p = 0x40000000" "m_rid m p \<noteq> router_id s"
    "newer s (m_rid m p) (lsu_seq m p)"
  shows "\<exists>f. lsu_update m p s = Inl f"
proof -
  let ?e = "\<lparr>db_rid = m_rid m p, db_seq = lsu_seq m p, nadv = 1073741824,
      db_alive = MOSPF_DATABASE_TIMEOUT, array = []\<rparr>"
  let ?s = "s\<lparr>mospf_db := db_replace ?e (mospf_db s)\<rparr>"
  have "lsu_update m p s = spf_run ?s"
    using assms(1,4) lsu_array_overflow [OF assms(1,2)] by (simp add: lsu_update_def newer_def Let_def)
  moreover have "mospf_dijkstra (router_id ?s) (mospf_db ?s) (ifaces ?s) (ktable ?s) \<noteq> Inr rt" for rt
    using assms(3) db_replace_in [of ?e "mospf_db s"] by (intro dijkstra_short_array [of ?e]) simp_all
  ultimately show ?thesis
    by (cases "mospf_dijkstra (router_id ?s) (mospf_db ?s) (ifaces ?s) (ktable ?s)") (auto simp: spf_run_def)
qed

theorem lsu_count_overflow_faults_witness:
  "\<exists>f. lsu_update 0 (replicate 20 0 @ [0x40, 0, 0, 0]) (example_mospf 1 example_mif) = Inl f"
proof -
  let ?p = "replicate 20 0 @ [0x40, 0, 0, 0 :: u8]"
  have "m_rid 0 ?p = 0" "lsu_nadv 0 ?p = 0x40000000"
    by (simp_all add: m_rid_def lsu_nadv_def ld32_def ld16_def le16_def le32_def ntohl_def ntohs_def
        lo8_def hi8_def lo16_def hi16_def nth_append)
  then show ?thesis
    using lsu_count_overflow_faults [of 0 ?p "example_mospf 1 example_mif"]
    by (simp add: newer_def example_mospf_def)
qed

end
