(* ===== verification/Mospf_Net.thy ===== *)
theory Mospf_Net
  imports Mospf
begin

text \<open>
  The MOSPF router as a whole: the handlers and threads of \<open>Mospf\<close> over the IP stack of \<open>Router7\<close>,
  whose ARP cache the sweep thread works on at the same time. The invariant of the stack, \<open>router_inv\<close>,
  holds through everything the daemon does: it replaces the routing table by one that leads out of the
  interfaces it was started with, and every packet it hands to the stack has its headers. The two
  threads that release \<^verbatim>\<open>mospf_lock\<close> after their scan are split into steps between which everything
  else can happen.
\<close>

section \<open>The invariant of the stack\<close>

definition net_inv :: "mospf \<Rightarrow> bool" where
  "net_inv s \<longleftrightarrow> router_inv (net s) \<and> macs_ok (ktable s) \<and>
     (\<forall>i\<in>mi_iface ` set (ifaces s). length (if_mac i) = ETH_ALEN)"

lemma net_inv_frame:
  "net_inv s \<Longrightarrow> router_inv (net t) \<Longrightarrow> ktable t = ktable s \<Longrightarrow> mi_iface ` set (ifaces t) = mi_iface ` set (ifaces s) \<Longrightarrow>
   net_inv t"
  by (simp add: net_inv_def)

lemma net_inv_net: "net_inv s \<Longrightarrow> router_inv r \<Longrightarrow> net_inv (s\<lparr>net := r\<rparr>)"
  by (erule net_inv_frame) simp_all

section \<open>Routes\<close>

lemma find_nbr_iface: "find_nbr r ifs = Some (i, n) \<Longrightarrow> i \<in> mi_iface ` set ifs"
  by (induction ifs) (auto split: option.splits)

lemma lsa_routes_ifaces:
  "lsa_routes self ifs ns r ls rt = Inr rt' \<Longrightarrow> e \<in> set rt' \<Longrightarrow> e \<in> set rt \<or> rt_iface e \<in> mi_iface ` set ifs"
proof (induction ls arbitrary: rt)
  case (Cons l ls)
  have new: "rt_iface e \<in> mi_iface ` set ifs"
    if "e \<in> set (case find_nbr h ifs of None \<Rightarrow> rt | Some (i, n) \<Rightarrow> add_route l i n rt)" "e \<notin> set rt" for h
    using that find_nbr_iface by (fastforce simp: add_route_def new_rt_entry_def split: option.splits if_splits)
  from Cons.prems(1) obtain h where "lsa_routes self ifs ns r ls
      (case find_nbr h ifs of None \<Rightarrow> rt | Some (i, n) \<Rightarrow> add_route l i n rt) = Inr rt'"
    by (auto split: option.splits)
  then show ?case using Cons.IH Cons.prems(2) new by blast
qed simp

lemma db_routes_ifaces:
  "db_routes self ifs ns es rt = Inr rt' \<Longrightarrow> e \<in> set rt' \<Longrightarrow> e \<in> set rt \<or> rt_iface e \<in> mi_iface ` set ifs"
proof (induction es arbitrary: rt)
  case (Cons d es)
  then show ?case using lsa_routes_ifaces by (auto simp: res_simps split: if_splits) blast+
qed simp

lemma dijkstra_ifaces:
  "mospf_dijkstra self db ifs rt = Inr rt' \<Longrightarrow> e \<in> set rt' \<Longrightarrow> e \<in> set rt \<or> rt_iface e \<in> mi_iface ` set ifs"
  by (auto simp: mospf_dijkstra_def res_simps dest: db_routes_ifaces)

lemma net_inv_spf:
  assumes "net_inv s" "spf_run s = Inr t"
  shows "net_inv t"
proof -
  obtain rt where rt: "mospf_dijkstra (router_id s) (mospf_db s) (ifaces s) (ktable s) = Inr rt"
    "t = s\<lparr>net := (net s)\<lparr>rtable := rt\<rparr>\<rparr>"
    using assms(2) by (auto simp: spf_run_def res_map_def res_simps load_rtable_append clear_rtable_def)
  have "macs_ok rt" using assms(1) dijkstra_ifaces [OF rt(1)] by (fastforce simp: net_inv_def macs_ok_def)
  then show ?thesis using assms(1) rt(2) by (simp add: net_inv_def router_inv_def entries_inv_def)
qed

section \<open>Messages\<close>

lemma ip_init_hdr7_state: "snd (ip_init_hdr7 p sa da len proto r) = r\<lparr>rnd_pos := Suc (rnd_pos r)\<rparr>"
  by (simp add: ip_init_hdr7_def next_rand_def split_beta Let_def)

lemma long_ip_init_hdr7: "n \<le> length q \<Longrightarrow> n \<le> length (fst (ip_init_hdr7 q sa da len proto s))"
  unfolding ip_init_hdr7_def Let_def split_beta fst_conv by (intro long_put)

lemma router_inv_hello: "router_inv r \<Longrightarrow> router_inv (iface_send_packet i p (snd (hello_packet j rid aid r)))"
  by (erule router_inv_frame) (simp_all add: hello_packet_def ip_init_hdr7_state split_beta Let_def)

lemma net_inv_hello: "net_inv s \<Longrightarrow> net_inv (send_mospf_hello i s)"
  using router_inv_hello [of "net s"]
  by (auto simp: send_mospf_hello_def split_beta Let_def net_inv_def)

lemma hello_loop_net:
  "net_inv s \<Longrightarrow> net_inv (snd (hello_loop ifs s))" "ifaces (snd (hello_loop ifs s)) = ifaces s"
  by (induction ifs s rule: hello_loop.induct) (simp_all add: split_beta Let_def net_inv_hello)

lemma net_inv_hello_thread:
  assumes "net_inv s"
  shows "net_inv (sending_mospf_hello s)"
proof -
  have "mi_iface ` set (fst (hello_loop (ifaces s) s)) = mi_iface ` set (ifaces s)"
    using hello_loop_frame(1) [of "ifaces s" s] by (metis set_map)
  then show ?thesis
    using hello_loop_net(1) [of s "ifaces s"] hello_loop_net(2) [of "ifaces s" s] assms by (simp add: sending_mospf_hello_def split_beta net_inv_def)
qed

lemma router_inv_lsu: "router_inv r \<Longrightarrow> router_inv (ip_send_packet (fst (lsu_packet i n msg r)) (snd (lsu_packet i n msg r)))"
proof (rule router_inv_ip_send)
  assume "router_inv r"
  then show "router_inv (snd (lsu_packet i n msg r))"
    by (simp add: lsu_packet_def ip_init_hdr7_state split_beta Let_def)
  show "34 \<le> length (fst (lsu_packet i n msg r))"
    unfolding lsu_packet_def Let_def split_beta fst_conv by (intro long_put long_ip_init_hdr7) simp
qed

lemma net_inv_lsu_send:
  assumes "net_inv s"
  shows "net_inv (lsu_send msg i n s)"
proof -
  have "router_inv (net s)" using assms by (simp add: net_inv_def)
  from router_inv_lsu [OF this] show ?thesis using assms by (simp add: lsu_send_def split_beta Let_def net_inv_def)
qed

lemma net_inv_lsu_loop: "net_inv s \<Longrightarrow> net_inv (lsu_loop msg ns s)"
  by (induction msg ns s rule: lsu_loop.induct) (simp_all add: net_inv_lsu_send)

lemma net_inv_lsu: "net_inv s \<Longrightarrow> net_inv (send_mospf_lsu s)"
  by (simp add: send_mospf_lsu_def net_inv_lsu_loop)

lemma router_inv_fold_send:
  "(\<forall>n\<in>set ns. 34 \<le> length (f n)) \<Longrightarrow> router_inv r \<Longrightarrow> router_inv (fold (\<lambda>n. ip_send_packet (f n)) ns r)"
  by (induction ns arbitrary: r) (simp_all add: router_inv_ip_send)

lemma net_inv_flood:
  assumes "net_inv s" "34 \<le> length p"
  shows "net_inv (lsu_flood i m p s)"
proof -
  have "34 \<le> length (lsu_copy m q ttl n)" if "34 \<le> length q" for q ttl n
    unfolding lsu_copy_def Let_def using that by (intro long_put)
  moreover have "34 \<le> length (put (m + 12) (bytes16 c) (put (m + 18) [ttl] p))" for c ttl
    using assms(2) by (intro long_put)
  ultimately have "router_inv (fold (\<lambda>x. ip_send_packet (lsu_copy m (put (m + 12) (bytes16 c) (put (m + 18) [ttl] p)) ttl (snd x))) ns (net s))"
    for c ttl and ns :: "(iface_info \<times> mospf_nbr) list"
    using assms(1) by (intro router_inv_fold_send) (auto simp: net_inv_def)
  then show ?thesis
    using assms(1) by (auto simp: lsu_flood_def Let_def split_beta' intro!: net_inv_net)
qed

section \<open>Steps\<close>

lemma net_inv_hello_update: "net_inv s \<Longrightarrow> net_inv (update_nbr_list_via_hello iface rid ip msk s)"
proof -
  assume s: "net_inv s"
  have img: "mi_iface ` set (map (\<lambda>i. if c i then g i else i) ifs) = mi_iface ` set ifs"
    if "\<And>i. mi_iface (g i) = mi_iface i" for c and g :: "mospf_iface \<Rightarrow> mospf_iface" and ifs
  proof -
    have "map mi_iface (map (\<lambda>i. if c i then g i else i) ifs) = map mi_iface ifs" using that by simp
    then show ?thesis by (metis set_map)
  qed
  have same: "net_inv (s\<lparr>ifaces := ifs\<rparr>)" if "mi_iface ` set ifs = mi_iface ` set (ifaces s)" for ifs
    using s that by (simp add: net_inv_def)
  show ?thesis
    unfolding update_nbr_list_via_hello_def add_neighbour_def Let_def
    using s by (auto intro!: net_inv_lsu same img)
qed

lemma net_inv_lsu_update:
  assumes "net_inv s" "lsu_update m p s = Inr t"
  shows "net_inv t"
proof -
  have db: "net_inv (s\<lparr>mospf_db := d\<rparr>)" for d using assms(1) by (simp add: net_inv_def)
  show ?thesis
    using assms(2) net_inv_spf [OF db] db by (auto simp: lsu_update_def Let_def res_simps split: if_splits)
qed

lemma net_inv_mospf_packet:
  assumes "net_inv s" "34 \<le> length p" "handle_mospf_packet i p s = Inr t"
  shows "net_inv t"
proof -
  have hello: "net_inv t" if "handle_mospf_hello i p s = Inr t"
    using that assms(1) net_inv_hello_update by (auto simp: handle_mospf_hello_def Let_def split: if_splits)
  have lsu: "net_inv t" if "handle_mospf_lsu i p s = Inr t"
    using that assms(1,2) net_inv_lsu_update net_inv_flood
    by (auto simp: handle_mospf_lsu_def Let_def res_map_def res_simps split: if_splits)
  show ?thesis
    using assms hello lsu by (auto simp: handle_mospf_packet_def Let_def split: if_splits)
qed

lemma net_inv_receive:
  assumes "net_inv s" "handle_packet7 i p s = Inr t"
  shows "net_inv t"
proof -
  have r: "router_inv (net s)" using assms(1) by (simp add: net_inv_def)
  have net: "net_inv t" if "res_map (\<lambda>r. s\<lparr>net := r\<rparr>) m = Inr t" "\<And>r. m = Inr r \<Longrightarrow> router_inv r" for m
    using that assms(1) by (cases m) (auto intro: net_inv_net)
  have ip: "net_inv t" if "handle_ip_packet7 i p s = Inr t"
    using that assms(1) net_inv_mospf_packet [OF assms(1), of p i t] ic7.router_inv_icmp [OF _ r] router_inv_forward7 [OF r]
    by (auto simp: handle_ip_packet7_def Let_def split: if_splits intro: net)
  show ?thesis
    using assms ip router_inv_handle_arp [OF r] by (auto simp: handle_packet7_def split: if_splits intro: net)
qed

lemma net_inv_nbr_scan: "checking_nbr_scan s = (b, t) \<Longrightarrow> net_inv s \<Longrightarrow> net_inv t"
  by (auto simp: checking_nbr_scan_def net_inv_def age_iface_def image_image)

lemma net_inv_db_scan: "checking_database_scan s = (b, t) \<Longrightarrow> net_inv s \<Longrightarrow> net_inv t"
  by (auto simp: checking_database_scan_def net_inv_def Let_def)

lemma net_inv_lsu_thread:
  assumes "net_inv s"
  shows "net_inv (sending_mospf_lsu s)"
proof -
  have i: "net_inv (s\<lparr>lsuint := n\<rparr>)" for n using assms by (simp add: net_inv_def)
  then have "net_inv ((send_mospf_lsu (s\<lparr>lsuint := n\<rparr>))\<lparr>lsuint := k\<rparr>)" for n k
    using net_inv_lsu [of "s\<lparr>lsuint := n\<rparr>"] by (simp add: net_inv_def)
  then show ?thesis using i by (simp add: sending_mospf_lsu_def Let_def)
qed

lemma net_inv_init:
  assumes "\<forall>i\<in>set ifs. length (if_mac i) = ETH_ALEN" "\<forall>e\<in>set kt. rt_iface e \<in> set ifs"
    "router_inv r"
  shows "net_inv (mospf_init ifs r kt)"
  using assms by (auto simp: net_inv_def mospf_init_def macs_ok_def)

section \<open>The threads\<close>

text \<open>
  What happens in one piece: a frame is handled, the hello or the update thread does the work of one
  second (both hold \<^verbatim>\<open>mospf_lock\<close> for all of it), the sweep thread of the ARP cache makes a pass, time
  passes, and the kernel's table changes to one that names interfaces of the router.
\<close>

inductive mospf_step :: "mospf \<Rightarrow> mospf \<Rightarrow> bool" where
  receive: "handle_packet7 i p s = Inr t \<Longrightarrow> mospf_step s t"
| hello: "mospf_step s (sending_mospf_hello s)"
| lsu: "mospf_step s (sending_mospf_lsu s)"
| sweep: "arpcache_sweep7 (net s) = Some (Inr r) \<Longrightarrow> mospf_step s (s\<lparr>net := r\<rparr>)"
| tick: "0 \<le> n \<Longrightarrow> mospf_step s (s\<lparr>net := (net s)\<lparr>clock := clock (net s) + n\<rparr>\<rparr>)"
| kernel: "\<forall>e\<in>set k. rt_iface e \<in> mi_iface ` set (ifaces s) \<Longrightarrow> mospf_step s (s\<lparr>ktable := k\<rparr>)"

text \<open>
  \<^verbatim>\<open>checking_nbr_thread\<close> scans under the lock and then sends without it. The update is generated
  from the lists as they are then; after that each packet is a step of its own, to any neighbour
  that is on a list at that time, and the loop may end at any time, so every way in which the lists
  change under the traversal is covered.
\<close>

datatype nbr_pc = Nbr_Sleep | Nbr_Generate | Nbr_Send bytes

inductive nbr_thread :: "nbr_pc \<times> mospf \<Rightarrow> nbr_pc \<times> mospf \<Rightarrow> bool" where
  nbr_scan: "checking_nbr_scan s = (updated, t) \<Longrightarrow>
    nbr_thread (Nbr_Sleep, s) (if updated then Nbr_Generate else Nbr_Sleep, t)"
| nbr_generate: "nbr_thread (Nbr_Generate, s) (Nbr_Send (generate_mospf_lsu s), s)"
| nbr_send: "(i, n) \<in> set (nbr_pairs (ifaces s)) \<Longrightarrow> nbr_thread (Nbr_Send msg, s) (Nbr_Send msg, lsu_send msg i n s)"
| nbr_done: "nbr_thread (Nbr_Send msg, s) (Nbr_Sleep, s)"

text \<open>
  \<^verbatim>\<open>checking_database_thread\<close> scans under the lock and then runs \<^verbatim>\<open>spf_run\<close> without it: the kernel's
  table is read, the nodes are set up, nodes are visited one by one, the routes of one database entry
  after the other are added, the routing table is cleared, and the new one is loaded entry by
  entry. Each step works on the database, the neighbours and the table as they are then.
\<close>

datatype db_pc =
    Db_Sleep | Spf_Kernel | Spf_Nodes "rt_entry list" | Spf_Search "rt_entry list" "dijkstra_node list"
  | Spf_Routes "dijkstra_node list" "rt_entry list" | Spf_Clear "rt_entry list" | Spf_Load "rt_entry list"

inductive db_thread :: "db_pc \<times> mospf \<Rightarrow> db_pc \<times> mospf \<Rightarrow> bool" where
  db_scan: "checking_database_scan s = (changed, t) \<Longrightarrow> db_thread (Db_Sleep, s) (if changed then Spf_Kernel else Db_Sleep, t)"
| db_kernel: "db_thread (Spf_Kernel, s) (Spf_Nodes (ktable s), s)"
| db_nodes: "db_thread (Spf_Nodes rt, s) (Spf_Search rt (init_nodes (router_id s) (mospf_db s) (ifaces s)), s)"
| db_visit: "min_loop 0 ns INT_MAX None = Some i \<Longrightarrow> visit (mospf_db s) i ns = Inr ns' \<Longrightarrow>
    db_thread (Spf_Search rt ns, s) (Spf_Search rt ns', s)"
| db_searched: "min_loop 0 ns INT_MAX None = None \<Longrightarrow> db_thread (Spf_Search rt ns, s) (Spf_Routes ns rt, s)"
| db_route: "e \<in> set (mospf_db s) \<Longrightarrow> db_routes (router_id s) (ifaces s) ns [e] rt = Inr rt' \<Longrightarrow>
    db_thread (Spf_Routes ns rt, s) (Spf_Routes ns rt', s)"
| db_routed: "db_thread (Spf_Routes ns rt, s) (Spf_Clear rt, s)"
| db_clear: "db_thread (Spf_Clear rt, s) (Spf_Load rt, s\<lparr>net := (net s)\<lparr>rtable := clear_rtable (rtable (net s))\<rparr>\<rparr>)"
| db_load: "db_thread (Spf_Load (e # es), s) (Spf_Load es, s\<lparr>net := (net s)\<lparr>rtable := load_rtable (rtable (net s)) [e]\<rparr>\<rparr>)"
| db_done: "db_thread (Spf_Load [], s) (Db_Sleep, s)"

type_synonym daemon = "mospf \<times> nbr_pc \<times> db_pc"

inductive daemon_step :: "daemon \<Rightarrow> daemon \<Rightarrow> bool" where
  one_piece: "mospf_step s t \<Longrightarrow> daemon_step (s, n, d) (t, n, d)"
| nbr: "nbr_thread (n, s) (n', t) \<Longrightarrow> daemon_step (s, n, d) (t, n', d)"
| db: "db_thread (d, s) (d', t) \<Longrightarrow> daemon_step (s, n, d) (t, n, d')"

inductive daemon_reachable :: "mospf \<Rightarrow> daemon \<Rightarrow> bool" for s0 where
  start: "daemon_reachable s0 (s0, Nbr_Sleep, Db_Sleep)"
| step: "daemon_reachable s0 x \<Longrightarrow> daemon_step x y \<Longrightarrow> daemon_reachable s0 y"

section \<open>The threads undisturbed\<close>

text \<open>Without interference the steps of a thread are what \<open>Mospf\<close> defines as its work of one second.\<close>

lemma nbr_sends:
  "set ns \<subseteq> set (nbr_pairs (ifaces s)) \<Longrightarrow> nbr_thread\<^sup>*\<^sup>* (Nbr_Send msg, s) (Nbr_Send msg, lsu_loop msg ns s)"
proof (induction ns arbitrary: s)
  case (Cons p ns)
  obtain i n where p: "p = (i, n)" by force
  have "nbr_thread (Nbr_Send msg, s) (Nbr_Send msg, lsu_send msg i n s)" using Cons.prems p by (intro nbr_send) simp
  moreover have "nbr_thread\<^sup>*\<^sup>* (Nbr_Send msg, lsu_send msg i n s) (Nbr_Send msg, lsu_loop msg ns (lsu_send msg i n s))"
    using Cons.prems by (intro Cons.IH) simp
  ultimately show ?case unfolding p lsu_loop.simps by (rule converse_rtranclp_into_rtranclp)
qed simp

lemma nbr_thread_alone: "nbr_thread\<^sup>*\<^sup>* (Nbr_Sleep, s) (Nbr_Sleep, checking_nbr s)"
proof (cases "checking_nbr_scan s")
  case (Pair updated t)
  have scan: "nbr_thread (Nbr_Sleep, s) (if updated then Nbr_Generate else Nbr_Sleep, t)" by (rule nbr_scan) (rule Pair)
  show ?thesis
  proof (cases updated)
    case True
    let ?msg = "generate_mospf_lsu t"
    have "nbr_thread\<^sup>*\<^sup>* (Nbr_Sleep, s) (Nbr_Send ?msg, t)"
      using scan nbr_generate [of t] True by (auto intro: rtranclp.rtrancl_into_rtrancl)
    also have "nbr_thread\<^sup>*\<^sup>* (Nbr_Send ?msg, t) (Nbr_Send ?msg, send_mospf_lsu t)"
      unfolding send_mospf_lsu_def by (rule nbr_sends) simp
    also have "nbr_thread\<^sup>*\<^sup>* (Nbr_Send ?msg, send_mospf_lsu t) (Nbr_Sleep, send_mospf_lsu t)" using nbr_done by blast
    finally show ?thesis using Pair True by (simp add: checking_nbr_def)
  next
    case False
    then show ?thesis using Pair scan by (auto simp: checking_nbr_def)
  qed
qed

lemma db_visits:
  "dijkstra_loop (mospf_db s) ns = Inr ns' \<Longrightarrow> db_thread\<^sup>*\<^sup>* (Spf_Search rt ns, s) (Spf_Routes ns' rt, s)"
proof (induction "mospf_db s" ns rule: dijkstra_loop.induct)
  case (1 ns)
  show ?case
  proof (cases "min_loop 0 ns INT_MAX None")
    case None
    then show ?thesis using 1(2) db_searched [OF None, of rt s] by (simp add: dijkstra_loop.simps [of "mospf_db s" ns])
  next
    case (Some i)
    then obtain ns1 where v: "visit (mospf_db s) i ns = Inr ns1" "dijkstra_loop (mospf_db s) ns1 = Inr ns'"
      using 1(2) by (auto simp: dijkstra_loop.simps [of "mospf_db s" ns] split: sum.splits)
    have "db_thread (Spf_Search rt ns, s) (Spf_Search rt ns1, s)" by (rule db_visit [OF Some v(1)])
    then show ?thesis using 1(1) [OF Some v(1) v(2)] by (rule converse_rtranclp_into_rtranclp)
  qed
qed

lemma db_routes_steps:
  "set es \<subseteq> set (mospf_db s) \<Longrightarrow> db_routes (router_id s) (ifaces s) ns es rt = Inr rt' \<Longrightarrow>
   db_thread\<^sup>*\<^sup>* (Spf_Routes ns rt, s) (Spf_Routes ns rt', s)"
proof (induction es arbitrary: rt)
  case (Cons e es)
  obtain rt1 where 1: "db_routes (router_id s) (ifaces s) ns [e] rt = Inr rt1" "db_routes (router_id s) (ifaces s) ns es rt1 = Inr rt'"
    using Cons.prems(2) by (auto simp: res_bind_Inr_iff split: if_splits)
  have "db_thread (Spf_Routes ns rt, s) (Spf_Routes ns rt1, s)" using Cons.prems(1) by (intro db_route [OF _ 1(1)]) simp
  moreover have "db_thread\<^sup>*\<^sup>* (Spf_Routes ns rt1, s) (Spf_Routes ns rt', s)" using Cons.IH [OF _ 1(2)] Cons.prems(1) by simp
  ultimately show ?case by (rule converse_rtranclp_into_rtranclp)
qed simp

lemma db_loads:
  "db_thread\<^sup>*\<^sup>* (Spf_Load es, s) (Spf_Load [], s\<lparr>net := (net s)\<lparr>rtable := load_rtable (rtable (net s)) es\<rparr>\<rparr>)"
proof (induction es arbitrary: s)
  case (Cons e es)
  from converse_rtranclp_into_rtranclp [OF db_load Cons.IH] show ?case by (simp add: load_rtable_append)
qed (simp add: load_rtable_append)

lemma db_thread_alone:
  assumes "checking_database s = Inr t"
  shows "db_thread\<^sup>*\<^sup>* (Db_Sleep, s) (Db_Sleep, t)"
proof (cases "checking_database_scan s")
  case (Pair changed u)
  have scan: "db_thread (Db_Sleep, s) (if changed then Spf_Kernel else Db_Sleep, u)" by (rule db_scan) (rule Pair)
  show ?thesis
  proof (cases changed)
    case True
    then obtain ns rt where rt: "dijkstra_loop (mospf_db u) (init_nodes (router_id u) (mospf_db u) (ifaces u)) = Inr ns"
      "db_routes (router_id u) (ifaces u) ns (mospf_db u) (ktable u) = Inr rt"
      "t = u\<lparr>net := (net u)\<lparr>rtable := load_rtable (clear_rtable (rtable (net u))) rt\<rparr>\<rparr>"
      using assms Pair by (auto simp: checking_database_def spf_run_def mospf_dijkstra_def res_map_def res_bind_Inr_iff)
    have "db_thread\<^sup>*\<^sup>* (Db_Sleep, s) (Spf_Nodes (ktable u), u)"
      using scan db_kernel [of u] True by (auto intro: rtranclp.rtrancl_into_rtrancl)
    also have "db_thread\<^sup>*\<^sup>* (Spf_Nodes (ktable u), u) (Spf_Routes ns (ktable u), u)"
      using db_nodes db_visits [OF rt(1)] by (rule converse_rtranclp_into_rtranclp)
    also have "db_thread\<^sup>*\<^sup>* (Spf_Routes ns (ktable u), u) (Spf_Routes ns rt, u)" by (rule db_routes_steps [OF _ rt(2)]) simp
    also have "db_thread\<^sup>*\<^sup>* (Spf_Routes ns rt, u) (Spf_Load rt, u\<lparr>net := (net u)\<lparr>rtable := clear_rtable (rtable (net u))\<rparr>\<rparr>)"
      using db_routed [of ns rt u] db_clear [of rt u] by (auto intro: rtranclp.rtrancl_into_rtrancl)
    also have "db_thread\<^sup>*\<^sup>* (Spf_Load rt, u\<lparr>net := (net u)\<lparr>rtable := clear_rtable (rtable (net u))\<rparr>\<rparr>) (Spf_Load [], t)"
      using db_loads [of rt "u\<lparr>net := (net u)\<lparr>rtable := clear_rtable (rtable (net u))\<rparr>\<rparr>"] by (simp add: rt(3))
    also have "db_thread\<^sup>*\<^sup>* (Spf_Load [], t) (Db_Sleep, t)" using db_done by blast
    finally show ?thesis .
  next
    case False
    then show ?thesis using Pair scan assms by (auto simp: checking_database_def)
  qed
qed

section \<open>The invariant of all threads\<close>

definition both_inv :: "mospf \<Rightarrow> bool" where
  "both_inv s \<longleftrightarrow> mospf_inv s \<and> net_inv s"

text \<open>The routes the database thread has collected lead out of interfaces with an address.\<close>

fun db_pc_ok :: "db_pc \<Rightarrow> bool" where
  "db_pc_ok (Spf_Nodes rt) = macs_ok rt"
| "db_pc_ok (Spf_Search rt ns) = macs_ok rt"
| "db_pc_ok (Spf_Routes ns rt) = macs_ok rt"
| "db_pc_ok (Spf_Clear rt) = macs_ok rt"
| "db_pc_ok (Spf_Load rt) = macs_ok rt"
| "db_pc_ok pc = True"

lemma both_inv_mospf_step: "mospf_step s t \<Longrightarrow> both_inv s \<Longrightarrow> both_inv t"
  unfolding both_inv_def
proof (induction rule: mospf_step.induct)
  case (receive i p s t)
  then show ?case using mospf_inv_receive net_inv_receive by blast
next
  case (hello s)
  then show ?case using mospf_inv_hello_thread net_inv_hello_thread by blast
next
  case (lsu s)
  then show ?case using mospf_inv_lsu_thread net_inv_lsu_thread by blast
next
  case (sweep s r)
  then show ?case using router_inv_sweep by (auto simp: arpcache_sweep7_eq net_inv_def intro: mospf_inv_frame)
next
  case (tick n s)
  then show ?case by (auto simp: net_inv_def intro: router_inv_frame mospf_inv_frame)
next
  case (kernel k s)
  then show ?case by (auto simp: net_inv_def macs_ok_def intro: mospf_inv_frame)
qed

lemma both_inv_nbr_thread: "nbr_thread x y \<Longrightarrow> both_inv (snd x) \<Longrightarrow> both_inv (snd y)"
proof (induction rule: nbr_thread.induct)
  case (nbr_scan s updated t)
  then show ?case using mospf_inv_nbr_scan net_inv_nbr_scan by (auto simp: both_inv_def)
next
  case (nbr_send i n s msg)
  then show ?case using net_inv_lsu_send by (auto simp: both_inv_def intro: mospf_inv_frame)
qed simp_all

lemma both_inv_rtable: "both_inv s \<Longrightarrow> macs_ok rt \<Longrightarrow> both_inv (s\<lparr>net := (net s)\<lparr>rtable := rt\<rparr>\<rparr>)"
  by (auto simp: both_inv_def net_inv_def router_inv_def entries_inv_def intro: mospf_inv_frame)

lemma both_inv_db_thread:
  "db_thread x y \<Longrightarrow> both_inv (snd x) \<and> db_pc_ok (fst x) \<Longrightarrow> both_inv (snd y) \<and> db_pc_ok (fst y)"
proof (induction rule: db_thread.induct)
  case (db_scan s changed t)
  then show ?case using mospf_inv_db_scan net_inv_db_scan by (auto simp: both_inv_def)
next
  case (db_kernel s)
  then show ?case by (simp add: both_inv_def net_inv_def)
next
  case (db_route e s ns rt rt')
  have "length (if_mac (rt_iface r)) = ETH_ALEN" if "r \<in> set rt'" for r
    using db_routes_ifaces [OF db_route(2) that] db_route(3) unfolding both_inv_def net_inv_def macs_ok_def fst_conv snd_conv db_pc_ok.simps
    by blast
  then show ?case using db_route(3) by (simp add: macs_ok_def)
next
  case (db_clear rt s)
  then show ?case by (simp add: both_inv_rtable clear_rtable_def macs_ok_def)
next
  case (db_load e es s)
  then have "macs_ok (rtable (net s))" by (simp add: both_inv_def net_inv_def router_inv_def)
  then show ?case using db_load by (simp add: both_inv_rtable load_rtable_append macs_ok_def)
qed simp_all

definition daemon_inv :: "daemon \<Rightarrow> bool" where
  "daemon_inv x \<longleftrightarrow> both_inv (fst x) \<and> db_pc_ok (snd (snd x))"

lemma daemon_inv_step: "daemon_step x y \<Longrightarrow> daemon_inv x \<Longrightarrow> daemon_inv y"
proof (induction rule: daemon_step.induct)
  case (one_piece s t n d)
  then show ?case using both_inv_mospf_step by (simp add: daemon_inv_def)
next
  case (nbr n s n' t d)
  then show ?case using both_inv_nbr_thread [OF nbr(1)] by (simp add: daemon_inv_def)
next
  case (db d s d' t n)
  then show ?case using both_inv_db_thread [OF db(1)] by (simp add: daemon_inv_def)
qed

lemma daemon_reachable_inv: "daemon_reachable s0 x \<Longrightarrow> both_inv s0 \<Longrightarrow> daemon_inv x"
proof (induction rule: daemon_reachable.induct)
  case start
  then show ?case by (simp add: daemon_inv_def)
next
  case (step x y)
  then show ?case using daemon_inv_step by blast
qed

section \<open>Properties\<close>

text \<open>
  Property C18: The dynamic router as a whole, in every state that frames, its five threads and
  changes of the kernel's table lead to from its start, whatever happens between the steps of the two
  threads that send and compute without the lock. Each interface counts its neighbours correctly and holds no two
  with the same identifier; the database has one entry per router and none for the router itself;
  every route of the table leads out of an interface with a 6-byte address; no two pending ARP requests are for the same
  interface and address, and each holds packets with their headers and was sent between 1 and 5 times.
\<close>

theorem mospf_reachable_inv:
  assumes "daemon_reachable (mospf_init ifs (arpcache_init r) kt) (s, n, d)" "macs_ok (rtable r)"
    "\<forall>i\<in>set ifs. length (if_mac i) = ETH_ALEN" "\<forall>e\<in>set kt. rt_iface e \<in> set ifs"
  shows "(\<forall>i\<in>set (ifaces s). num_nbr i = int (length (nbr_list i)) \<and> distinct (map nbr_id (nbr_list i))) \<and>
    distinct (map db_rid (mospf_db s)) \<and> router_id s \<notin> set (map db_rid (mospf_db s)) \<and>
    (\<forall>e\<in>set (rtable (net s)). length (if_mac (rt_iface e)) = ETH_ALEN) \<and>
    distinct (map (\<lambda>q. (req_iface q, req_ip4 q)) (req_list (net s))) \<and>
    (\<forall>q\<in>set (req_list (net s)). 1 \<le> retries q \<and> retries q \<le> ARP_REQUEST_MAX_RETRIES \<and>
       (\<forall>p\<in>set (cached_packets q). ETHER_HDR_SIZE + IP_BASE_HDR_SIZE \<le> length p))"
proof -
  have "router_inv (arpcache_init r)"
    using assms(2) by (simp add: router_inv_def arpcache_init_def entries_inv_def empty_entry_def)
  then have "net_inv (mospf_init ifs (arpcache_init r) kt)" using net_inv_init assms(3,4) by blast
  moreover have "mospf_inv (mospf_init ifs (arpcache_init r) kt)"
    by (simp add: mospf_inv_def mospf_init_def nbrs_ok_def)
  ultimately have "mospf_inv s" "net_inv s" using daemon_reachable_inv [OF assms(1)] by (simp_all add: both_inv_def daemon_inv_def)
  then show ?thesis
    by (auto simp: mospf_inv_def nbrs_ok_def net_inv_def router_inv_def macs_ok_def pending_ok_def req_key_def [abs_def])
qed

text \<open>A run in which the router learns a neighbour from a hello.\<close>

theorem mospf_reachable_inv_witness:
  "\<exists>s. daemon_reachable (mospf_init [example_iface] (arpcache_init example_state) [example_route]) (s, Nbr_Sleep, Db_Sleep) \<and>
     (\<forall>i\<in>set (ifaces s). length (nbr_list i) = 1 \<and> num_nbr i = 1) \<and> distinct (map db_rid (mospf_db s))"
proof -
  let ?s0 = "mospf_init [example_iface] (arpcache_init example_state) [example_route]"
  let ?ia = "example_iface\<lparr>if_ip := 0x0a000102\<rparr>"
  let ?s1 = "update_nbr_list_via_hello example_iface 9 (if_ip ?ia) (if_mask ?ia) ?s0"
  have "handle_packet7 example_iface (fst (hello_packet ?ia 9 (area_id ?s0) example_router)) ?s0 = Inr ?s1"
    by (rule hello_handled) (simp_all add: example_iface_def)
  then have r: "daemon_reachable ?s0 (?s1, Nbr_Sleep, Db_Sleep)"
    by (intro daemon_reachable.step [OF daemon_reachable.start] one_piece) (rule receive)
  have "length (ifaces ?s1) = 1 \<and> length (nbr_list (hd (ifaces ?s1))) = 1"
    by (simp add: update_nbr_list_via_hello_def add_neighbour_def mospf_init_def example_iface_def Let_def)
  then have one: "\<forall>i\<in>set (ifaces ?s1). length (nbr_list i) = 1" by (cases "ifaces ?s1") auto
  have "macs_ok (rtable example_state)" "length (if_mac example_iface) = ETH_ALEN" "rt_iface example_route = example_iface"
    by (simp_all add: macs_ok_def example_route_def new_rt_entry_def example_iface_def)
  then have "(\<forall>i\<in>set (ifaces ?s1). num_nbr i = int (length (nbr_list i))) \<and> distinct (map db_rid (mospf_db ?s1))"
    using mospf_reachable_inv [OF r] by simp
  with r one show ?thesis by auto
qed

end
