(* ===== verification/Routers.thy ===== *)
theory Routers
  imports Mospf
begin

text \<open>
  The static router of \<^verbatim>\<open>code-exp5\<close> and the dynamic one of \<^verbatim>\<open>code-exp7\<close> on the same packet: their
  \<^verbatim>\<open>handle_packet\<close> (\<open>Ip_Router\<close>, \<open>Mospf\<close>) dispatch differently and run on different checksums. The
  sections say for each kind of packet what both do; \<open>routers_compared\<close> puts them side by side.
\<close>

section \<open>Kinds of packets\<close>









section \<open>What the static router does\<close>



section \<open>What the dynamic router does\<close>







section \<open>Properties\<close>



end
