(* ===== verification/Device_Init.thy ===== *)
theory Device_Init
  imports Device
begin

text \<open>
  How a program opens its interfaces: \<^verbatim>\<open>open_device\<close>, \<^verbatim>\<open>read_iface_info\<close>,
  \<^verbatim>\<open>find_available_ifaces\<close>, \<^verbatim>\<open>init_all_ifaces\<close> and \<^verbatim>\<open>init_ustack\<close> of \<^verbatim>\<open>device_internal.c\<close>, for the
  routers (\<^verbatim>\<open>code-exp5\<close>, \<^verbatim>\<open>code-exp7\<close>) and for the hub and the switch (\<^verbatim>\<open>code-exp8\<close>,
  \<^verbatim>\<open>code-exp9\<close>), whose interfaces have no address; and \<^verbatim>\<open>ustack_run\<close>, the loop around
  \<open>ustack_round\<close>.

  The operating system is a parameter. The results of the calls of \<^verbatim>\<open>socket\<close>, one after
  the other, are \<open>sock_results\<close>; what \<^verbatim>\<open>ioctl\<close> and \<^verbatim>\<open>bind\<close> answer for an interface is a value of
  \<open>netdev\<close>, in which \<open>None\<close> is a failed call; \<^verbatim>\<open>getifaddrs\<close> gives a list of names with the address
  family of the entry, if it has an address. The descriptors the program holds are
  \<open>open_fds\<close>. A field that is read after a failed call that should have filled it in is the fault
  \<open>Uninitialised\<close>.
\<close>

section \<open>The operating system\<close>

record os =
  sock_results :: "nat \<Rightarrow> int"
  sock_calls :: nat
  open_fds :: "int list"

definition sys_socket :: "os \<Rightarrow> int \<times> os" where
  "sys_socket k =
     (let fd = sock_results k (sock_calls k)
      in (fd, k\<lparr>sock_calls := Suc (sock_calls k),
               open_fds := (if fd < 0 then open_fds k else open_fds k @ [fd])\<rparr>))"

definition sys_close :: "int \<Rightarrow> os \<Rightarrow> os" where
  "sys_close fd k = k\<lparr>open_fds := remove1 fd (open_fds k)\<rparr>"

record netdev =
  nd_index :: "string \<Rightarrow> int option"
  nd_bind :: "int \<Rightarrow> bool"
  nd_hwaddr :: "string \<Rightarrow> bytes option"
  nd_addr :: "string \<Rightarrow> u32 option"
  nd_netmask :: "string \<Rightarrow> u32 option"
  nd_name :: "int \<Rightarrow> string option"

type_synonym ifaddrs = "(string \<times> nat option) list"

definition AF_PACKET :: nat where "AF_PACKET = 17"
definition POLLIN :: u16 where "POLLIN = 1"
definition IFNAMSIZ :: nat where "IFNAMSIZ = 16"

section \<open>The code\<close>

record ustack =
  iface_list :: "iface_info list"
  nifs :: nat
  fds :: "(int \<times> u16) list"

definition empty_ustack :: ustack where
  "empty_ustack = \<lparr>iface_list = [], nifs = 0, fds = []\<rparr>"

text \<open>A socket that cannot be bound to the interface is not closed.\<close>

definition open_device :: "netdev \<Rightarrow> string \<Rightarrow> os \<Rightarrow> int \<times> os" where
  "open_device nd dname k =
     (case sys_socket k of (sd, k) \<Rightarrow>
        if sd < 0 then (-1, k)
        else case nd_index nd dname of
          None \<Rightarrow> (-1, k)
        | Some index \<Rightarrow>
            if \<not> nd_bind nd index then (-1, k)
            else case nd_hwaddr nd dname of
              None \<Rightarrow> (-1, k)
            | Some _ \<Rightarrow> (sd, k))"

text \<open>
  The index and the hardware address are read through a second socket, which is never closed;
  whether these calls succeed is not tested. The hub and the switch stop here.
\<close>

definition l2_read_iface_info :: "netdev \<Rightarrow> iface_info \<Rightarrow> os \<Rightarrow> (int \<times> iface_info \<times> os) res" where
  "l2_read_iface_info nd iface k =
     (let (fd, k) = open_device nd (if_name iface) k;
          iface = iface\<lparr>if_fd := fd\<rparr>;
          (s, k) = sys_socket k
      in case (if s < 0 then None else nd_index nd (if_name iface)) of
           None \<Rightarrow> Inl Uninitialised
         | Some index \<Rightarrow>
             (case nd_hwaddr nd (if_name iface) of
                None \<Rightarrow> Inl Uninitialised
              | Some sa_data \<Rightarrow>
                  Inr (fd, iface\<lparr>if_index := index, if_mac := take ETH_ALEN sa_data\<rparr>, k)))"

text \<open>The routers go on to read the address and the mask, through the descriptor of the device.\<close>

definition read_iface_info :: "netdev \<Rightarrow> iface_info \<Rightarrow> os \<Rightarrow> (int \<times> iface_info \<times> os) res" where
  "read_iface_info nd iface k =
     res_bind (l2_read_iface_info nd iface k) (\<lambda>(fd, iface, k).
       case (if fd < 0 then None else nd_addr nd (if_name iface)) of
         None \<Rightarrow> Inl Exited
       | Some ip \<Rightarrow>
           (let iface = iface\<lparr>if_ip := ntohl ip\<rparr>
            in case nd_netmask nd (if_name iface) of
                 None \<Rightarrow> Inl Exited
               | Some msk \<Rightarrow> Inr (fd, iface\<lparr>if_mask := ntohl msk\<rparr>, k)))"

definition new_iface :: "string \<Rightarrow> iface_info" where
  "new_iface name = \<lparr>if_fd = 0, if_index = 0, if_mac = replicate ETH_ALEN 0, if_ip = 0, if_mask = 0,
                     if_name = name\<rparr>"

definition wanted :: "string \<times> nat option \<Rightarrow> bool" where
  "wanted a \<longleftrightarrow> snd a = Some AF_PACKET \<and> strstr (fst a) ''-eth''"

text \<open>The loop over the addresses: a name must fit into \<^verbatim>\<open>char name[16]\<close> with its final zero.\<close>

fun find_loop :: "ifaddrs \<Rightarrow> ustack \<Rightarrow> ustack res" where
  "find_loop [] st = Inr st"
| "find_loop (a # addrs) st =
     (if wanted a
      then if length (fst a) < IFNAMSIZ
           then find_loop addrs (st\<lparr>iface_list := iface_list st @ [new_iface (fst a)], nifs := nifs st + 1\<rparr>)
           else Inl Out_Of_Bounds
      else find_loop addrs st)"

text \<open>The names are collected in \<^verbatim>\<open>char dev_names[1024]\<close> for a log line.\<close>

fun dev_names_loop :: "string \<Rightarrow> iface_info list \<Rightarrow> string res" where
  "dev_names_loop dev_names [] = Inr dev_names"
| "dev_names_loop dev_names (iface # ifs) =
     (if length dev_names + length ('' '' @ if_name iface) < 1024
      then dev_names_loop (dev_names @ '' '' @ if_name iface) ifs
      else Inl Out_Of_Bounds)"

text \<open>When \<^verbatim>\<open>getifaddrs\<close> fails, which is not tested, the loop starts from an arbitrary pointer.\<close>

definition find_available_ifaces :: "ifaddrs option \<Rightarrow> ustack \<Rightarrow> ustack res" where
  "find_available_ifaces getifaddrs st =
     (case getifaddrs of
        None \<Rightarrow> Inl Uninitialised
      | Some addrs \<Rightarrow>
          res_bind (find_loop addrs (st\<lparr>iface_list := []\<rparr>)) (\<lambda>st.
            if nifs st = 0 then Inl Exited
            else res_bind (dev_names_loop [] (iface_list st)) (\<lambda>_. Inr st)))"

text \<open>
  The loop of \<^verbatim>\<open>init_all_ifaces\<close> over the interfaces: \<open>done_ifs\<close> are the ones that have been read,
  and their number is the index \<^verbatim>\<open>i\<close>.
\<close>

fun read_ifaces ::
    "(iface_info \<Rightarrow> os \<Rightarrow> (int \<times> iface_info \<times> os) res) \<Rightarrow> iface_info list \<Rightarrow> iface_info list \<Rightarrow>
     (int \<times> u16) list \<Rightarrow> os \<Rightarrow> (iface_info list \<times> (int \<times> u16) list \<times> os) res" where
  "read_ifaces rd done_ifs [] ps k = Inr (done_ifs, ps, k)"
| "read_ifaces rd done_ifs (iface # ifs) ps k =
     res_bind (rd iface k) (\<lambda>(fd, iface, k).
       let i = length done_ifs
       in if i < length ps
          then read_ifaces rd (done_ifs @ [iface]) ifs (ps[i := (fd, snd (ps ! i) OR POLLIN)]) k
          else Inl Out_Of_Bounds)"

definition init_all_ifaces ::
    "(iface_info \<Rightarrow> os \<Rightarrow> (int \<times> iface_info \<times> os) res) \<Rightarrow> ifaddrs option \<Rightarrow> ustack \<Rightarrow> os \<Rightarrow>
     (ustack \<times> os) res" where
  "init_all_ifaces rd getifaddrs st k =
     res_bind (find_available_ifaces getifaddrs st) (\<lambda>st.
       res_bind (read_ifaces rd [] (iface_list st) (replicate (nifs st) (0, 0)) k) (\<lambda>(ifs, ps, k).
         Inr (st\<lparr>iface_list := ifs, fds := ps\<rparr>, k)))"

definition init_ustack :: "netdev \<Rightarrow> ifaddrs option \<Rightarrow> os \<Rightarrow> (ustack \<times> os) res" where
  "init_ustack nd getifaddrs k = init_all_ifaces (read_iface_info nd) getifaddrs empty_ustack k"

definition l2_init_ustack :: "netdev \<Rightarrow> ifaddrs option \<Rightarrow> os \<Rightarrow> (ustack \<times> os) res" where
  "l2_init_ustack nd getifaddrs k = init_all_ifaces (l2_read_iface_info nd) getifaddrs empty_ustack k"

text \<open>
  \<^verbatim>\<open>ustack_run\<close>, for the results of \<^verbatim>\<open>poll\<close> so far: a failed \<^verbatim>\<open>poll\<close> ends the loop, otherwise each
  descriptor of \<^verbatim>\<open>instance->fds\<close> is looked at with what \<^verbatim>\<open>recvfrom\<close> gives for it.
\<close>

datatype poll_result = Poll_Failed | Poll_None | Poll_Ready "recv list"

fun ustack_run ::
    "(iface_info \<Rightarrow> bytes \<Rightarrow> 's \<Rightarrow> 's res) \<Rightarrow> ustack \<Rightarrow> poll_result list \<Rightarrow> 's \<Rightarrow> 's res" where
  "ustack_run handle st [] s = Inr s"
| "ustack_run handle st (Poll_Failed # ps) s = Inr s"
| "ustack_run handle st (Poll_None # ps) s = ustack_run handle st ps s"
| "ustack_run handle st (Poll_Ready evs # ps) s =
     res_bind (ustack_round handle (iface_list st) (zip (map fst (fds st)) evs) s)
       (ustack_run handle st ps)"

text \<open>
  The loop of \<^verbatim>\<open>code-exp7\<close> and of \<^verbatim>\<open>code-exp2\<close> does not test the result of \<^verbatim>\<open>fd_to_iface\<close>: the
  handler gets the pointer as it is, null or not.
\<close>

fun unchecked_round ::
    "(iface_info option \<Rightarrow> bytes \<Rightarrow> 's \<Rightarrow> 's res) \<Rightarrow> iface_info list \<Rightarrow> (int \<times> recv) list \<Rightarrow> 's \<Rightarrow> 's res"
  where
  "unchecked_round handle ifs [] s = Inr s"
| "unchecked_round handle ifs ((fd, ev) # evs) s =
     (case ev of
        No_Input \<Rightarrow> unchecked_round handle ifs evs s
      | Recv_Error \<Rightarrow> unchecked_round handle ifs evs s
      | Outgoing _ \<Rightarrow> unchecked_round handle ifs evs s
      | Incoming packet \<Rightarrow>
          res_bind (handle (fd_to_iface ifs fd) packet s) (unchecked_round handle ifs evs))"

section \<open>Finding the interfaces\<close>

lemma find_loop_eq:
  "find_loop addrs st =
     (if \<forall>a\<in>set (filter wanted addrs). length (fst a) < IFNAMSIZ
      then Inr (st\<lparr>iface_list := iface_list st @ map (new_iface \<circ> fst) (filter wanted addrs),
                   nifs := nifs st + length (filter wanted addrs)\<rparr>)
      else Inl Out_Of_Bounds)"
  by (induction addrs arbitrary: st) auto

definition names_size :: "string list \<Rightarrow> nat" where
  "names_size ns = sum_list (map (\<lambda>n. Suc (length n)) ns)"

lemma dev_names_loop_eq:
  "length d < 1024 \<Longrightarrow>
   dev_names_loop d ifs =
     (if length d + names_size (map if_name ifs) < 1024
      then Inr (d @ concat (map (\<lambda>i. '' '' @ if_name i) ifs)) else Inl Out_Of_Bounds)"
  by (induction ifs arbitrary: d) (auto simp: names_size_def)

lemma names_size_bound: "\<forall>n\<in>set ns. length n < IFNAMSIZ \<Longrightarrow> names_size ns \<le> IFNAMSIZ * length ns"
  by (induction ns) (auto simp: names_size_def)

lemma find_available_ifaces_eq:
  assumes "ns = map fst (filter wanted addrs)" "\<forall>n\<in>set ns. length n < IFNAMSIZ" "iface_list st = []" "nifs st = 0"
  shows "find_available_ifaces (Some addrs) st =
     (if ns = [] then Inl Exited
      else if names_size ns < 1024 then Inr (st\<lparr>iface_list := map new_iface ns, nifs := length ns\<rparr>)
      else Inl Out_Of_Bounds)"
proof -
  have m: "map (new_iface \<circ> fst) (filter wanted addrs) = map new_iface ns"
    using assms(1) by simp
  have n: "map if_name (map new_iface ns) = ns"
    by (simp add: new_iface_def comp_def)
  have "find_loop addrs (st\<lparr>iface_list := []\<rparr>) = Inr (st\<lparr>iface_list := map new_iface ns, nifs := length ns\<rparr>)"
    using assms unfolding find_loop_eq m [symmetric] by auto
  then show ?thesis
    unfolding find_available_ifaces_def using n by (simp add: dev_names_loop_eq)
qed

section \<open>Opening the interfaces\<close>

text \<open>What the system answers for an interface that can be opened, and the record it then gets.\<close>

definition device_ok :: "netdev \<Rightarrow> string \<Rightarrow> bool" where
  "device_ok nd n \<longleftrightarrow> nd_index nd n \<noteq> None \<and> nd_hwaddr nd n \<noteq> None"

definition address_ok :: "netdev \<Rightarrow> string \<Rightarrow> bool" where
  "address_ok nd n \<longleftrightarrow> nd_bind nd (the (nd_index nd n)) \<and> nd_addr nd n \<noteq> None \<and> nd_netmask nd n \<noteq> None"

definition l2_opened :: "netdev \<Rightarrow> string \<Rightarrow> int \<Rightarrow> iface_info" where
  "l2_opened nd n fd =
     (new_iface n)\<lparr>if_fd := (if nd_bind nd (the (nd_index nd n)) then fd else -1),
                   if_index := the (nd_index nd n), if_mac := take ETH_ALEN (the (nd_hwaddr nd n))\<rparr>"

definition opened :: "netdev \<Rightarrow> string \<Rightarrow> int \<Rightarrow> iface_info" where
  "opened nd n fd =
     (l2_opened nd n fd)\<lparr>if_ip := ntohl (the (nd_addr nd n)), if_mask := ntohl (the (nd_netmask nd n))\<rparr>"

definition two_sockets :: "os \<Rightarrow> os" where
  "two_sockets k = snd (sys_socket (snd (sys_socket k)))"

definition next_fd :: "os \<Rightarrow> int" where
  "next_fd k = sock_results k (sock_calls k)"

definition sockets_work :: "os \<Rightarrow> bool" where
  "sockets_work k \<longleftrightarrow> (\<forall>n. 0 \<le> sock_results k n)"

lemma sockets_workD: "sockets_work k \<Longrightarrow> \<not> sock_results k n < 0"
  by (simp add: sockets_work_def linorder_not_less)

lemma open_fds_two_sockets:
  "sockets_work k \<Longrightarrow>
   open_fds (two_sockets k) = open_fds k @ [sock_results k (sock_calls k), sock_results k (Suc (sock_calls k))]"
  by (simp add: two_sockets_def sys_socket_def sockets_workD Let_def)

lemma two_sockets_simps [simp]:
  "sock_results (two_sockets k) = sock_results k"
  "sock_calls (two_sockets k) = sock_calls k + 2"
  "sockets_work (two_sockets k) = sockets_work k"
  by (simp_all add: two_sockets_def sys_socket_def sockets_work_def Let_def)

lemma l2_read_ok:
  assumes "device_ok nd n" "sockets_work k"
  shows "l2_read_iface_info nd (new_iface n) k =
           Inr (if_fd (l2_opened nd n (next_fd k)), l2_opened nd n (next_fd k), two_sockets k)"
proof -
  obtain ix hw where "nd_index nd n = Some ix" "nd_hwaddr nd n = Some hw"
    using assms(1) by (auto simp: device_ok_def)
  then show ?thesis
    using sockets_workD [OF assms(2)]
    by (simp add: l2_read_iface_info_def open_device_def sys_socket_def Let_def
        two_sockets_def next_fd_def l2_opened_def new_iface_def)
qed

lemma read_ok:
  assumes "device_ok nd n" "address_ok nd n" "sockets_work k"
  shows "read_iface_info nd (new_iface n) k =
           Inr (if_fd (opened nd n (next_fd k)), opened nd n (next_fd k), two_sockets k)"
proof -
  obtain a m where "nd_addr nd n = Some a" "nd_netmask nd n = Some m" "nd_bind nd (the (nd_index nd n))"
    using assms(2) by (auto simp: address_ok_def)
  then show ?thesis
    using sockets_workD [OF assms(3)] unfolding read_iface_info_def l2_read_ok [OF assms(1,3)]
    by (simp add: opened_def l2_opened_def new_iface_def next_fd_def)
qed

text \<open>The interfaces after all of them have been opened, two sockets for each.\<close>

fun open_all :: "(string \<Rightarrow> int \<Rightarrow> iface_info) \<Rightarrow> string list \<Rightarrow> os \<Rightarrow> iface_info list \<times> os" where
  "open_all op [] k = ([], k)"
| "open_all op (n # ns) k =
     (let (ifs, k') = open_all op ns (two_sockets k) in (op n (next_fd k) # ifs, k'))"

definition poll_entry :: "iface_info \<Rightarrow> int \<times> u16" where
  "poll_entry i = (if_fd i, POLLIN)"

lemma read_ifaces_ok:
  assumes rd: "\<And>n k. n \<in> set ns \<Longrightarrow> sockets_work k \<Longrightarrow>
                 rd (new_iface n) k = Inr (if_fd (op n (next_fd k)), op n (next_fd k), two_sockets k)"
    and "sockets_work k" "length qs = length done_ifs"
  shows "read_ifaces rd done_ifs (map new_iface ns) (qs @ replicate (length ns) (0, 0)) k =
           Inr (done_ifs @ fst (open_all op ns k), qs @ map poll_entry (fst (open_all op ns k)), snd (open_all op ns k))"
  using assms
proof (induction ns arbitrary: k done_ifs qs)
  case (Cons n ns)
  let ?i = "op n (next_fd k)"
  have "read_ifaces rd (done_ifs @ [?i]) (map new_iface ns) ((qs @ [poll_entry ?i]) @ replicate (length ns) (0, 0)) (two_sockets k) =
    Inr ((done_ifs @ [?i]) @ fst (open_all op ns (two_sockets k)),
         (qs @ [poll_entry ?i]) @ map poll_entry (fst (open_all op ns (two_sockets k))), snd (open_all op ns (two_sockets k)))"
    using Cons.prems by (intro Cons.IH) auto
  with Cons.prems show ?case
    by (simp add: poll_entry_def list_update_append nth_append split_beta)
qed simp

lemma open_all_simps:
  "length (fst (open_all op ns k)) = length ns"
  "j < length ns \<Longrightarrow> fst (open_all op ns k) ! j = op (ns ! j) (sock_results k (sock_calls k + 2 * j))"
proof -
  show "length (fst (open_all op ns k)) = length ns"
    by (induction ns arbitrary: k) (auto simp: split_beta Let_def)
  show "j < length ns \<Longrightarrow> fst (open_all op ns k) ! j = op (ns ! j) (sock_results k (sock_calls k + 2 * j))"
    by (induction ns arbitrary: k j) (auto simp: split_beta Let_def nth_Cons next_fd_def split: nat.splits)
qed

lemma open_all_fds:
  "sockets_work k \<Longrightarrow> open_fds (snd (open_all op ns k)) =
     open_fds k @ map (sock_results k) [sock_calls k..<sock_calls k + 2 * length ns]"
proof (induction ns arbitrary: k)
  case (Cons n ns)
  have "[sock_calls k..<sock_calls k + 2 * length (n # ns)] =
        [sock_calls k, sock_calls k + 1] @ [sock_calls k + 2..<sock_calls k + 2 + 2 * length ns]"
    by (simp add: upt_conv_Cons del: upt_Suc)
  then show ?case
    using Cons.IH [of "two_sockets k"] Cons.prems
    by (simp add: split_beta Let_def open_fds_two_sockets del: upt_Suc)
qed simp

lemma init_all_ifaces_ok:
  assumes "ns = map fst (filter wanted addrs)" "ns \<noteq> []" "\<forall>n\<in>set ns. length n < IFNAMSIZ" "names_size ns < 1024"
    and "sockets_work k"
    and "\<And>n k. n \<in> set ns \<Longrightarrow> sockets_work k \<Longrightarrow>
           rd (new_iface n) k = Inr (if_fd (op n (next_fd k)), op n (next_fd k), two_sockets k)"
  shows "init_all_ifaces rd (Some addrs) empty_ustack k =
     Inr (\<lparr>iface_list = fst (open_all op ns k), nifs = length ns, fds = map poll_entry (fst (open_all op ns k))\<rparr>,
          snd (open_all op ns k))"
proof -
  have "read_ifaces rd [] (map new_iface ns) ([] @ replicate (length ns) (0, 0)) k =
     Inr ([] @ fst (open_all op ns k), [] @ map poll_entry (fst (open_all op ns k)), snd (open_all op ns k))"
    using assms(5,6) by (intro read_ifaces_ok) auto
  moreover have "find_available_ifaces (Some addrs) empty_ustack = Inr (empty_ustack\<lparr>iface_list := map new_iface ns, nifs := length ns\<rparr>)"
    using assms(2,4) by (subst find_available_ifaces_eq [OF assms(1,3)]) (auto simp: empty_ustack_def)
  ultimately show ?thesis
    by (simp add: init_all_ifaces_def empty_ustack_def)
qed

section \<open>The stack after initialisation\<close>

definition wf_ustack :: "ustack \<Rightarrow> bool" where
  "wf_ustack st \<longleftrightarrow>
     nifs st = length (iface_list st) \<and> fds st = map poll_entry (iface_list st) \<and>
     (\<forall>i\<in>set (iface_list st). 0 \<le> if_fd i) \<and> distinct (map if_fd (iface_list st))"

text \<open>The system does not give out a descriptor that is open: nothing is closed in between.\<close>

definition fresh_fds :: "os \<Rightarrow> bool" where
  "fresh_fds k \<longleftrightarrow> (\<forall>m n. 0 \<le> sock_results k m \<longrightarrow> sock_results k m = sock_results k n \<longrightarrow> m = n)"

definition as_answered :: "netdev \<Rightarrow> iface_info \<Rightarrow> bool" where
  "as_answered nd i \<longleftrightarrow>
     nd_index nd (if_name i) = Some (if_index i) \<and> nd_bind nd (if_index i) \<and>
     map_option (take ETH_ALEN) (nd_hwaddr nd (if_name i)) = Some (if_mac i) \<and>
     nd_addr nd (if_name i) = Some (htonl (if_ip i)) \<and> nd_netmask nd (if_name i) = Some (htonl (if_mask i))"

lemma fd_to_iface_wf:
  assumes "wf_ustack st" "i \<in> set (iface_list st)"
  shows "fd_to_iface (iface_list st) (if_fd i) = Some i"
proof -
  have "distinct (map if_fd ifs) \<Longrightarrow> i \<in> set ifs \<Longrightarrow> find (\<lambda>j. if_fd j = if_fd i) ifs = Some i" for ifs
    by (induction ifs) auto
  then show ?thesis using assms by (simp add: fd_to_iface_def wf_ustack_def)
qed

lemma open_device_inv:
  "open_device nd n k = (fd, k') \<Longrightarrow> 0 \<le> fd \<Longrightarrow>
   fd = next_fd k \<and> k' = snd (sys_socket k) \<and> nd_bind nd (the (nd_index nd n))"
  by (auto simp: open_device_def sys_socket_def Let_def next_fd_def split: if_splits option.splits)

lemma l2_read_inv:
  assumes "l2_read_iface_info nd i k = Inr (fd, i', k')"
  shows "if_fd i' = fd" "if_name i' = if_name i" "nd_index nd (if_name i) = Some (if_index i')"
    "map_option (take ETH_ALEN) (nd_hwaddr nd (if_name i)) = Some (if_mac i')"
    "0 \<le> fd \<Longrightarrow> fd = next_fd k \<and> k' = two_sockets k \<and> nd_bind nd (if_index i')"
proof -
  obtain sd k1 where o: "open_device nd (if_name i) k = (sd, k1)" by fastforce
  obtain s k2 where s: "sys_socket k1 = (s, k2)" by fastforce
  obtain ix hw where q: "nd_index nd (if_name i) = Some ix" "nd_hwaddr nd (if_name i) = Some hw"
    and r: "fd = sd" "k' = k2" "i' = i\<lparr>if_fd := sd, if_index := ix, if_mac := take ETH_ALEN hw\<rparr>"
    using assms by (auto simp: l2_read_iface_info_def o s Let_def split: if_splits option.splits)
  show "if_fd i' = fd" "if_name i' = if_name i" "nd_index nd (if_name i) = Some (if_index i')"
    "map_option (take ETH_ALEN) (nd_hwaddr nd (if_name i)) = Some (if_mac i')"
    using q r by simp_all
  show "0 \<le> fd \<Longrightarrow> fd = next_fd k \<and> k' = two_sockets k \<and> nd_bind nd (if_index i')"
    using open_device_inv [OF o] q r s by (simp add: two_sockets_def)
qed

lemma read_inv:
  assumes "read_iface_info nd i k = Inr (fd, i', k')"
  shows "if_fd i' = fd" "0 \<le> fd" "if_name i' = if_name i" "as_answered nd i'"
    "fd = next_fd k" "k' = two_sockets k"
proof -
  obtain i1 a m where l: "l2_read_iface_info nd i k = Inr (fd, i1, k')" and fd: "0 \<le> fd"
    and a: "nd_addr nd (if_name i1) = Some a" "nd_netmask nd (if_name i1) = Some m"
    and i': "i' = i1\<lparr>if_ip := ntohl a, if_mask := ntohl m\<rparr>"
    using assms by (auto simp: read_iface_info_def res_simps Let_def split: if_splits option.splits)
  show "if_fd i' = fd" "0 \<le> fd" "if_name i' = if_name i" "as_answered nd i'"
    "fd = next_fd k" "k' = two_sockets k"
    using l2_read_inv [OF l] fd a i' by (simp_all add: as_answered_def)
qed

lemma read_ifaces_inv:
  assumes "read_ifaces (read_iface_info nd) done_ifs ifs (qs @ replicate (length ifs) (0, 0)) k = Inr (ifs', ps, k')"
    and "length qs = length done_ifs"
  shows "\<exists>new. ifs' = done_ifs @ new \<and> ps = qs @ map poll_entry new \<and> map if_name new = map if_name ifs \<and>
    (\<forall>i\<in>set new. as_answered nd i \<and> 0 \<le> if_fd i) \<and>
    map if_fd new = map (\<lambda>j. sock_results k (sock_calls k + 2 * j)) [0..<length ifs]"
  using assms
proof (induction ifs arbitrary: k done_ifs qs)
  case (Cons i ifs)
  obtain fd j k1 where r: "read_iface_info nd i k = Inr (fd, j, k1)"
    and s: "read_ifaces (read_iface_info nd) (done_ifs @ [j]) ifs ((qs @ [poll_entry j]) @ replicate (length ifs) (0, 0)) k1 =
      Inr (ifs', ps, k')"
    using Cons.prems
    by (auto simp: res_simps list_update_append nth_append poll_entry_def dest: read_inv(1))
  note inv = read_inv [OF r]
  obtain new where n: "ifs' = (done_ifs @ [j]) @ new" "ps = (qs @ [poll_entry j]) @ map poll_entry new"
    "map if_name new = map if_name ifs" "\<forall>i\<in>set new. as_answered nd i \<and> 0 \<le> if_fd i"
    "map if_fd new = map (\<lambda>j. sock_results k1 (sock_calls k1 + 2 * j)) [0..<length ifs]"
    using Cons.IH [OF s] Cons.prems(2) by auto
  have "map if_fd (j # new) = map (\<lambda>j. sock_results k (sock_calls k + 2 * j)) [0..<length (i # ifs)]"
    using n(5) inv by (simp add: upt_conv_Cons map_Suc_upt [symmetric] next_fd_def comp_def del: upt_Suc)
  with n inv show ?case by (intro exI [of _ "j # new"]) simp
qed simp

lemma fresh_fds_distinct:
  assumes "fresh_fds k" "map if_fd new = map (\<lambda>j. sock_results k (c + 2 * j)) [0..<n]" "\<forall>i\<in>set new. 0 \<le> if_fd i"
  shows "distinct (map if_fd new)"
proof -
  have "0 \<le> sock_results k (c + 2 * j)" if "j < n" for j
  proof -
    have "sock_results k (c + 2 * j) \<in> set (map if_fd new)" unfolding assms(2) using that by auto
    then show ?thesis using assms(3) by auto
  qed
  then show ?thesis
    unfolding assms(2) using assms(1) by (fastforce simp: distinct_map inj_on_def fresh_fds_def)
qed

lemma init_ustack_inv:
  assumes "init_ustack nd g k = Inr (st, k')" "fresh_fds k"
  shows "wf_ustack st" "\<forall>i\<in>set (iface_list st). as_answered nd i"
    "\<exists>addrs. g = Some addrs \<and> map if_name (iface_list st) = map fst (filter wanted addrs)" "iface_list st \<noteq> []"
proof -
  obtain st1 where f: "find_available_ifaces g empty_ustack = Inr st1"
    and r: "\<exists>ifs ps. read_ifaces (read_iface_info nd) [] (iface_list st1) (replicate (nifs st1) (0, 0)) k = Inr (ifs, ps, k') \<and>
      st = st1\<lparr>iface_list := ifs, fds := ps\<rparr>"
    using assms(1) by (auto simp: init_ustack_def init_all_ifaces_def res_simps)
  obtain addrs where g: "g = Some addrs" "nifs st1 \<noteq> 0"
    and st1: "find_loop addrs (empty_ustack\<lparr>iface_list := []\<rparr>) = Inr st1"
    using f by (auto simp: find_available_ifaces_def res_simps split: option.splits if_splits)
  then have l: "iface_list st1 = map (new_iface \<circ> fst) (filter wanted addrs)" "nifs st1 = length (iface_list st1)"
    by (auto simp: find_loop_eq empty_ustack_def split: if_splits)
  obtain ifs ps where i: "read_ifaces (read_iface_info nd) [] (iface_list st1) ([] @ replicate (length (iface_list st1)) (0, 0)) k = Inr (ifs, ps, k')"
    and st: "st = st1\<lparr>iface_list := ifs, fds := ps\<rparr>"
    using r l(2) by auto
  obtain new where n: "ifs = new" "ps = map poll_entry new" "map if_name new = map if_name (iface_list st1)"
    "\<forall>i\<in>set new. as_answered nd i \<and> 0 \<le> if_fd i"
    "map if_fd new = map (\<lambda>j. sock_results k (sock_calls k + 2 * j)) [0..<length (iface_list st1)]"
    using read_ifaces_inv [OF i] by auto
  have d: "distinct (map if_fd new)" using fresh_fds_distinct [OF assms(2) n(5)] n(4) by blast
  have len: "length new = length (iface_list st1)" using n(3) by (rule map_eq_imp_length_eq)
  show "wf_ustack st" using n d l(2) len st by (simp add: wf_ustack_def)
  show "\<forall>i\<in>set (iface_list st). as_answered nd i" using n st by simp
  show "\<exists>addrs. g = Some addrs \<and> map if_name (iface_list st) = map fst (filter wanted addrs)"
    using n l st g by (simp add: new_iface_def comp_def)
  show "iface_list st \<noteq> []" using g(2) l(2) len n st by auto
qed

section \<open>Properties\<close>

text \<open>
  Property C24: every stack that \<^verbatim>\<open>init_ustack\<close> returns is well formed. There is one entry of
  \<^verbatim>\<open>fds\<close> per interface, polled for input; the interfaces are exactly the \<^verbatim>\<open>AF_PACKET\<close> ones named
  like \<^verbatim>\<open>*-eth*\<close>, in the order of the system, each with the index and the addresses the
  system gave for it; and \<^verbatim>\<open>fd_to_iface\<close> finds the interface of every descriptor that is polled, as
  long as the system gives out no descriptor twice.
\<close>

theorem init_ustack_wf:
  assumes "init_ustack nd g k = Inr (st, k')" "fresh_fds k"
  shows "wf_ustack st \<and> iface_list st \<noteq> [] \<and>
    (\<exists>addrs. g = Some addrs \<and> map if_name (iface_list st) = map fst (filter wanted addrs)) \<and>
    (\<forall>i\<in>set (iface_list st). as_answered nd i \<and> fd_to_iface (iface_list st) (if_fd i) = Some i)"
  using init_ustack_inv [OF assms] by (auto intro: fd_to_iface_wf)

definition example_netdev :: netdev where
  "example_netdev =
     \<lparr>nd_index = (\<lambda>n. if n = ''r1-eth0'' then Some 2 else if n = ''r1-eth1'' then Some 3 else None),
      nd_bind = (\<lambda>i. True), nd_hwaddr = (\<lambda>n. Some (replicate 14 1)),
      nd_addr = (\<lambda>n. Some (htonl (if n = ''r1-eth0'' then 0x0a000101 else 0x0a000201))),
      nd_netmask = (\<lambda>n. Some (htonl 0xffffff00)),
      nd_name = (\<lambda>i. if i = 2 then Some ''r1-eth0'' else if i = 3 then Some ''r1-eth1'' else None)\<rparr>"

definition example_ifaddrs :: ifaddrs where
  "example_ifaddrs = [(''lo'', Some 17), (''r1-eth0'', Some 17), (''r1-eth1'', Some 17), (''r1-eth0'', Some 2)]"

definition example_os :: os where
  "example_os = \<lparr>sock_results = (\<lambda>n. int n + 3), sock_calls = 0, open_fds = []\<rparr>"

definition example_if0 :: iface_info where
  "example_if0 = \<lparr>if_fd = 3, if_index = 2, if_mac = replicate 6 1, if_ip = 0x0a000101, if_mask = 0xffffff00,
                  if_name = ''r1-eth0''\<rparr>"

definition example_if1 :: iface_info where
  "example_if1 = \<lparr>if_fd = 5, if_index = 3, if_mac = replicate 6 1, if_ip = 0x0a000201, if_mask = 0xffffff00,
                  if_name = ''r1-eth1''\<rparr>"

definition example_ustack :: ustack where
  "example_ustack = \<lparr>iface_list = [example_if0, example_if1], nifs = 2, fds = [(3, 1), (5, 1)]\<rparr>"

lemma example_wanted: "map fst (filter wanted example_ifaddrs) = [''r1-eth0'', ''r1-eth1'']"
  by code_simp

lemma example_os_simps [simp]: "fresh_fds example_os" "sockets_work example_os"
  by (simp_all add: example_os_def fresh_fds_def sockets_work_def)

lemma example_opened:
  "opened example_netdev ''r1-eth0'' 3 = example_if0" "opened example_netdev ''r1-eth1'' 5 = example_if1"
  by (simp_all add: opened_def l2_opened_def new_iface_def example_netdev_def example_if0_def example_if1_def
      eval_nat_numeral)

lemma example_init:
  "\<exists>k'. init_ustack example_netdev (Some example_ifaddrs) example_os = Inr (example_ustack, k')"
proof -
  let ?ns = "[''r1-eth0'', ''r1-eth1'']"
  have "init_ustack example_netdev (Some example_ifaddrs) example_os =
     Inr (\<lparr>iface_list = fst (open_all (opened example_netdev) ?ns example_os), nifs = length ?ns,
           fds = map poll_entry (fst (open_all (opened example_netdev) ?ns example_os))\<rparr>,
          snd (open_all (opened example_netdev) ?ns example_os))"
    unfolding init_ustack_def
  proof (rule init_all_ifaces_ok [OF example_wanted [symmetric]])
    show "read_iface_info example_netdev (new_iface n) k =
        Inr (if_fd (opened example_netdev n (next_fd k)), opened example_netdev n (next_fd k), two_sockets k)"
      if "n \<in> set ?ns" "sockets_work k" for n k
      using that by (intro read_ok) (auto simp: device_ok_def address_ok_def example_netdev_def)
  qed (simp_all add: IFNAMSIZ_def names_size_def)
  moreover have "fst (open_all (opened example_netdev) ?ns example_os) = [example_if0, example_if1]"
    by (simp add: next_fd_def example_opened split_beta) (simp add: example_os_def example_opened)
  ultimately show ?thesis
    by (simp add: example_ustack_def poll_entry_def POLLIN_def example_if0_def example_if1_def)
qed

theorem init_ustack_wf_witness:
  "wf_ustack example_ustack \<and> fd_to_iface (iface_list example_ustack) 5 = Some example_if1"
proof -
  obtain k' where i: "init_ustack example_netdev (Some example_ifaddrs) example_os = Inr (example_ustack, k')"
    using example_init ..
  have m: "example_if1 \<in> set (iface_list example_ustack)" "if_fd example_if1 = 5"
    by (simp_all add: example_ustack_def example_if1_def)
  from init_ustack_wf [OF i] m show ?thesis by fastforce
qed

text \<open>
  On a stack that is well formed the loops that do not test the result of \<^verbatim>\<open>fd_to_iface\<close> do what
  the loop that tests it does: no handler is called with a null pointer.
\<close>

theorem unchecked_round_safe:
  assumes "wf_ustack st"
  shows "unchecked_round handle (iface_list st) (zip (map fst (fds st)) evs) s =
         ustack_round (\<lambda>i. handle (Some i)) (iface_list st) (zip (map fst (fds st)) evs) s"
proof -
  have "unchecked_round handle (iface_list st) fes s = ustack_round (\<lambda>i. handle (Some i)) (iface_list st) fes s"
    if "\<forall>(fd, ev)\<in>set fes. \<exists>i. fd_to_iface (iface_list st) fd = Some i" for fes s
    using that
  proof (induction fes arbitrary: s)
    case (Cons fe fes)
    then show ?case by (cases fe) (auto split: recv.split cong: res_bind_cong)
  qed simp
  moreover have "\<forall>(fd, ev)\<in>set (zip (map fst (fds st)) evs). \<exists>i. fd_to_iface (iface_list st) fd = Some i"
  proof (clarify)
    fix fd ev assume "(fd, ev) \<in> set (zip (map fst (fds st)) evs)"
    then have "fd \<in> set (map fst (fds st))" by (rule set_zip_leftD)
    then obtain i where "i \<in> set (iface_list st)" "fd = if_fd i"
      using assms by (auto simp: wf_ustack_def poll_entry_def)
    then show "\<exists>i. fd_to_iface (iface_list st) fd = Some i" using fd_to_iface_wf [OF assms] by blast
  qed
  ultimately show ?thesis by blast
qed

text \<open>
  The initialisation succeeds when there is an interface, the names fit, every interface has an
  index, a hardware address, an address and a mask, and sockets can be opened. It then holds two
  descriptors per interface, of which the second is not used again.
\<close>

theorem init_ustack_opens:
  assumes "ns = map fst (filter wanted addrs)" "ns \<noteq> []" "\<forall>n\<in>set ns. length n < IFNAMSIZ" "names_size ns < 1024"
    and "sockets_work k" "\<forall>n\<in>set ns. device_ok nd n \<and> address_ok nd n"
  shows "\<exists>st k'. init_ustack nd (Some addrs) k = Inr (st, k') \<and> map if_name (iface_list st) = ns \<and>
    (\<forall>j<length ns. if_fd (iface_list st ! j) = sock_results k (sock_calls k + 2 * j)) \<and>
    open_fds k' = open_fds k @ map (sock_results k) [sock_calls k..<sock_calls k + 2 * length ns]"
proof -
  let ?ifs = "fst (open_all (opened nd) ns k)"
  have "init_ustack nd (Some addrs) k =
     Inr (\<lparr>iface_list = ?ifs, nifs = length ns, fds = map poll_entry ?ifs\<rparr>, snd (open_all (opened nd) ns k))"
    unfolding init_ustack_def using assms(6) by (intro init_all_ifaces_ok assms(1-5) read_ok) auto
  moreover have "map if_name ?ifs = ns"
    by (rule nth_equalityI) (simp_all add: open_all_simps opened_def l2_opened_def new_iface_def)
  moreover have "if_fd (?ifs ! j) = sock_results k (sock_calls k + 2 * j)" if "j < length ns" for j
  proof -
    have "address_ok nd (ns ! j)" using assms(6) that by simp
    then show ?thesis using that by (simp add: open_all_simps opened_def l2_opened_def address_ok_def)
  qed
  ultimately show ?thesis by (simp add: open_all_fds [OF assms(5)])
qed

text \<open>
  The hub and the switch do not notice a port that cannot be opened. Its descriptor is -1, which
  \<^verbatim>\<open>poll\<close> ignores, so nothing is ever received from it, and it stays in the list of interfaces, so
  frames are still sent to it.
\<close>

theorem l2_init_keeps_unbound_port:
  assumes "ns = map fst (filter wanted addrs)" "\<forall>n\<in>set ns. length n < IFNAMSIZ" "names_size ns < 1024"
    and "sockets_work k" "\<forall>n\<in>set ns. device_ok nd n" "j < length ns" "\<not> nd_bind nd (the (nd_index nd (ns ! j)))"
  shows "\<exists>st k'. l2_init_ustack nd (Some addrs) k = Inr (st, k') \<and> nifs st = length ns \<and>
    if_name (iface_list st ! j) = ns ! j \<and> if_fd (iface_list st ! j) = -1 \<and> fds st ! j = (-1, POLLIN)"
proof -
  let ?ifs = "fst (open_all (l2_opened nd) ns k)"
  have "l2_init_ustack nd (Some addrs) k =
     Inr (\<lparr>iface_list = ?ifs, nifs = length ns, fds = map poll_entry ?ifs\<rparr>, snd (open_all (l2_opened nd) ns k))"
    unfolding l2_init_ustack_def using assms(2-6) by (intro init_all_ifaces_ok assms(1-4) l2_read_ok) auto
  then show ?thesis using assms(6,7)
    by (simp add: open_all_simps l2_opened_def new_iface_def poll_entry_def)
qed

text \<open>
  The buffer for the log line holds the names of up to 63 interfaces. The names of 64 interfaces
  with 15 characters each overrun it.
\<close>

theorem dev_names_overrun:
  assumes "ns = map fst (filter wanted addrs)" "\<forall>n\<in>set ns. length n < IFNAMSIZ" "ns \<noteq> []"
  shows "length ns < 64 \<Longrightarrow> \<exists>st. find_available_ifaces (Some addrs) empty_ustack = Inr st"
    and "64 \<le> length ns \<Longrightarrow> \<forall>n\<in>set ns. length n = 15 \<Longrightarrow>
      find_available_ifaces (Some addrs) empty_ustack = Inl Out_Of_Bounds"
proof -
  have e: "find_available_ifaces (Some addrs) empty_ustack =
     (if ns = [] then Inl Exited
      else if names_size ns < 1024 then Inr (empty_ustack\<lparr>iface_list := map new_iface ns, nifs := length ns\<rparr>)
      else Inl Out_Of_Bounds)"
    by (rule find_available_ifaces_eq [OF assms(1,2)]) (simp_all add: empty_ustack_def)
  show "\<exists>st. find_available_ifaces (Some addrs) empty_ustack = Inr st" if "length ns < 64"
  proof -
    have "names_size ns < 1024" using names_size_bound [OF assms(2)] that by (simp add: IFNAMSIZ_def)
    then show ?thesis unfolding e using assms(3) by simp
  qed
  show "find_available_ifaces (Some addrs) empty_ustack = Inl Out_Of_Bounds"
    if "64 \<le> length ns" "\<forall>n\<in>set ns. length n = 15"
  proof -
    have "names_size ns = 16 * length ns"
      using that(2) unfolding names_size_def by (induction ns) auto
    with that(1) assms(3) show ?thesis unfolding e by simp
  qed
qed

end
