(* ===== verification/Netlink.thy ===== *)
theory Netlink
  imports Device_Init Rtable
begin

text \<open>
  The reader of the kernel's routing table, \<^verbatim>\<open>rtable_internal.c\<close>: \<^verbatim>\<open>get_unparsed_route_info\<close> asks the
  kernel for the table over a netlink socket and collects the datagrams of the answer in a buffer,
  \<^verbatim>\<open>parse_routing_info\<close> walks over the messages in the buffer and over the attributes of each
  message, with the macros of \<^verbatim>\<open>linux/netlink.h\<close> and \<^verbatim>\<open>linux/rtnetlink.h\<close>, and
  \<^verbatim>\<open>read_kernel_rtable\<close> composes the two.

  The buffer has \<^verbatim>\<open>ROUTE_BATCH_SIZE\<close> bytes on the stack, which are not initialised. The
  model keeps the bytes that have been received: a read behind them is the fault
  \<open>Uninitialised\<close>, and a read behind the end of the buffer the fault \<open>Out_Of_Bounds\<close>. The answers of
  \<^verbatim>\<open>recv\<close> are a list: the bytes of a datagram, which is cut off if it does not fit, or \<open>None\<close> for an
  error; at the end of the list \<^verbatim>\<open>recv\<close> waits for ever, the fault \<open>Deadlock\<close>. Undefined shifts are the
  fault \<open>Int_Overflow\<close>. The variable \<^verbatim>\<open>flags\<close> of \<^verbatim>\<open>parse_routing_info\<close> is assigned and not used.
\<close>

section \<open>Messages\<close>

definition ROUTE_BATCH_SIZE :: nat where "ROUTE_BATCH_SIZE = 10240"
definition NLMSG_HDRLEN :: nat where "NLMSG_HDRLEN = 16"
definition NLMSG_DONE :: u16 where "NLMSG_DONE = 3"
definition NLMSG_ERROR :: u16 where "NLMSG_ERROR = 2"
definition NLMSG_ALIGN :: "nat \<Rightarrow> nat" where "NLMSG_ALIGN n = (n + 3) div 4 * 4"
definition RTM_SIZE :: nat where "RTM_SIZE = 12"
definition RT_TABLE_MAIN :: u8 where "RT_TABLE_MAIN = 254"
definition RTM_GETROUTE :: u16 where "RTM_GETROUTE = 26"
definition NLM_F_REQUEST_DUMP :: u16 where "NLM_F_REQUEST_DUMP = 0x0301"
definition AF_INET :: u8 where "AF_INET = 2"
definition RTA_DST :: u16 where "RTA_DST = 1"
definition RTA_OIF :: u16 where "RTA_OIF = 4"
definition RTA_GATEWAY :: u16 where "RTA_GATEWAY = 5"

lemmas nl_consts [simp] =
  NLMSG_HDRLEN_def NLMSG_DONE_def NLMSG_ERROR_def RTM_SIZE_def RT_TABLE_MAIN_def RTA_DST_def RTA_OIF_def
  RTA_GATEWAY_def

text \<open>Loads from the buffer, of which only the received bytes have a value.\<close>

definition rd8 :: "bytes \<Rightarrow> nat \<Rightarrow> u8 res" where
  "rd8 buf i = (if i < length buf then Inr (buf ! i)
                else if i < ROUTE_BATCH_SIZE then Inl Uninitialised else Inl Out_Of_Bounds)"

definition rd16 :: "bytes \<Rightarrow> nat \<Rightarrow> u16 res" where
  "rd16 buf i = res_bind (rd8 buf i) (\<lambda>a. res_bind (rd8 buf (i + 1)) (\<lambda>b. Inr (le16 a b)))"

definition rd32 :: "bytes \<Rightarrow> nat \<Rightarrow> u32 res" where
  "rd32 buf i = res_bind (rd16 buf i) (\<lambda>a. res_bind (rd16 buf (i + 2)) (\<lambda>b. Inr (le32 a b)))"

section \<open>Asking the kernel\<close>

text \<open>The request: a message header, a route header for the main table, and zeros.\<close>

definition route_request :: bytes where
  "route_request =
     bytes32 (of_nat (NLMSG_HDRLEN + RTM_SIZE)) @ bytes16 RTM_GETROUTE @ bytes16 NLM_F_REQUEST_DUMP @
     bytes32 0 @ bytes32 0 @
     [AF_INET, 0, 0, 0, RT_TABLE_MAIN, 0, 0, 0] @ bytes32 0 @ replicate ROUTE_BATCH_SIZE 0"

text \<open>
  The loop around \<^verbatim>\<open>recv\<close>. The first \<open>len\<close> bytes of \<open>buf\<close> are messages; the last datagram received, the
  one that ended the loop, stands behind them.
\<close>

fun recv_loop :: "bytes option list \<Rightarrow> bytes \<Rightarrow> (bytes \<times> nat) res" where
  "recv_loop rs buf =
     (let len = length buf; left = ROUTE_BATCH_SIZE - len
      in if left < NLMSG_HDRLEN then Inl Exited
         else case rs of
           [] \<Rightarrow> Inl Deadlock
         | None # _ \<Rightarrow> Inr (buf, len)
         | Some datagram # rs \<Rightarrow>
             (let bs = take left datagram
              in if bs = [] then Inr (buf, len)
                 else res_bind (rd16 (buf @ bs) (len + 4)) (\<lambda>nlmsg_type.
                        if nlmsg_type = NLMSG_DONE then Inr (buf @ bs, len)
                        else if nlmsg_type = NLMSG_ERROR then Inl Exited
                        else recv_loop rs (buf @ bs))))"

text \<open>The kernel as the reader sees it: whether the request can be sent, and the answers.\<close>

record nlkernel =
  nl_send :: "bytes \<Rightarrow> bool"
  nl_answers :: "bytes option list"

text \<open>The descriptor is not tested, but sending on a bad one fails.\<close>

definition get_unparsed_route_info :: "nlkernel \<Rightarrow> os \<Rightarrow> (bytes \<times> nat \<times> os) res" where
  "get_unparsed_route_info nl k =
     (let (fd, k) = sys_socket k
      in if fd < 0 \<or> \<not> nl_send nl route_request then Inl Exited
         else res_bind (recv_loop (nl_answers nl) []) (\<lambda>(buf, len). Inr (buf, len, sys_close fd k)))"

section \<open>Parsing the answer\<close>

text \<open>The socket that \<^verbatim>\<open>if_index_to_name\<close> opens is not closed.\<close>

definition if_index_to_name :: "netdev \<Rightarrow> int \<Rightarrow> os \<Rightarrow> (string \<times> os) res" where
  "if_index_to_name nd index k =
     (let (fd, k) = sys_socket k
      in if fd < 0 then Inl Exited
         else case nd_name nd index of None \<Rightarrow> Inl Exited | Some name \<Rightarrow> Inr (name, k))"

definition if_name_to_iface :: "iface_info list \<Rightarrow> string \<Rightarrow> iface_info option" where
  "if_name_to_iface ifs name = find (\<lambda>i. if_name i = name) ifs"

text \<open>The local variables of one message; \<^verbatim>\<open>if_name\<close> is an array that nothing has been copied to at first.\<close>

record route_vars =
  v_dest :: u32
  v_mask :: u32
  v_gw :: u32
  v_name :: "string option"

definition no_vars :: route_vars where
  "no_vars = \<lparr>v_dest = 0, v_mask = 0, v_gw = 0, v_name = None\<rparr>"

text \<open>\<open>0xFFFFFFFF << (32 - rtm_dst_len)\<close>\<close>

definition dst_mask :: "u8 \<Rightarrow> u32 res" where
  "dst_mask dst_len =
     (if 1 \<le> unat dst_len \<and> unat dst_len \<le> 32 then Inr (push_bit (32 - unat dst_len) (- 1))
      else Inl Int_Overflow)"

text \<open>One attribute; \<open>rta\<close> is its offset and \<open>rtp\<close> the offset of the route header.\<close>

definition rta_attr :: "netdev \<Rightarrow> bytes \<Rightarrow> nat \<Rightarrow> nat \<Rightarrow> route_vars \<Rightarrow> os \<Rightarrow> (route_vars \<times> os) res" where
  "rta_attr nd buf rtp rta v k =
     res_bind (rd16 buf (rta + 2)) (\<lambda>rta_type.
       if rta_type = RTA_DST then
         res_bind (rd32 buf (rta + 4)) (\<lambda>d.
           res_bind (rd8 buf (rtp + 1)) (\<lambda>dst_len.
             res_bind (dst_mask dst_len) (\<lambda>m. Inr (v\<lparr>v_dest := ntohl d, v_mask := m\<rparr>, k))))
       else if rta_type = RTA_GATEWAY then
         res_bind (rd32 buf (rta + 4)) (\<lambda>g. Inr (v\<lparr>v_gw := ntohl g\<rparr>, k))
       else if rta_type = RTA_OIF then
         res_bind (rd32 buf (rta + 4)) (\<lambda>i.
           res_bind (if_index_to_name nd (sint i) k) (\<lambda>(name, k). Inr (v\<lparr>v_name := Some name\<rparr>, k)))
       else Inr (v, k))"

text \<open>The inner loop: \<open>rtl\<close> is the number of bytes left, negative after a padded last attribute.\<close>

function rta_loop ::
    "netdev \<Rightarrow> bytes \<Rightarrow> nat \<Rightarrow> nat \<Rightarrow> int \<Rightarrow> route_vars \<Rightarrow> os \<Rightarrow> (route_vars \<times> os) res" where
  "rta_loop nd buf rtp rta rtl v k =
     (if rtl < 4 then Inr (v, k)
      else res_bind (rd16 buf rta) (\<lambda>rta_len.
        if unat rta_len < 4 \<or> rtl < int (unat rta_len) then Inr (v, k)
        else res_bind (rta_attr nd buf rtp rta v k) (\<lambda>(v, k).
          rta_loop nd buf rtp (rta + NLMSG_ALIGN (unat rta_len)) (rtl - int (NLMSG_ALIGN (unat rta_len))) v k)))"
  by pat_completeness auto

lemma NLMSG_ALIGN_bounds: "n \<le> NLMSG_ALIGN n" "NLMSG_ALIGN n < n + 4"
  unfolding NLMSG_ALIGN_def by linarith+

termination rta_loop
proof (relation "measure (\<lambda>(nd, buf, rtp, rta, rtl, v, k). nat rtl)")
  fix rtl :: int and rta_len :: u16
  assume a: "\<not> rtl < 4" "\<not> (unat rta_len < 4 \<or> rtl < int (unat rta_len))"
  then show "((nd, buf, rtp, rta + NLMSG_ALIGN (unat rta_len), rtl - int (NLMSG_ALIGN (unat rta_len)), v, k'),
      nd, buf, rtp, rta, rtl, v', k) \<in> measure (\<lambda>(nd, buf, rtp, rta, rtl, v, k). nat rtl)"
    for nd buf rtp rta v v' k k'
    using NLMSG_ALIGN_bounds(1) [of "unat rta_len"] by auto
qed simp

declare rta_loop.simps [simp del]

text \<open>The outer loop over the messages, with the table and its number of entries so far.\<close>

function nlmsg_loop ::
    "netdev \<Rightarrow> iface_info list \<Rightarrow> bytes \<Rightarrow> nat \<Rightarrow> int \<Rightarrow> rt_entry list \<Rightarrow> nat \<Rightarrow> os \<Rightarrow> (rt_entry list \<times> nat \<times> os) res"
  where
  "nlmsg_loop nd ifs buf nlp len rt n k =
     (if len < 16 then Inr (rt, n, k)
      else res_bind (rd32 buf nlp) (\<lambda>nlmsg_len.
        if unat nlmsg_len < 16 \<or> len < int (unat nlmsg_len) then Inr (rt, n, k)
        else let rtp = nlp + NLMSG_HDRLEN;
                 next_nlp = nlp + NLMSG_ALIGN (unat nlmsg_len);
                 next_len = len - int (NLMSG_ALIGN (unat nlmsg_len))
             in res_bind (rd8 buf (rtp + 4)) (\<lambda>rtm_table.
          if rtm_table \<noteq> RT_TABLE_MAIN then nlmsg_loop nd ifs buf next_nlp next_len rt n k
          else res_bind (rta_loop nd buf rtp (rtp + RTM_SIZE) (int (unat nlmsg_len) - 28) no_vars k) (\<lambda>(v, k).
            case v_name v of
              None \<Rightarrow> Inl Uninitialised
            | Some name \<Rightarrow>
                (case if_name_to_iface ifs name of
                   None \<Rightarrow> nlmsg_loop nd ifs buf next_nlp next_len rt n k
                 | Some iface \<Rightarrow>
                     nlmsg_loop nd ifs buf next_nlp next_len
                       (rt @ [new_rt_entry (v_dest v) (v_mask v) (v_gw v) iface]) (n + 1) k)))))"
  by pat_completeness auto

lemma NLMSG_ALIGN_pos: "\<not> n < 16 \<Longrightarrow> 0 < NLMSG_ALIGN n"
  using NLMSG_ALIGN_bounds(1) [of n] by linarith

termination nlmsg_loop
  by (relation "measure (\<lambda>(nd, ifs, buf, nlp, len, rt, n, k). nat len)") (auto intro: NLMSG_ALIGN_pos)

declare nlmsg_loop.simps [simp del]

definition parse_routing_info ::
    "netdev \<Rightarrow> iface_info list \<Rightarrow> rt_entry list \<Rightarrow> bytes \<Rightarrow> nat \<Rightarrow> os \<Rightarrow> (rt_entry list \<times> nat \<times> os) res" where
  "parse_routing_info nd ifs rt buf len k = nlmsg_loop nd ifs buf 0 (int len) rt 0 k"

definition read_kernel_rtable ::
    "netdev \<Rightarrow> nlkernel \<Rightarrow> iface_info list \<Rightarrow> os \<Rightarrow> (rt_entry list \<times> nat \<times> os) res" where
  "read_kernel_rtable nd nl ifs k =
     res_bind (get_unparsed_route_info nl k) (\<lambda>(buf, len, k). parse_routing_info nd ifs [] buf len k)"

section \<open>The format of the answer\<close>

text \<open>
  A message of the kernel: what follows the length in its header (type, flags, sequence number and
  port), the route header and the attributes, each padded to a multiple of four bytes.
\<close>

datatype rtattr = Attr (rta_type: u16) (rta_data: bytes)

record rtmsg =
  m_type :: u16
  m_rest :: bytes
  m_family :: u8
  m_dst_len :: u8
  m_src :: bytes
  m_table :: u8
  m_tail :: bytes
  m_attrs :: "rtattr list"

definition enc_attr :: "rtattr \<Rightarrow> bytes" where
  "enc_attr a = bytes16 (of_nat (4 + length (rta_data a))) @ bytes16 (rta_type a) @ rta_data a @
     replicate (NLMSG_ALIGN (length (rta_data a)) - length (rta_data a)) 0"

definition enc_attrs :: "rtattr list \<Rightarrow> bytes" where
  "enc_attrs as = concat (map enc_attr as)"

definition enc_msg :: "rtmsg \<Rightarrow> bytes" where
  "enc_msg m = bytes32 (of_nat (28 + length (enc_attrs (m_attrs m)))) @ bytes16 (m_type m) @ m_rest m @
     [m_family m, m_dst_len m] @ m_src m @ [m_table m] @ m_tail m @ enc_attrs (m_attrs m)"

definition enc_msgs :: "rtmsg list \<Rightarrow> bytes" where
  "enc_msgs ms = concat (map enc_msg ms)"

definition wf_attr :: "rtattr \<Rightarrow> bool" where
  "wf_attr a \<longleftrightarrow> length (rta_data a) < 65532 \<and> (rta_type a \<in> {RTA_DST, RTA_GATEWAY, RTA_OIF} \<longrightarrow> length (rta_data a) = 4)"

definition wf_msg :: "rtmsg \<Rightarrow> bool" where
  "wf_msg m \<longleftrightarrow> m_type m \<noteq> NLMSG_DONE \<and> m_type m \<noteq> NLMSG_ERROR \<and> length (m_rest m) = 10 \<and> length (m_src m) = 2 \<and>
     length (m_tail m) = 7 \<and> (\<forall>a\<in>set (m_attrs m). wf_attr a)"

text \<open>What the attributes of a message and the messages mean.\<close>

fun attr_effect :: "netdev \<Rightarrow> u8 \<Rightarrow> rtattr \<Rightarrow> route_vars \<times> os \<Rightarrow> (route_vars \<times> os) res" where
  "attr_effect nd dst_len (Attr t bs) (v, k) =
     (if t = RTA_DST then res_bind (dst_mask dst_len) (\<lambda>m. Inr (v\<lparr>v_dest := ntohl (ld32 0 bs), v_mask := m\<rparr>, k))
      else if t = RTA_GATEWAY then Inr (v\<lparr>v_gw := ntohl (ld32 0 bs)\<rparr>, k)
      else if t = RTA_OIF then
        res_bind (if_index_to_name nd (sint (ld32 0 bs)) k) (\<lambda>(name, k). Inr (v\<lparr>v_name := Some name\<rparr>, k))
      else Inr (v, k))"

fun attrs_effect :: "netdev \<Rightarrow> u8 \<Rightarrow> rtattr list \<Rightarrow> route_vars \<times> os \<Rightarrow> (route_vars \<times> os) res" where
  "attrs_effect nd dst_len [] vk = Inr vk"
| "attrs_effect nd dst_len (a # as) vk = res_bind (attr_effect nd dst_len a vk) (attrs_effect nd dst_len as)"

definition msg_effect :: "netdev \<Rightarrow> iface_info list \<Rightarrow> rtmsg \<Rightarrow> rt_entry list \<times> nat \<times> os \<Rightarrow> (rt_entry list \<times> nat \<times> os) res" where
  "msg_effect nd ifs m = (\<lambda>(rt, n, k).
     if m_table m \<noteq> RT_TABLE_MAIN then Inr (rt, n, k)
     else res_bind (attrs_effect nd (m_dst_len m) (m_attrs m) (no_vars, k)) (\<lambda>(v, k).
       case v_name v of
         None \<Rightarrow> Inl Uninitialised
       | Some name \<Rightarrow>
           (case if_name_to_iface ifs name of
              None \<Rightarrow> Inr (rt, n, k)
            | Some iface \<Rightarrow> Inr (rt @ [new_rt_entry (v_dest v) (v_mask v) (v_gw v) iface], n + 1, k))))"

fun msgs_effect :: "netdev \<Rightarrow> iface_info list \<Rightarrow> rtmsg list \<Rightarrow> rt_entry list \<times> nat \<times> os \<Rightarrow> (rt_entry list \<times> nat \<times> os) res" where
  "msgs_effect nd ifs [] st = Inr st"
| "msgs_effect nd ifs (m # ms) st = res_bind (msg_effect nd ifs m st) (msgs_effect nd ifs ms)"

section \<open>The parser reads the format\<close>

lemma NLMSG_ALIGN_simps:
  "NLMSG_ALIGN (4 + n) = 4 + NLMSG_ALIGN n" "NLMSG_ALIGN (4 * n) = 4 * n" "4 dvd NLMSG_ALIGN n"
  unfolding NLMSG_ALIGN_def by presburger+

lemma rd8_at: "i = length pre \<Longrightarrow> rd8 (pre @ b # post) i = Inr b"
  by (simp add: rd8_def)

lemma rd16_at: "i = length pre \<Longrightarrow> rd16 (pre @ bytes16 w @ post) i = Inr w"
  by (simp add: rd16_def rd8_def bytes16_def nth_append)

lemma rd32_at: "i = length pre \<Longrightarrow> rd32 (pre @ bytes32 w @ post) i = Inr w"
  by (simp add: rd32_def rd16_def rd8_def bytes32_def bytes16_def nth_append)

lemma bytes32_ld32: "length bs = 4 \<Longrightarrow> bytes32 (ld32 0 bs) = bs"
  by (auto simp: bytes32_def bytes16_def ld32_def ld16_def length_Suc_conv eval_nat_numeral)

lemma length_enc_attr: "length (enc_attr a) = 4 + NLMSG_ALIGN (length (rta_data a))"
  using NLMSG_ALIGN_bounds(1) [of "length (rta_data a)"] by (simp add: enc_attr_def)

lemma length_enc_attrs: "4 dvd length (enc_attrs as)"
  by (induction as) (auto simp: enc_attrs_def length_enc_attr NLMSG_ALIGN_simps)

lemma rta_attr_enc:
  assumes "wf_attr a" "buf = pre @ enc_attr a @ post" "rd8 buf (rtp + 1) = Inr dst_len"
  shows "rta_attr nd buf rtp (length pre) v k = attr_effect nd dst_len a (v, k)"
proof -
  obtain t bs where a: "a = Attr t bs" by (cases a)
  let ?rest = "replicate (NLMSG_ALIGN (length bs) - length bs) 0 @ post"
  let ?hd = "bytes16 (of_nat (4 + length bs))"
  have buf: "buf = (pre @ ?hd) @ bytes16 t @ bs @ ?rest" "buf = (pre @ ?hd @ bytes16 t) @ bs @ ?rest"
    using assms(2) by (simp_all add: a enc_attr_def)
  have ty: "rd16 buf (length pre + 2) = Inr t"
    unfolding buf(1) by (rule rd16_at) simp
  have dat: "rd32 buf (length pre + 4) = Inr (ld32 0 bs)" if "length bs = 4"
  proof -
    have "buf = (pre @ ?hd @ bytes16 t) @ bytes32 (ld32 0 bs) @ ?rest"
      using buf(2) bytes32_ld32 [OF that] by simp
    then show ?thesis by (metis rd32_at length_append length_bytes16 add.assoc numeral_Bit0)
  qed
  show ?thesis
    using assms(1,3) dat unfolding rta_attr_def ty by (simp add: a wf_attr_def)
qed

lemma rta_loop_enc:
  assumes "\<forall>a\<in>set as. wf_attr a" "buf = pre @ enc_attrs as @ post" "rd8 buf (rtp + 1) = Inr dst_len"
  shows "rta_loop nd buf rtp (length pre) (int (length (enc_attrs as))) v k = attrs_effect nd dst_len as (v, k)"
  using assms
proof (induction as arbitrary: pre v k)
  case Nil
  then show ?case by (simp add: rta_loop.simps enc_attrs_def)
next
  case (Cons a as)
  let ?n = "4 + length (rta_data a)"
  have buf: "buf = (pre @ enc_attr a) @ enc_attrs as @ post" and buf': "buf = pre @ enc_attr a @ (enc_attrs as @ post)"
    using Cons.prems(2) by (simp_all add: enc_attrs_def)
  have wf: "wf_attr a" using Cons.prems by simp
  then have n: "unat (of_nat ?n :: u16) = ?n" by (intro unat_of_nat_u16) (simp add: wf_attr_def)
  then have nu: "uint (of_nat ?n :: u16) = int ?n" by (metis of_nat_unat)
  have len: "rd16 buf (length pre) = Inr (of_nat ?n)"
    unfolding buf' enc_attr_def append_assoc by (rule rd16_at) simp
  have sz: "length (enc_attrs (a # as)) = NLMSG_ALIGN ?n + length (enc_attrs as)"
    by (simp add: enc_attrs_def length_enc_attr NLMSG_ALIGN_simps)
  have "rta_loop nd buf rtp (length pre) (int (length (enc_attrs (a # as)))) v k =
    res_bind (rta_attr nd buf rtp (length pre) v k) (\<lambda>(v, k).
      rta_loop nd buf rtp (length pre + NLMSG_ALIGN ?n) (int (length (enc_attrs as))) v k)"
    using NLMSG_ALIGN_bounds(1) [of ?n] unfolding rta_loop.simps [of _ _ _ "length pre"] len
    by (simp add: n nu sz del: of_nat_add) simp
  moreover have "rta_loop nd buf rtp (length pre + NLMSG_ALIGN ?n) (int (length (enc_attrs as))) v k = attrs_effect nd dst_len as (v, k)" for v k
    using Cons.IH [of "pre @ enc_attr a"] Cons.prems(1,3) buf by (simp add: length_enc_attr NLMSG_ALIGN_simps add.assoc)
  ultimately show ?case
    by (simp add: rta_attr_enc [OF wf buf' Cons.prems(3)] cong: res_bind_cong)
qed

lemma length_enc_msg: "wf_msg m \<Longrightarrow> length (enc_msg m) = 28 + length (enc_attrs (m_attrs m))"
  by (simp add: enc_msg_def wf_msg_def)

lemma enc_msg_reads:
  assumes "wf_msg m" "buf = pre @ enc_msg m @ post" "length (enc_msg m) < 4294967296"
  shows "rd32 buf (length pre) = Inr (of_nat (length (enc_msg m)))"
    "rd16 buf (length pre + 4) = Inr (m_type m)"
    "rd8 buf (length pre + 17) = Inr (m_dst_len m)" "rd8 buf (length pre + 20) = Inr (m_table m)"
    "\<exists>h. buf = h @ enc_attrs (m_attrs m) @ post \<and> length h = length pre + 28"
proof -
  let ?n = "bytes32 (of_nat (28 + length (enc_attrs (m_attrs m))))"
  let ?t = "bytes16 (m_type m)" and ?a = "enc_attrs (m_attrs m)"
  have l: "length (m_rest m) = 10" "length (m_src m) = 2" "length (m_tail m) = 7"
    using assms(1) by (auto simp: wf_msg_def)
  have b1: "buf = pre @ ?n @ (?t @ m_rest m @ [m_family m, m_dst_len m] @ m_src m @ [m_table m] @ m_tail m @ ?a @ post)"
    and b2: "buf = (pre @ ?n) @ ?t @ (m_rest m @ [m_family m, m_dst_len m] @ m_src m @ [m_table m] @ m_tail m @ ?a @ post)"
    and b3: "buf = (pre @ ?n @ ?t @ m_rest m @ [m_family m]) @ m_dst_len m # (m_src m @ [m_table m] @ m_tail m @ ?a @ post)"
    and b4: "buf = (pre @ ?n @ ?t @ m_rest m @ [m_family m, m_dst_len m] @ m_src m) @ m_table m # (m_tail m @ ?a @ post)"
    and b5: "buf = (pre @ ?n @ ?t @ m_rest m @ [m_family m, m_dst_len m] @ m_src m @ [m_table m] @ m_tail m) @ ?a @ post"
    using assms(2) by (simp_all add: enc_msg_def)
  show "rd32 buf (length pre) = Inr (of_nat (length (enc_msg m)))"
    unfolding b1 length_enc_msg [OF assms(1)] by (rule rd32_at) simp
  show "rd16 buf (length pre + 4) = Inr (m_type m)"
    unfolding b2 by (rule rd16_at) simp
  show "rd8 buf (length pre + 17) = Inr (m_dst_len m)"
    unfolding b3 by (rule rd8_at) (simp add: l)
  show "rd8 buf (length pre + 20) = Inr (m_table m)"
    unfolding b4 by (rule rd8_at) (simp add: l)
  show "\<exists>h. buf = h @ ?a @ post \<and> length h = length pre + 28"
    using b5 l by (intro exI conjI) (assumption, simp)
qed

lemma nlmsg_loop_enc:
  assumes "\<forall>m\<in>set ms. wf_msg m" "buf = pre @ enc_msgs ms @ post" "length (enc_msgs ms) < 4294967296"
  shows "nlmsg_loop nd ifs buf (length pre) (int (length (enc_msgs ms))) rt n k = msgs_effect nd ifs ms (rt, n, k)"
  using assms
proof (induction ms arbitrary: pre rt n k)
  case Nil
  then show ?case by (simp add: nlmsg_loop.simps enc_msgs_def)
next
  case (Cons m ms)
  let ?l = "length (enc_msg m)" and ?as = "enc_attrs (m_attrs m)"
  have wf: "wf_msg m" using Cons.prems by simp
  have buf: "buf = pre @ enc_msg m @ (enc_msgs ms @ post)" and buf': "buf = (pre @ enc_msg m) @ enc_msgs ms @ post"
    using Cons.prems(2) by (simp_all add: enc_msgs_def)
  have sz: "length (enc_msgs (m # ms)) = ?l + length (enc_msgs ms)" by (simp add: enc_msgs_def)
  have l: "?l < 4294967296" using Cons.prems(3) sz by simp
  note rd = enc_msg_reads [OF wf buf l]
  have n: "unat (of_nat ?l :: u32) = ?l" using l by (rule unat_of_nat_u32)
  then have nu: "uint (of_nat ?l :: u32) = int ?l" by (metis of_nat_unat)
  have al: "NLMSG_ALIGN ?l = ?l"
  proof -
    have "4 dvd ?l" unfolding length_enc_msg [OF wf] using length_enc_attrs by (intro dvd_add) auto
    then show ?thesis by (auto simp: NLMSG_ALIGN_simps)
  qed
  have l28: "?l = 28 + length ?as" by (rule length_enc_msg [OF wf])
  have attrs: "rta_loop nd buf (length pre + 16) (length pre + 16 + 12) (int ?l - 28) no_vars k =
      attrs_effect nd (m_dst_len m) (m_attrs m) (no_vars, k)"
  proof -
    obtain h where "buf = h @ ?as @ (enc_msgs ms @ post)" "length h = length pre + 28" using rd(5) by blast
    moreover have "\<forall>a\<in>set (m_attrs m). wf_attr a" using wf by (simp add: wf_msg_def)
    moreover have "rd8 buf (length pre + 16 + 1) = Inr (m_dst_len m)" using rd(3) by (simp add: add.commute)
    ultimately have "rta_loop nd buf (length pre + 16) (length h) (int (length ?as)) no_vars k =
        attrs_effect nd (m_dst_len m) (m_attrs m) (no_vars, k)"
      by (intro rta_loop_enc)
    then show ?thesis using \<open>length h = length pre + 28\<close> l28 by (simp add: add.assoc)
  qed
  have step: "nlmsg_loop nd ifs buf (length pre + ?l) (int (length (enc_msgs ms))) rt n k = msgs_effect nd ifs ms (rt, n, k)" for rt n k
    using Cons.IH [of "pre @ enc_msg m"] Cons.prems(1,3) buf' sz by simp
  have ok: "\<not> int (length (enc_msgs (m # ms))) < 16" "\<not> (?l < 16 \<or> int (length (enc_msgs (m # ms))) < int ?l)"
    "int (length (enc_msgs (m # ms))) - int ?l = int (length (enc_msgs ms))"
    using sz l28 by simp_all
  have table: "rd8 buf (length pre + NLMSG_HDRLEN + 4) = Inr (m_table m)"
    using rd(4) by (simp add: add.commute)
  have attrs': "rta_loop nd buf (length pre + NLMSG_HDRLEN) (length pre + NLMSG_HDRLEN + RTM_SIZE) (int ?l - 28) no_vars k =
      attrs_effect nd (m_dst_len m) (m_attrs m) (no_vars, k)"
    using attrs by (simp only: NLMSG_HDRLEN_def RTM_SIZE_def)
  show ?case
    unfolding nlmsg_loop.simps [of _ _ _ "length pre"] rd(1) res_bind_simps n al Let_def if_not_P [OF ok(1)] if_not_P [OF ok(2)]
      ok(3) table attrs' step msgs_effect.simps
    by (auto simp: msg_effect_def res_bind_assoc split_beta split: option.split intro!: res_bind_cong)
qed

section \<open>Routes\<close>

text \<open>A route of the kernel, and a message for it: the attributes may come in any order, among others.\<close>

record kroute =
  kr_dst :: u32
  kr_len :: nat
  kr_gw :: u32
  kr_oif :: u32

definition attr_values :: "u16 \<Rightarrow> rtattr list \<Rightarrow> bytes list" where
  "attr_values t as = map rta_data (filter (\<lambda>a. rta_type a = t) as)"

definition route_msg :: "rtmsg \<Rightarrow> kroute \<Rightarrow> bool" where
  "route_msg m r \<longleftrightarrow>
     unat (m_dst_len m) = kr_len r \<and> kr_len r \<le> 32 \<and> (kr_len r = 0 \<longrightarrow> kr_dst r = 0) \<and>
     attr_values RTA_DST (m_attrs m) = (if kr_len r = 0 then [] else [bytes32 (htonl (kr_dst r))]) \<and>
     attr_values RTA_GATEWAY (m_attrs m) = (if kr_gw r = 0 then [] else [bytes32 (htonl (kr_gw r))]) \<and>
     attr_values RTA_OIF (m_attrs m) = [bytes32 (kr_oif r)]"

definition route_name :: "netdev \<Rightarrow> kroute \<Rightarrow> string option" where
  "route_name nd r = nd_name nd (sint (kr_oif r))"

text \<open>The entries the program gets for a route: one if the interface is one of its own.\<close>

definition route_entries :: "netdev \<Rightarrow> iface_info list \<Rightarrow> kroute \<Rightarrow> rt_entry list" where
  "route_entries nd ifs r =
     (case if_name_to_iface ifs (the (route_name nd r)) of
        None \<Rightarrow> []
      | Some i \<Rightarrow> [new_rt_entry (kr_dst r) (netmask (kr_len r)) (kr_gw r) i])"

definition kernel_entries :: "netdev \<Rightarrow> iface_info list \<Rightarrow> kroute list \<Rightarrow> rt_entry list" where
  "kernel_entries nd ifs rs = concat (map (route_entries nd ifs) rs)"

lemma netmask_0 [simp]: "netmask 0 = 0"
  by (rule bit_word_eqI) (auto simp: netmask_def bit_simps)

lemma dst_mask_netmask: "1 \<le> unat l \<Longrightarrow> unat l \<le> 32 \<Longrightarrow> dst_mask l = Inr (netmask (unat l))"
  by (simp add: dst_mask_def netmask_def)

lemma ld32_bytes32 [simp]: "ld32 0 (bytes32 w) = w"
  by (simp add: ld32_def ld16_def bytes32_def bytes16_def)

definition more_sockets :: "nat \<Rightarrow> os \<Rightarrow> os" where
  "more_sockets n k = ((\<lambda>k. snd (sys_socket k)) ^^ n) k"

lemma more_sockets_simps [simp]:
  "more_sockets 0 k = k" "more_sockets (Suc n) k = more_sockets n (snd (sys_socket k))"
  by (simp_all add: more_sockets_def funpow_Suc_right del: funpow.simps(2))

lemma more_sockets_add: "more_sockets n (more_sockets m k) = more_sockets (m + n) k"
  by (simp add: more_sockets_def funpow_add add.commute [of m])

lemma sys_socket_work [simp]:
  "sockets_work (snd (sys_socket k)) = sockets_work k"
  "sockets_work k \<Longrightarrow> length (open_fds (snd (sys_socket k))) = Suc (length (open_fds k))"
  "sockets_work k \<Longrightarrow> \<not> fst (sys_socket k) < 0"
  by (simp_all add: sys_socket_def Let_def sockets_work_def linorder_not_less)

lemma more_sockets_work [simp]:
  "sockets_work (more_sockets n k) = sockets_work k"
  "sockets_work k \<Longrightarrow> length (open_fds (more_sockets n k)) = length (open_fds k) + n"
  by (induction n arbitrary: k) simp_all

lemma if_index_to_name_ok:
  "sockets_work k \<Longrightarrow> nd_name nd i = Some name \<Longrightarrow> if_index_to_name nd i k = Inr (name, snd (sys_socket k))"
  using sys_socket_work(3) [of k] by (simp add: if_index_to_name_def split_beta)

lemma attrs_effect_values:
  assumes "sockets_work k" "attr_values RTA_DST as \<noteq> [] \<longrightarrow> dst_mask l = Inr m"
    and "\<forall>bs\<in>set (attr_values RTA_OIF as). nd_name nd (sint (ld32 0 bs)) \<noteq> None"
  shows "attrs_effect nd l as (v, k) =
    Inr (v\<lparr>v_dest := foldl (\<lambda>_ bs. ntohl (ld32 0 bs)) (v_dest v) (attr_values RTA_DST as),
           v_mask := (if attr_values RTA_DST as = [] then v_mask v else m),
           v_gw := foldl (\<lambda>_ bs. ntohl (ld32 0 bs)) (v_gw v) (attr_values RTA_GATEWAY as),
           v_name := foldl (\<lambda>_ bs. nd_name nd (sint (ld32 0 bs))) (v_name v) (attr_values RTA_OIF as)\<rparr>,
         more_sockets (length (attr_values RTA_OIF as)) k)"
  using assms
proof (induction as arbitrary: v k)
  case (Cons a as)
  obtain t bs where a: "a = Attr t bs" by (cases a)
  consider (dst) "t = RTA_DST" | (gw) "t = RTA_GATEWAY" | (oif) "t = RTA_OIF"
    | (other) "t \<notin> {RTA_DST, RTA_GATEWAY, RTA_OIF}" by blast
  then show ?case
  proof cases
    case oif
    then obtain name where "nd_name nd (sint (ld32 0 bs)) = Some name"
      using Cons.prems(3) by (auto simp: a attr_values_def)
    then show ?thesis
      using oif Cons.IH [of "snd (sys_socket k)"] Cons.prems
      by (simp add: a attr_values_def if_index_to_name_ok)
  qed (use Cons a in \<open>auto simp: attr_values_def\<close>)
qed (simp add: attr_values_def)

lemma msg_effect_route:
  assumes "route_msg m r" "m_table m = RT_TABLE_MAIN" "route_name nd r \<noteq> None" "sockets_work k"
  shows "msg_effect nd ifs m (rt, n, k) =
     Inr (rt @ route_entries nd ifs r, n + length (route_entries nd ifs r), snd (sys_socket k))"
proof -
  obtain name where name: "nd_name nd (sint (kr_oif r)) = Some name" "route_name nd r = Some name"
    using assms(3) by (auto simp: route_name_def)
  have "attr_values RTA_DST (m_attrs m) \<noteq> [] \<longrightarrow> dst_mask (m_dst_len m) = Inr (netmask (kr_len r))"
    using assms(1) dst_mask_netmask [of "m_dst_len m"] by (auto simp: route_msg_def)
  from attrs_effect_values [OF assms(4) this, of nd no_vars]
  have "attrs_effect nd (m_dst_len m) (m_attrs m) (no_vars, k) =
      Inr (\<lparr>v_dest = kr_dst r, v_mask = netmask (kr_len r), v_gw = kr_gw r, v_name = Some name\<rparr>, snd (sys_socket k))"
    using assms(1) name by (simp add: route_msg_def no_vars_def split: if_splits)
  then show ?thesis
    using assms(2) name by (simp add: msg_effect_def route_entries_def split: option.split)
qed

text \<open>The messages of the main table describe the routes one by one; the others are skipped.\<close>

inductive dump :: "rtmsg list \<Rightarrow> kroute list \<Rightarrow> bool" where
  dump_Nil: "dump [] []"
| dump_other: "dump ms rs \<Longrightarrow> m_table m \<noteq> RT_TABLE_MAIN \<Longrightarrow> wf_msg m \<Longrightarrow> dump (m # ms) rs"
| dump_route: "dump ms rs \<Longrightarrow> m_table m = RT_TABLE_MAIN \<Longrightarrow> wf_msg m \<Longrightarrow> route_msg m r \<Longrightarrow> dump (m # ms) (r # rs)"

lemma dump_wf: "dump ms rs \<Longrightarrow> \<forall>m\<in>set ms. wf_msg m"
  by (induction rule: dump.induct) auto

lemma msgs_effect_dump:
  assumes "dump ms rs" "\<forall>r\<in>set rs. route_name nd r \<noteq> None" "sockets_work k"
  shows "msgs_effect nd ifs ms (rt, n, k) =
    Inr (rt @ kernel_entries nd ifs rs, n + length (kernel_entries nd ifs rs), more_sockets (length rs) k)"
  using assms
proof (induction arbitrary: rt n k rule: dump.induct)
  case dump_Nil
  then show ?case by (simp add: kernel_entries_def)
next
  case (dump_other ms rs m)
  then show ?case by (simp add: msg_effect_def)
next
  case (dump_route ms rs m r)
  then show ?case by (simp add: msg_effect_route kernel_entries_def)
qed

section \<open>The receive loop\<close>

declare recv_loop.simps [simp del]

definition answer :: "rtmsg list \<Rightarrow> bytes option" where
  "answer ms = Some (enc_msgs ms)"

text \<open>A datagram that ends the dump: its first message has the type \<^verbatim>\<open>NLMSG_DONE\<close>.\<close>

definition done_datagram :: "bytes \<Rightarrow> bool" where
  "done_datagram d \<longleftrightarrow> 16 \<le> length d \<and> ld16 4 d = NLMSG_DONE"

lemma enc_msgs_append: "enc_msgs (as @ bs) = enc_msgs as @ enc_msgs bs"
  by (simp add: enc_msgs_def)

lemma recv_loop_Some:
  assumes "length buf + 16 \<le> ROUTE_BATCH_SIZE" "bs = take (ROUTE_BATCH_SIZE - length buf) d" "bs \<noteq> []"
    and "rd16 (buf @ bs) (length buf + 4) = Inr t"
  shows "recv_loop (Some d # rs) buf =
    (if t = NLMSG_DONE then Inr (buf @ bs, length buf) else if t = NLMSG_ERROR then Inl Exited else recv_loop rs (buf @ bs))"
proof -
  have "\<not> ROUTE_BATCH_SIZE - length buf < NLMSG_HDRLEN" using assms(1) by simp
  then show ?thesis
    using assms(3,4) unfolding assms(2) by (simp add: recv_loop.simps [of "Some d # rs"] Let_def)
qed

lemma rd16_take:
  "6 \<le> n \<Longrightarrow> rd16 (buf @ d) (length buf + 4) = Inr t \<Longrightarrow> rd16 (buf @ take n d) (length buf + 4) = Inr t"
  by (auto simp: rd16_def rd8_def nth_append split: if_splits)

text \<open>A datagram that starts with a route is added to the buffer, as far as it fits.\<close>

lemma recv_loop_route:
  assumes "ms \<noteq> []" "\<forall>m\<in>set ms. wf_msg m" "length buf + 16 \<le> ROUTE_BATCH_SIZE" "length (enc_msgs ms) < 4294967296"
  shows "recv_loop (Some (enc_msgs ms @ z) # rs) buf =
         recv_loop rs (buf @ take (ROUTE_BATCH_SIZE - length buf) (enc_msgs ms @ z))"
proof -
  obtain m ms' where ms: "ms = m # ms'" using assms(1) by (cases ms) auto
  have wf: "wf_msg m" using assms(2) ms by simp
  have l: "length (enc_msg m) < 4294967296" using assms(4) by (simp add: ms enc_msgs_def)
  have ty: "rd16 (buf @ enc_msgs ms @ z) (length buf + 4) = Inr (m_type m)"
    by (rule enc_msg_reads(2) [OF wf _ l, of _ _ "enc_msgs ms' @ z"]) (simp add: ms enc_msgs_def)
  let ?d = "take (ROUTE_BATCH_SIZE - length buf) (enc_msgs ms @ z)"
  have "?d \<noteq> []" using length_enc_msg [OF wf] assms(3) by (auto simp: ms enc_msgs_def)
  moreover have "rd16 (buf @ ?d) (length buf + 4) = Inr (m_type m)" using assms(3) by (intro rd16_take ty) simp
  ultimately show ?thesis
    using wf by (subst recv_loop_Some [OF assms(3) refl]) (auto simp: wf_msg_def)
qed

lemma recv_loop_step:
  assumes "ms \<noteq> []" "\<forall>m\<in>set ms. wf_msg m" "length buf + length (enc_msgs ms) + 16 \<le> ROUTE_BATCH_SIZE"
  shows "recv_loop (answer ms # rs) buf = recv_loop rs (buf @ enc_msgs ms)"
  using recv_loop_route [OF assms(1,2), of buf "[]" rs] assms(3) by (simp add: answer_def ROUTE_BATCH_SIZE_def)

lemma recv_loop_done:
  assumes "done_datagram d" "length buf + 16 \<le> ROUTE_BATCH_SIZE"
  shows "\<exists>d'. recv_loop (Some d # rs) buf = Inr (buf @ d', length buf)"
proof -
  let ?d = "take (ROUTE_BATCH_SIZE - length buf) d"
  have l: "16 \<le> length ?d" using assms by (auto simp: done_datagram_def)
  then have "?d \<noteq> []" by (metis list.size(3) not_numeral_le_zero)
  moreover have "rd16 (buf @ ?d) (length buf + 4) = Inr NLMSG_DONE"
  proof -
    have "ld16 4 d = le16 (d ! 4) (d ! 5)" by (simp add: ld16_def)
    then show ?thesis
      using assms l by (simp add: rd16_def rd8_def nth_append done_datagram_def)
  qed
  ultimately show ?thesis
    using recv_loop_Some [OF assms(2) refl] by auto
qed

definition chunks_size :: "rtmsg list list \<Rightarrow> nat" where
  "chunks_size mss = length (enc_msgs (concat mss))"

lemma recv_loop_answers:
  assumes "\<forall>ms\<in>set mss. ms \<noteq> []" "\<forall>m\<in>set (concat mss). wf_msg m"
    "length buf + chunks_size mss + 16 \<le> ROUTE_BATCH_SIZE"
  shows "recv_loop (map answer mss @ rs) buf = recv_loop rs (buf @ enc_msgs (concat mss))"
  using assms
proof (induction mss arbitrary: buf)
  case Nil
  then show ?case by (simp add: enc_msgs_def)
next
  case (Cons ms mss)
  have e: "enc_msgs (concat (ms # mss)) = enc_msgs ms @ enc_msgs (concat mss)" by (simp add: enc_msgs_append)
  have "recv_loop (answer ms # map answer mss @ rs) buf = recv_loop (map answer mss @ rs) (buf @ enc_msgs ms)"
    using Cons.prems e by (intro recv_loop_step) (auto simp: chunks_size_def)
  also have "\<dots> = recv_loop rs ((buf @ enc_msgs ms) @ enc_msgs (concat mss))"
    using Cons.prems e by (intro Cons.IH) (auto simp: chunks_size_def)
  finally show ?case by (simp add: enc_msgs_append)
qed

lemma get_unparsed_ok:
  assumes "nl_send nl route_request" "sockets_work k" "recv_loop (nl_answers nl) [] = Inr (buf, len)"
  shows "\<exists>k'. get_unparsed_route_info nl k = Inr (buf, len, k') \<and> sockets_work k' \<and> length (open_fds k') = length (open_fds k)"
proof -
  let ?fd = "sock_results k (sock_calls k)"
  let ?k = "k\<lparr>sock_calls := Suc (sock_calls k), open_fds := open_fds k @ [?fd]\<rparr>"
  have "get_unparsed_route_info nl k = Inr (buf, len, sys_close ?fd ?k)"
    using assms sockets_workD [OF assms(2)] by (simp add: get_unparsed_route_info_def sys_socket_def Let_def)
  moreover have "sockets_work (sys_close ?fd ?k)" "length (open_fds (sys_close ?fd ?k)) = length (open_fds k)"
    using assms(2) by (simp_all add: sockets_work_def sys_close_def length_remove1)
  ultimately show ?thesis by blast
qed

section \<open>Malformed answers\<close>

definition safe :: "'a res \<Rightarrow> bool" where
  "safe m \<longleftrightarrow> m \<noteq> Inl Out_Of_Bounds"

lemma safe_simps [simp]: "safe (Inr x)" "safe (Inl e) \<longleftrightarrow> e \<noteq> Out_Of_Bounds"
  by (simp_all add: safe_def)

lemma safe_bind [intro!]: "safe m \<Longrightarrow> (\<And>x. m = Inr x \<Longrightarrow> safe (f x)) \<Longrightarrow> safe (res_bind m f)"
  by (cases m) (auto simp: safe_def)

lemma safe_rd8: "i < ROUTE_BATCH_SIZE \<Longrightarrow> safe (rd8 buf i)"
  by (simp add: rd8_def)

lemma safe_rd16: "i + 2 \<le> ROUTE_BATCH_SIZE \<Longrightarrow> safe (rd16 buf i)"
  by (auto simp: rd16_def intro: safe_rd8)

lemma safe_rd32: "i + 4 \<le> ROUTE_BATCH_SIZE \<Longrightarrow> safe (rd32 buf i)"
  by (auto simp: rd32_def intro: safe_rd16)

lemma safe_helpers: "safe (dst_mask l)" "safe (if_index_to_name nd i k)"
  by (simp_all add: dst_mask_def if_index_to_name_def split_beta Let_def split: option.split)

lemma safe_rta_attr:
  assumes "rta + 8 \<le> ROUTE_BATCH_SIZE" "rtp + 1 < ROUTE_BATCH_SIZE"
  shows "safe (rta_attr nd buf rtp rta v k)"
  unfolding rta_attr_def using assms by (auto intro!: safe_rd8 safe_rd16 safe_rd32 safe_helpers)

lemma safe_rta_loop:
  "int rta + rtl + 4 \<le> int ROUTE_BATCH_SIZE \<Longrightarrow> rtp + 1 < ROUTE_BATCH_SIZE \<Longrightarrow>
   safe (rta_loop nd buf rtp rta rtl v k)"
proof (induction nd buf rtp rta rtl v k rule: rta_loop.induct)
  case (1 nd buf rtp rta rtl v k)
  show ?case
  proof (cases "rtl < 4")
    case False
    then have "rta + 8 \<le> ROUTE_BATCH_SIZE" using "1.prems"(1) by linarith
    then show ?thesis
      unfolding rta_loop.simps [of _ _ _ rta] using False "1.prems"
      by (auto intro!: safe_rd16 safe_rta_attr "1.IH")
  qed (simp add: rta_loop.simps)
qed

lemma safe_nlmsg_loop:
  "int nlp + len + 16 \<le> int ROUTE_BATCH_SIZE \<Longrightarrow> safe (nlmsg_loop nd ifs buf nlp len rt n k)"
proof (induction "nat len" arbitrary: nlp len rt n k rule: less_induct)
  case less
  show ?case
  proof (cases "len < 16")
    case False
    then have b: "nlp + 32 \<le> ROUTE_BATCH_SIZE" using less.prems by linarith
    have next_ok: "safe (nlmsg_loop nd ifs buf (nlp + NLMSG_ALIGN l) (len - int (NLMSG_ALIGN l)) rt n k)"
      if "\<not> l < 16" for l rt n k
      using False less.prems NLMSG_ALIGN_pos [OF that] by (intro less.hyps) auto
    show ?thesis
      unfolding nlmsg_loop.simps [of _ _ _ nlp] Let_def using False b less.prems
      by (auto intro!: safe_rd8 safe_rd32 safe_rta_loop next_ok split: option.split)
  qed (simp add: nlmsg_loop.simps)
qed

lemma nlmsg_loop_table:
  "nlmsg_loop nd ifs buf nlp len rt n k = Inr (rt', n', k') \<Longrightarrow>
   n' + length rt = n + length rt' \<and> ((\<forall>e\<in>set rt. rt_iface e \<in> set ifs) \<longrightarrow> (\<forall>e\<in>set rt'. rt_iface e \<in> set ifs))"
proof (induction "nat len" arbitrary: nlp len rt n k rule: less_induct)
  case less
  have IH: "n' + length rt = n + length rt' \<and> ((\<forall>e\<in>set rt. rt_iface e \<in> set ifs) \<longrightarrow> (\<forall>e\<in>set rt'. rt_iface e \<in> set ifs))"
    if "nlmsg_loop nd ifs buf (nlp + NLMSG_ALIGN l) (len - int (NLMSG_ALIGN l)) rt n k = Inr (rt', n', k')" "\<not> l < 16" "\<not> len < 16"
    for l rt n k
    using that(3) NLMSG_ALIGN_pos [OF that(2)] by (intro less.hyps [OF _ that(1)]) auto
  have "rt_iface (new_rt_entry d m g i) \<in> set ifs" if "if_name_to_iface ifs name = Some i" for d m g i name
    using that by (auto simp: new_rt_entry_def if_name_to_iface_def find_Some_iff)
  then show ?case
    using less.prems unfolding nlmsg_loop.simps [of _ _ _ nlp] Let_def
    by (fastforce simp: res_simps split: if_splits option.splits dest!: IH)
qed

lemma safe_recv_loop:
  "safe (recv_loop rs buf)" "recv_loop rs buf = Inr (b, len) \<Longrightarrow> len + 16 \<le> ROUTE_BATCH_SIZE"
proof (induction rs arbitrary: buf)
  case Nil
  { case 1 show ?case by (simp add: recv_loop.simps Let_def) }
  { case 2 then show ?case by (simp add: recv_loop.simps Let_def split: if_splits) }
next
  case (Cons r rs)
  { case 1
    then show ?case unfolding recv_loop.simps [of "r # rs"] Let_def
      by (auto intro!: safe_rd16 Cons.IH(1) split: option.split) }
  { case 2
    then show ?case unfolding recv_loop.simps [of "r # rs"] Let_def
      by (auto simp: res_simps split: option.splits if_splits dest: Cons.IH(2)) }
qed

section \<open>Complete answers\<close>

lemma kernel_answer_read:
  assumes "nl_answers nl = map answer mss @ Some d # later" "done_datagram d"
    and "dump (concat mss) rs" "\<forall>ms\<in>set mss. ms \<noteq> []" "chunks_size mss + 16 \<le> ROUTE_BATCH_SIZE"
    and "\<forall>r\<in>set rs. route_name nd r \<noteq> None" "nl_send nl route_request" "sockets_work k"
  shows "\<exists>k'. read_kernel_rtable nd nl ifs k = Inr (kernel_entries nd ifs rs, length (kernel_entries nd ifs rs), k') \<and>
    length (open_fds k') = length (open_fds k) + length rs"
proof -
  let ?ms = "concat mss"
  have wf: "\<forall>m\<in>set ?ms. wf_msg m" by (rule dump_wf [OF assms(3)])
  have "recv_loop (nl_answers nl) [] = recv_loop (Some d # later) ([] @ enc_msgs ?ms)"
    unfolding assms(1) using assms(4,5) wf by (intro recv_loop_answers) (auto simp: chunks_size_def)
  moreover obtain d' where "recv_loop (Some d # later) (enc_msgs ?ms) = Inr (enc_msgs ?ms @ d', length (enc_msgs ?ms))"
    using recv_loop_done [OF assms(2)] assms(5) by (fastforce simp: chunks_size_def)
  ultimately obtain k1 where k1: "sockets_work k1" "length (open_fds k1) = length (open_fds k)"
    "get_unparsed_route_info nl k = Inr (enc_msgs ?ms @ d', length (enc_msgs ?ms), k1)"
    using get_unparsed_ok [OF assms(7,8)] by auto
  have "length (enc_msgs ?ms) < 4294967296" using assms(5) by (simp add: chunks_size_def ROUTE_BATCH_SIZE_def)
  then have "nlmsg_loop nd ifs ([] @ enc_msgs ?ms @ d') (length ([] :: bytes)) (int (length (enc_msgs ?ms))) [] 0 k1 =
      msgs_effect nd ifs ?ms ([], 0, k1)"
    using nlmsg_loop_enc [OF wf refl] by blast
  then have "read_kernel_rtable nd nl ifs k =
      Inr (kernel_entries nd ifs rs, length (kernel_entries nd ifs rs), more_sockets (length rs) k1)"
    by (simp add: read_kernel_rtable_def k1(3) parse_routing_info_def msgs_effect_dump [OF assms(3,6) k1(1)])
  then show ?thesis using k1(1,2) by simp
qed

section \<open>Properties\<close>

text \<open>
  Property C22: the routing table of the kernel is read completely. However the messages of the
  answer are spread over datagrams, and in whatever order and among whatever others the attributes
  of a message come, the table has one entry for each route of the main table whose interface is one
  of the program's, in the order of the kernel, with the destination, the mask of the prefix length,
  the gateway and the interface of the route; \<^verbatim>\<open>n\<close> counts the entries. The answer must leave 16
  bytes of the buffer free. Each route costs a descriptor that is not closed.
\<close>

theorem kernel_table_loaded:
  assumes "nl_answers nl = map answer mss @ Some d # later" "done_datagram d"
    and "dump (concat mss) rs" "\<forall>ms\<in>set mss. ms \<noteq> []" "chunks_size mss + 16 \<le> ROUTE_BATCH_SIZE"
    and "\<forall>r\<in>set rs. route_name nd r \<noteq> None" "nl_send nl route_request" "sockets_work k"
  shows "\<exists>k'. read_kernel_rtable nd nl ifs k = Inr (kernel_entries nd ifs rs, length (kernel_entries nd ifs rs), k') \<and>
    length (open_fds k') = length (open_fds k) + length rs"
  using assms by (rule kernel_answer_read)

definition example_msg :: "u8 \<Rightarrow> u8 \<Rightarrow> rtattr list \<Rightarrow> rtmsg" where
  "example_msg table l as =
     \<lparr>m_type = 24, m_rest = replicate 10 0, m_family = 2, m_dst_len = l, m_src = [0, 0], m_table = table,
      m_tail = replicate 7 0, m_attrs = as\<rparr>"

definition example_local :: rtmsg where
  "example_local = example_msg 255 32 [Attr RTA_DST [10, 0, 1, 1], Attr RTA_OIF [2, 0, 0, 0]]"

definition example_net :: rtmsg where
  "example_net =
     example_msg 254 24 [Attr 15 [254, 0, 0, 0], Attr RTA_DST (bytes32 (htonl 0x0a000100)), Attr RTA_OIF (bytes32 2)]"

definition example_default :: rtmsg where
  "example_default =
     example_msg 254 0 [Attr RTA_GATEWAY (bytes32 (htonl 0x0a0002fe)), Attr RTA_OIF (bytes32 3), Attr 6 [1, 0, 0]]"

definition example_dump :: "rtmsg list list" where
  "example_dump = [[example_local, example_net], [example_default]]"

definition example_routes :: "kroute list" where
  "example_routes =
     [\<lparr>kr_dst = 0x0a000100, kr_len = 24, kr_gw = 0, kr_oif = 2\<rparr>, \<lparr>kr_dst = 0, kr_len = 0, kr_gw = 0x0a0002fe, kr_oif = 3\<rparr>]"

definition example_done :: bytes where
  "example_done = bytes32 20 @ bytes16 NLMSG_DONE @ bytes16 2 @ replicate 12 0"

definition example_nl :: nlkernel where
  "example_nl = \<lparr>nl_send = (\<lambda>req. True), nl_answers = map answer example_dump @ [Some example_done]\<rparr>"

definition example_table :: "rt_entry list" where
  "example_table =
     [new_rt_entry 0x0a000100 0xffffff00 0 example_if0, new_rt_entry 0 0 0x0a0002fe example_if1]"

lemmas example_msg_defs = example_local_def example_net_def example_default_def example_msg_def

lemma example_wf: "wf_msg example_local" "wf_msg example_net" "wf_msg example_default"
  by (simp_all add: example_msg_defs wf_msg_def wf_attr_def)

lemma example_dump_routes: "dump (concat example_dump) example_routes"
proof -
  have "dump [] []" by (rule dump_Nil)
  then have "dump [example_default] [\<lparr>kr_dst = 0, kr_len = 0, kr_gw = 0x0a0002fe, kr_oif = 3\<rparr>]"
    by (rule dump_route) (rule example_wf | simp add: example_msg_defs route_msg_def attr_values_def)+
  then have "dump [example_net, example_default] example_routes"
    unfolding example_routes_def
    by (rule dump_route) (rule example_wf | simp add: example_msg_defs route_msg_def attr_values_def)+
  then have "dump [example_local, example_net, example_default] example_routes"
    by (rule dump_other) (rule example_wf | simp add: example_msg_defs)+
  then show ?thesis by (simp add: example_dump_def)
qed

lemma example_dump_size: "chunks_size example_dump + 16 \<le> ROUTE_BATCH_SIZE"
  by (simp add: chunks_size_def enc_msgs_def example_dump_def length_enc_msg example_wf)
    (simp add: example_msg_defs enc_attrs_def length_enc_attr NLMSG_ALIGN_def ROUTE_BATCH_SIZE_def)

lemma netmask_24 [simp]: "netmask 24 = 0xffffff00"
  unfolding netmask_def by code_simp

lemma example_table_eq: "kernel_entries example_netdev [example_if0, example_if1] example_routes = example_table"
  by (simp add: kernel_entries_def route_entries_def example_routes_def route_name_def example_netdev_def
      if_name_to_iface_def example_if0_def example_if1_def example_table_def)

lemma example_done_datagram: "done_datagram example_done"
  by (simp add: done_datagram_def example_done_def ld16_def bytes32_def bytes16_def)

lemma example_names: "\<forall>r\<in>set example_routes. route_name example_netdev r \<noteq> None"
  by (simp add: example_routes_def route_name_def example_netdev_def)

theorem kernel_table_loaded_witness:
  "\<exists>k'. read_kernel_rtable example_netdev example_nl [example_if0, example_if1] example_os = Inr (example_table, 2, k')"
proof -
  have "nl_answers example_nl = map answer example_dump @ Some example_done # []" "nl_send example_nl route_request"
    by (simp_all add: example_nl_def)
  moreover have "\<forall>ms\<in>set example_dump. ms \<noteq> []" by (simp add: example_dump_def)
  moreover have "length (kernel_entries example_netdev [example_if0, example_if1] example_routes) = 2"
    by (simp add: example_table_eq example_table_def)
  ultimately show ?thesis
    using kernel_table_loaded [OF _ example_done_datagram example_dump_routes _ example_dump_size example_names, of example_nl "[]"
        example_os "[example_if0, example_if1]"]
    by (auto simp: example_table_eq)
qed

text \<open>
  Property C23: whatever the kernel answers, and however malformed the messages are, the reader stays
  within its buffer and ends: it gives a table, exits, waits for an answer that does not come, or uses
  bytes of the buffer that were never received or an undefined shift.
\<close>

theorem kernel_table_reader_in_bounds:
  "read_kernel_rtable nd nl ifs k \<noteq> Inl Out_Of_Bounds"
proof -
  have "safe (get_unparsed_route_info nl k)"
    unfolding get_unparsed_route_info_def Let_def by (auto simp: split_beta intro!: safe_recv_loop(1))
  moreover have "safe (parse_routing_info nd ifs [] buf len k')"
    if "get_unparsed_route_info nl k = Inr (buf, len, k')" for buf len k'
  proof -
    have "\<exists>b. recv_loop (nl_answers nl) [] = Inr (b, len)"
      using that by (auto simp: get_unparsed_route_info_def Let_def split_beta res_simps split: if_splits)
    then have "len + 16 \<le> ROUTE_BATCH_SIZE" using safe_recv_loop(2) by blast
    then show ?thesis
      unfolding parse_routing_info_def by (intro safe_nlmsg_loop) simp
  qed
  ultimately have "safe (read_kernel_rtable nd nl ifs k)"
    unfolding read_kernel_rtable_def by auto
  then show ?thesis by (simp add: safe_def)
qed

text \<open>
  When the kernel puts \<^verbatim>\<open>NLMSG_DONE\<close> behind routes into one datagram, the reader, which
  looks only at the first message of each datagram, does not see it and waits for ever for the next
  datagram.
\<close>

theorem coalesced_done_blocks:
  assumes "nl_answers nl = map answer mss @ [Some (enc_msgs ms @ d)]" "\<forall>m\<in>set (concat mss @ ms). wf_msg m"
    and "\<forall>ns\<in>set (mss @ [ms]). ns \<noteq> []" "chunks_size mss + length (enc_msgs ms @ d) + 16 \<le> ROUTE_BATCH_SIZE"
    and "nl_send nl route_request" "sockets_work k"
  shows "read_kernel_rtable nd nl ifs k = Inl Deadlock"
proof -
  let ?buf = "enc_msgs (concat mss)"
  have "recv_loop (nl_answers nl) [] = recv_loop [Some (enc_msgs ms @ d)] ([] @ ?buf)"
    unfolding assms(1) using assms(2-4) by (intro recv_loop_answers) auto
  also have "\<dots> = recv_loop [] (?buf @ take (ROUTE_BATCH_SIZE - length ?buf) (enc_msgs ms @ d))"
    using assms(2-4) unfolding append_Nil
    by (intro recv_loop_route) (auto simp: chunks_size_def ROUTE_BATCH_SIZE_def)
  also have "\<dots> = Inl Deadlock"
    using assms(4) by (simp add: recv_loop.simps Let_def chunks_size_def ROUTE_BATCH_SIZE_def)
  finally show ?thesis
    using assms(5,6) sockets_workD [OF assms(6)]
    by (simp add: read_kernel_rtable_def get_unparsed_route_info_def sys_socket_def Let_def)
qed

definition example_coalesced :: nlkernel where
  "example_coalesced =
     \<lparr>nl_send = (\<lambda>req. True), nl_answers = [Some (enc_msgs [example_local, example_net, example_default] @ example_done)]\<rparr>"

theorem coalesced_done_blocks_witness:
  "read_kernel_rtable example_netdev example_coalesced [example_if0, example_if1] example_os = Inl Deadlock"
proof (rule coalesced_done_blocks [where mss = "[]" and ms = "[example_local, example_net, example_default]" and d = example_done])
  show "chunks_size [] + length (enc_msgs [example_local, example_net, example_default] @ example_done) + 16 \<le> ROUTE_BATCH_SIZE"
    using example_dump_size by (simp add: chunks_size_def example_dump_def enc_msgs_def length_enc_msg example_wf)
      (simp add: example_msg_defs enc_attrs_def length_enc_attr NLMSG_ALIGN_def ROUTE_BATCH_SIZE_def example_done_def)
qed (simp_all add: example_coalesced_def example_wf)

text \<open>
  A table that leaves less than 16 bytes of the buffer makes the program exit, also when it fits.
  The table is never cut off without notice.
\<close>

theorem large_table_exits:
  assumes "nl_answers nl = map answer mss @ answer ms # later" "\<forall>m\<in>set (concat mss @ ms). wf_msg m"
    and "\<forall>ns\<in>set (mss @ [ms]). ns \<noteq> []" "chunks_size mss + 16 \<le> ROUTE_BATCH_SIZE"
    and "ROUTE_BATCH_SIZE < chunks_size mss + length (enc_msgs ms) + 16" "length (enc_msgs ms) < 4294967296"
  shows "read_kernel_rtable nd nl ifs k = Inl Exited"
proof -
  let ?buf = "enc_msgs (concat mss)"
  have "recv_loop (nl_answers nl) [] = recv_loop (Some (enc_msgs ms @ []) # later) ([] @ ?buf)"
    unfolding assms(1) append_Nil2 answer_def [symmetric] using assms(2-4) by (intro recv_loop_answers) auto
  also have "\<dots> = recv_loop later (?buf @ take (ROUTE_BATCH_SIZE - length ?buf) (enc_msgs ms @ []))"
    using assms(2-6) unfolding append_Nil by (intro recv_loop_route) (auto simp: chunks_size_def)
  also have "\<dots> = Inl Exited"
    using assms(4,5) by (auto simp: recv_loop.simps Let_def chunks_size_def min_def)
  finally show ?thesis
    by (simp add: read_kernel_rtable_def get_unparsed_route_info_def split_beta Let_def)
qed

text \<open>
  A route of the main table without an output interface, such as an unreachable one, makes the
  parser compare with an interface name that was never filled in.
\<close>

theorem route_without_interface:
  assumes "wf_msg m" "m_table m = RT_TABLE_MAIN" "attr_values RTA_OIF (m_attrs m) = []"
    and "attr_values RTA_DST (m_attrs m) \<noteq> [] \<longrightarrow> 1 \<le> unat (m_dst_len m) \<and> unat (m_dst_len m) \<le> 32"
    and "dump ms rs" "\<forall>r\<in>set rs. route_name nd r \<noteq> None" "sockets_work k" "length (enc_msgs (ms @ [m])) < 4294967296"
  shows "parse_routing_info nd ifs [] (enc_msgs (ms @ [m]) @ rest) (length (enc_msgs (ms @ [m]))) k = Inl Uninitialised"
proof -
  have "attr_values RTA_DST (m_attrs m) \<noteq> [] \<longrightarrow> dst_mask (m_dst_len m) = Inr (netmask (unat (m_dst_len m)))"
    using assms(4) dst_mask_netmask by blast
  from attrs_effect_values [OF _ this] assms(3)
  have "msg_effect nd ifs m (rt, n, k') = Inl Uninitialised" if "sockets_work k'" for rt n k'
    using that assms(2) by (simp add: msg_effect_def no_vars_def)
  moreover have "msgs_effect nd ifs (xs @ [m]) st = res_bind (msgs_effect nd ifs xs st) (msg_effect nd ifs m)" for xs st
  proof (induction xs arbitrary: st)
    case Nil
    then show ?case by (cases "msg_effect nd ifs m st") auto
  qed (simp add: res_bind_assoc cong: res_bind_cong)
  ultimately have "msgs_effect nd ifs (ms @ [m]) ([], 0, k) = Inl Uninitialised"
    using msgs_effect_dump [OF assms(5-7)] assms(7) by simp
  moreover have "\<forall>m\<in>set (ms @ [m]). wf_msg m" using dump_wf [OF assms(5)] assms(1) by simp
  ultimately show ?thesis
    using nlmsg_loop_enc [of "ms @ [m]" "enc_msgs (ms @ [m]) @ rest" "[]" rest nd ifs "[]" 0 k] assms(8)
    by (simp add: parse_routing_info_def)
qed

end
