(* ===== verification/Boot.thy ===== *)
theory Boot
  imports Netlink Mac_Table Mospf_Net
begin

text \<open>
  The programs from their start: the \<^verbatim>\<open>main\<close> functions of the router (\<^verbatim>\<open>code-exp5/main.c\<close>), the
  router with dynamic routing (\<^verbatim>\<open>code-exp7/main.c\<close>), the hub (\<^verbatim>\<open>code-exp8/main.c\<close>) and the
  switch (\<^verbatim>\<open>code-exp9/main.c\<close>), composed of the initialisation of \<open>Device_Init\<close>, the reader of
  \<open>Netlink\<close>, the handlers of the component theories and the packet loop. A program runs for the
  results of \<^verbatim>\<open>poll\<close> it is given; its threads are separate steps of the reachability relations of
  \<open>Arp_Sweep\<close> and \<open>Mospf\<close>.
\<close>

section \<open>The code\<close>

text \<open>The router up to its packet loop: interfaces, ARP cache and the table of the kernel.\<close>

definition router_start ::
    "netdev \<Rightarrow> nlkernel \<Rightarrow> ifaddrs option \<Rightarrow> router \<Rightarrow> os \<Rightarrow> (ustack \<times> router \<times> os) res" where
  "router_start nd nl g r k =
     res_bind (init_ustack nd g k) (\<lambda>(st, k).
       let r = (arpcache_init r)\<lparr>rtable := init_rtable\<rparr>
       in res_bind (read_kernel_rtable nd nl (iface_list st) k) (\<lambda>(ktab, n, k).
            Inr (st, r\<lparr>rtable := load_rtable_from_kernel ktab (rtable r)\<rparr>, k)))"

definition router_main ::
    "int \<Rightarrow> int \<Rightarrow> netdev \<Rightarrow> nlkernel \<Rightarrow> ifaddrs option \<Rightarrow> router \<Rightarrow> os \<Rightarrow> poll_result list \<Rightarrow> router res" where
  "router_main uid euid nd nl g r k polls =
     (if uid \<noteq> 0 \<and> euid \<noteq> 0 then Inl Exited
      else res_bind (router_start nd nl g r k) (\<lambda>(st, r, k). ustack_run handle_packet st polls r))"

text \<open>The dynamic router, with the packet loop that does not test the interface it looks up.\<close>

fun unchecked_run ::
    "(iface_info option \<Rightarrow> bytes \<Rightarrow> 's \<Rightarrow> 's res) \<Rightarrow> ustack \<Rightarrow> poll_result list \<Rightarrow> 's \<Rightarrow> 's res" where
  "unchecked_run handle st [] s = Inr s"
| "unchecked_run handle st (Poll_Failed # ps) s = Inr s"
| "unchecked_run handle st (Poll_None # ps) s = unchecked_run handle st ps s"
| "unchecked_run handle st (Poll_Ready evs # ps) s =
     res_bind (unchecked_round handle (iface_list st) (zip (map fst (fds st)) evs) s)
       (unchecked_run handle st ps)"

text \<open>
  \<^verbatim>\<open>handle_packet\<close> on such a pointer: both handlers compare an address of the packet with the one of the
  interface, which is read after the address of the packet.
\<close>

definition handle_packet7_ptr :: "iface_info option \<Rightarrow> bytes \<Rightarrow> mospf \<Rightarrow> mospf res" where
  "handle_packet7_ptr iptr packet s =
     (case iptr of
        Some i \<Rightarrow> handle_packet7 i packet s
      | None \<Rightarrow>
          if length packet < ETHER_HDR_SIZE then Inl Out_Of_Bounds
          else if ntohs (ether_type packet) = ETH_P_IP
            then if length packet < ETHER_HDR_SIZE + IP_BASE_HDR_SIZE then Inl Out_Of_Bounds else Inl Null_Deref
          else if ntohs (ether_type packet) = ETH_P_ARP
            then if length packet < ETHER_HDR_SIZE + ETHER_ARP_SIZE then Inl Out_Of_Bounds else Inl Null_Deref
          else Inr s)"

definition mospf_main ::
    "int \<Rightarrow> int \<Rightarrow> netdev \<Rightarrow> nlkernel \<Rightarrow> ifaddrs option \<Rightarrow>
     router \<Rightarrow> os \<Rightarrow> poll_result list \<Rightarrow> mospf res" where
  "mospf_main uid euid nd nl g r k polls =
     (if uid \<noteq> 0 \<and> euid \<noteq> 0 then Inl Exited
      else res_bind (router_start nd nl g r k) (\<lambda>(st, r, k).
             unchecked_run handle_packet7_ptr st polls (mospf_init (iface_list st) r (rtable r))))"

definition switch_main ::
    "int \<Rightarrow> int \<Rightarrow> netdev \<Rightarrow> ifaddrs option \<Rightarrow> int \<Rightarrow> os \<Rightarrow> poll_result list \<Rightarrow> switch res" where
  "switch_main uid euid nd g now k polls =
     (if uid \<noteq> 0 \<and> euid \<noteq> 0 then Inl Exited
      else res_bind (l2_init_ustack nd g k) (\<lambda>(st, k).
             ustack_run (switch_handle_packet now) st polls
               \<lparr>ports = iface_list st, macs = init_mac_port_table, out = []\<rparr>))"

text \<open>The state of the hub is the list of the frames it has sent.\<close>

definition hub_main ::
    "int \<Rightarrow> int \<Rightarrow> netdev \<Rightarrow> ifaddrs option \<Rightarrow> os \<Rightarrow> poll_result list \<Rightarrow> frame list res" where
  "hub_main uid euid nd g k polls =
     (if uid \<noteq> 0 \<and> euid \<noteq> 0 then Inl Exited
      else res_bind (l2_init_ustack nd g k) (\<lambda>(st, k).
             ustack_run (\<lambda>i p sent. Inr (sent @ hub_handle_packet (iface_list st) i p)) st polls []))"

section \<open>One packet\<close>

definition single_event :: "nat \<Rightarrow> nat \<Rightarrow> bytes \<Rightarrow> recv list" where
  "single_event n a p = (replicate n No_Input)[a := Incoming p]"

lemma ustack_round_append:
  "ustack_round h ifs (as @ bs) s = res_bind (ustack_round h ifs as s) (ustack_round h ifs bs)"
  by (induction h ifs as s rule: ustack_round.induct)
    (auto simp: res_bind_assoc split: recv.split option.split cong: res_bind_cong)

lemma ustack_round_idle: "\<forall>fe\<in>set fes. snd fe = No_Input \<Longrightarrow> ustack_round h ifs fes s = Inr s"
  by (induction h ifs fes s rule: ustack_round.induct) auto

lemma ustack_round_single:
  assumes "wf_ustack st" "a < nifs st"
  shows "ustack_round h (iface_list st) (zip (map fst (fds st)) (single_event (nifs st) a p)) s = h (iface_list st ! a) p s"
proof -
  let ?fds = "map if_fd (iface_list st)"
  have n: "length ?fds = nifs st" and fds: "map fst (fds st) = ?fds"
    using assms(1) by (auto simp: wf_ustack_def poll_entry_def)
  have ev: "single_event (nifs st) a p = replicate a No_Input @ Incoming p # replicate (nifs st - Suc a) No_Input"
    using assms(2) by (simp add: single_event_def upd_conv_take_nth_drop)
  have "zip ?fds (single_event (nifs st) a p) =
    zip (take a ?fds) (replicate a No_Input) @ (?fds ! a, Incoming p) # zip (drop (Suc a) ?fds) (replicate (nifs st - Suc a) No_Input)"
    unfolding ev using assms(2) n by (subst id_take_nth_drop [of a ?fds]) (auto simp del: take_map drop_map)
  moreover have "ustack_round h (iface_list st) (zip xs (replicate m No_Input)) = Inr" for xs m
    by (intro ext ustack_round_idle) (auto dest: set_zip_rightD)
  moreover have "fd_to_iface (iface_list st) (?fds ! a) = Some (iface_list st ! a)"
    using assms n by (simp add: fd_to_iface_wf)
  moreover have "res_bind x Inr = x" for x :: "'a res" by (cases x) auto
  ultimately show ?thesis
    unfolding fds by (simp add: ustack_round_append)
qed

section \<open>From the start to the packet loop\<close>

text \<open>
  The conditions under which the router starts: the system answers every call for the interfaces
  \<open>ns\<close>, and the kernel dumps the routes \<open>rs\<close>.
\<close>

definition bootable :: "netdev \<Rightarrow> nlkernel \<Rightarrow> ifaddrs \<Rightarrow> string list \<Rightarrow> kroute list \<Rightarrow> os \<Rightarrow> bool" where
  "bootable nd nl addrs ns rs k \<longleftrightarrow>
     ns = map fst (filter wanted addrs) \<and> ns \<noteq> [] \<and> (\<forall>n\<in>set ns. length n < IFNAMSIZ) \<and> names_size ns < 1024 \<and>
     sockets_work k \<and> fresh_fds k \<and> (\<forall>n\<in>set ns. device_ok nd n \<and> address_ok nd n) \<and>
     (\<exists>mss d later. nl_answers nl = map answer mss @ Some d # later \<and> done_datagram d \<and> dump (concat mss) rs \<and>
        (\<forall>ms\<in>set mss. ms \<noteq> []) \<and> chunks_size mss + 16 \<le> ROUTE_BATCH_SIZE) \<and>
     (\<forall>r\<in>set rs. route_name nd r \<noteq> None) \<and> nl_send nl route_request"

lemma open_all_work: "sockets_work (snd (open_all op ns k)) = sockets_work k"
  by (induction ns arbitrary: k) (simp_all add: split_beta Let_def)

definition boot_ifaces :: "netdev \<Rightarrow> string list \<Rightarrow> os \<Rightarrow> iface_info list" where
  "boot_ifaces nd ns k = fst (open_all (opened nd) ns k)"

lemma read_kernel_ok:
  assumes "bootable nd nl addrs ns rs k" "sockets_work k1"
  shows "\<exists>n k2. read_kernel_rtable nd nl ifs k1 = Inr (kernel_entries nd ifs rs, n, k2)"
proof -
  obtain mss d later where "nl_answers nl = map answer mss @ Some d # later" "done_datagram d" "dump (concat mss) rs"
    "\<forall>ms\<in>set mss. ms \<noteq> []" "chunks_size mss + 16 \<le> ROUTE_BATCH_SIZE"
    using assms(1) by (auto simp: bootable_def)
  then show ?thesis
    using kernel_answer_read [of nl mss d later rs nd k1 ifs] assms by (auto simp: bootable_def)
qed

lemma router_start_ok:
  assumes "bootable nd nl addrs ns rs k"
  obtains st r' k' where "router_start nd nl (Some addrs) r k = Inr (st, r', k')" "wf_ustack st"
    "iface_list st = boot_ifaces nd ns k" "nifs st = length ns"
    "r' = (arpcache_init r)\<lparr>rtable := kernel_entries nd (boot_ifaces nd ns k) rs\<rparr>"
proof -
  let ?ifs = "boot_ifaces nd ns k" and ?k = "snd (open_all (opened nd) ns k)"
  let ?st = "\<lparr>iface_list = ?ifs, nifs = length ns, fds = map poll_entry ?ifs\<rparr>"
  have i: "init_ustack nd (Some addrs) k = Inr (?st, ?k)"
    unfolding init_ustack_def boot_ifaces_def
    using assms by (intro init_all_ifaces_ok read_ok) (auto simp: bootable_def)
  have "wf_ustack ?st" using init_ustack_inv(1) [OF i] assms by (simp add: bootable_def)
  moreover obtain n k2 where "read_kernel_rtable nd nl ?ifs ?k = Inr (kernel_entries nd ?ifs rs, n, k2)"
    using read_kernel_ok [OF assms, of ?k ?ifs] assms by (auto simp: bootable_def open_all_work)
  then have "router_start nd nl (Some addrs) r k = Inr (?st, (arpcache_init r)\<lparr>rtable := kernel_entries nd ?ifs rs\<rparr>, k2)"
    by (simp add: router_start_def i load_rtable_from_kernel_def load_rtable_append init_rtable_def)
  ultimately show ?thesis using that by simp
qed

section \<open>Routing by the kernel's table\<close>

definition kroute_match :: "u32 \<Rightarrow> kroute \<Rightarrow> bool" where
  "kroute_match dst r \<longleftrightarrow> dst AND netmask (kr_len r) = kr_dst r AND netmask (kr_len r)"

text \<open>The best of the kernel's routes that lead out of an interface of the program.\<close>

definition kernel_choice :: "netdev \<Rightarrow> iface_info list \<Rightarrow> kroute list \<Rightarrow> u32 \<Rightarrow> kroute \<Rightarrow> iface_info \<Rightarrow> bool" where
  "kernel_choice nd ifs rs dst r i \<longleftrightarrow>
     r \<in> set rs \<and> kroute_match dst r \<and> if_name_to_iface ifs (the (route_name nd r)) = Some i \<and>
     (\<forall>r'\<in>set rs. kroute_match dst r' \<longrightarrow> if_name_to_iface ifs (the (route_name nd r')) \<noteq> None \<longrightarrow> kr_len r' \<le> kr_len r)"

lemma dump_lens: "dump ms rs \<Longrightarrow> \<forall>r\<in>set rs. kr_len r \<le> 32"
  by (induction rule: dump.induct) (auto simp: route_msg_def)

lemma kernel_entries_mem:
  "e \<in> set (kernel_entries nd ifs rs) \<longleftrightarrow>
   (\<exists>r\<in>set rs. \<exists>i. if_name_to_iface ifs (the (route_name nd r)) = Some i \<and>
      e = new_rt_entry (kr_dst r) (netmask (kr_len r)) (kr_gw r) i)"
proof -
  have "e \<in> set (route_entries nd ifs r) \<longleftrightarrow>
    (\<exists>i. if_name_to_iface ifs (the (route_name nd r)) = Some i \<and>
       e = new_rt_entry (kr_dst r) (netmask (kr_len r)) (kr_gw r) i)" for r
    by (cases "if_name_to_iface ifs (the (route_name nd r))") (auto simp: route_entries_def)
  then show ?thesis by (simp add: kernel_entries_def)
qed

lemma new_rt_entry_simps [simp]:
  "dest (new_rt_entry d m g i) = d" "mask (new_rt_entry d m g i) = m" "gw (new_rt_entry d m g i) = g"
  "rt_iface (new_rt_entry d m g i) = i"
  by (simp_all add: new_rt_entry_def)

lemma lpm_kernel_choice:
  assumes "longest_prefix_match (kernel_entries nd ifs rs) dst = Some e" "\<forall>r\<in>set rs. kr_len r \<le> 32"
  shows "\<exists>r. kernel_choice nd ifs rs dst r (rt_iface e) \<and> gw e = kr_gw r"
proof -
  obtain xs ys where es: "kernel_entries nd ifs rs = xs @ e # ys" "rt_match dst e"
    "\<forall>f\<in>set xs. rt_match dst f \<longrightarrow> prefix_len f < prefix_len e" "\<forall>f\<in>set ys. rt_match dst f \<longrightarrow> prefix_len f \<le> prefix_len e"
    using assms(1) by (rule lpm_Some)
  then have best: "\<forall>f\<in>set (kernel_entries nd ifs rs). rt_match dst f \<longrightarrow> prefix_len f \<le> prefix_len e" by auto
  obtain r i where r: "r \<in> set rs" "if_name_to_iface ifs (the (route_name nd r)) = Some i"
    "e = new_rt_entry (kr_dst r) (netmask (kr_len r)) (kr_gw r) i"
    using es(1) kernel_entries_mem [of e nd ifs rs] by auto
  have len: "prefix_len (new_rt_entry d (netmask n) g i) = n" if "n \<le> 32" for d n g i
    using that by (simp add: prefix_len_def card_netmask)
  have "kr_len r' \<le> kr_len r"
    if "r' \<in> set rs" "kroute_match dst r'" "if_name_to_iface ifs (the (route_name nd r')) = Some j" for r' j
  proof -
    have "new_rt_entry (kr_dst r') (netmask (kr_len r')) (kr_gw r') j \<in> set (kernel_entries nd ifs rs)"
      using that kernel_entries_mem by blast
    then show ?thesis
      using best that(1,2) len assms(2) r(1,3) by (fastforce simp: rt_match_def kroute_match_def)
  qed
  moreover have "kroute_match dst r" using es(2) r(3) by (simp add: rt_match_def kroute_match_def)
  ultimately show ?thesis using r by (intro exI [of _ r]) (auto simp: kernel_choice_def)
qed

section \<open>The first packet\<close>

definition arp_answer :: "iface_info \<Rightarrow> u32 \<Rightarrow> bytes \<Rightarrow> bytes \<Rightarrow> bool" where
  "arp_answer i ip m q \<longleftrightarrow> 42 \<le> length q \<and> ether_type q = htons ETH_P_ARP \<and> arp_op q = htons ARPOP_REPLY \<and>
     arp_tpa q = htonl (if_ip i) \<and> arp_spa q = htonl ip \<and> arp_sha q = m"

definition transit :: "iface_info \<Rightarrow> bytes \<Rightarrow> bool" where
  "transit i p \<longleftrightarrow> 34 \<le> length p \<and> 20 \<le> IP_HDR_SIZE p \<and> 14 + IP_HDR_SIZE p \<le> length p \<and>
     ether_type p = htons ETH_P_IP \<and> ip_ttl p \<noteq> 1 \<and> \<not> for_router i p \<and>
     (ip_protocol p = IPPROTO_ICMP \<longrightarrow> 14 + IP_HDR_SIZE p < length p)"

lemma handle_arp_answer:
  "arp_answer i ip m q \<Longrightarrow> handle_packet i q s = Inr (arpcache_insert ip m s)"
  by (simp add: arp_answer_def handle_packet_def handle_arp_packet_def ETHER_ARP_SIZE_def ARPOP_REPLY_def ARPOP_REQUEST_def)

lemma queued_then_sent:
  assumes "transit i p" "longest_prefix_match (rtable s) (ntohl (ip_daddr p)) = Some e" "req_list s = []"
    and "arpcache_lookup (next_hop e (ntohl (ip_daddr p))) s = None" "arp_answer (rt_iface e) (next_hop e (ntohl (ip_daddr p))) m q"
  shows "\<exists>s1. handle_packet i p s = Inr s1 \<and> (\<exists>s2. handle_packet (rt_iface e) q s1 = Inr s2 \<and> req_list s2 = [] \<and>
    txq s2 = txq s @ replicate 2 (rt_iface e, arp_request_packet (rt_iface e) (next_hop e (ntohl (ip_daddr p)))) @
      [(rt_iface e, put 0 m (put 6 (if_mac (rt_iface e)) (forwarded p)))])"
proof -
  let ?nh = "next_hop e (ntohl (ip_daddr p))"
  have "handle_packet i p s = Inr (iface_send_packet_by_arp (rt_iface e) ?nh (forwarded p) s)"
    using assms(1,2) by (simp add: transit_def handle_packet_ip handle_ip_packet_transit ip_forward_packet_route)
  moreover have "handle_packet (rt_iface e) q s1 = Inr (arpcache_insert ?nh m s1)" for s1
    by (rule handle_arp_answer [OF assms(5)])
  ultimately show ?thesis
    using assms(3,4)
    by (simp add: iface_send_packet_by_arp_def arpcache_append_packet_def Let_def pending_frames_def numeral_2_eq_2)
qed

definition frame_for :: "iface_info \<Rightarrow> bytes \<Rightarrow> bytes \<Rightarrow> bytes \<Rightarrow> bool" where
  "frame_for i m p f \<longleftrightarrow>
     ether_dhost f = m \<and> ether_shost f = if_mac i \<and> ether_type f = htons ETH_P_IP \<and> ip_ttl f = ip_ttl p - 1 \<and> ip_valid f \<and>
     length f = length p \<and> (\<forall>j. 14 \<le> j \<and> j < length p \<and> j \<notin> {22, 24, 25} \<longrightarrow> f ! j = p ! j)"

lemma queued_frame:
  assumes "transit i p" "length m = 6" "length (if_mac j) = 6"
  shows "frame_for j m p (put 0 m (put 6 (if_mac j) (forwarded p)))"
proof -
  let ?q = "forwarded p" and ?f = "put 0 m (put 6 (if_mac j) (forwarded p))"
  have p: "34 \<le> length p" "20 \<le> IP_HDR_SIZE p" "14 + IP_HDR_SIZE p \<le> length p" "ether_type p = htons ETH_P_IP"
    using assms(1) by (simp_all add: transit_def)
  note q = forwarded_fields [OF p(1)]
  have len: "length ?f = length ?q" using q(1) p(1) assms(2,3) by simp
  have same: "?f ! k = ?q ! k" if "12 \<le> k" "k < length ?q" for k
    using that q(1) p(1) assms(2,3) by (simp add: buffer_simps)
  have "IP_HDR_SIZE ?q = IP_HDR_SIZE p" using q(3) [of 14] p(1) by (simp add: IP_HDR_SIZE_def ip_ihl_def)
  then have "ip_valid ?f"
    using ip_valid_payload_cong [of ?q ?f] same len forwarded_valid [OF p(2,3)] q(1) p(1,3) by simp
  moreover have "ether_type ?f = ether_type p"
    using same [of 12] same [of 13] q(3) [of 12] q(3) [of 13] q(1) p(1) by (simp add: ether_type_def ld16_def)
  moreover have "ether_dhost ?f = m" "ether_shost ?f = if_mac j"
    using q(1) p(1) assms(2,3) by (simp_all add: ether_dhost_def ether_shost_def buffer_simps)
  moreover have "ip_ttl ?f = ip_ttl p - 1" using same [of 22] q p(1) by (simp add: ip_ttl_def)
  moreover have "?f ! k = p ! k" if "14 \<le> k" "k < length p" "k \<notin> {22, 24, 25}" for k
    using same [of k] q(1,3) that by simp
  ultimately show ?thesis using len q(1) p(4) by (simp add: frame_for_def)
qed

lemma arpcache_lookup_init: "arpcache_lookup ip ((arpcache_init r)\<lparr>rtable := rt\<rparr>) = None"
proof -
  have "find (\<lambda>e. valid e \<and> ip4 e = ip) (replicate n empty_entry) = None" for n
    by (induction n) (simp_all add: empty_entry_def)
  then show ?thesis by (simp add: arpcache_lookup_def arpcache_init_def)
qed

lemma boot_iface_mac:
  assumes "bootable nd nl addrs ns rs k" "\<forall>n. \<forall>hw. nd_hwaddr nd n = Some hw \<longrightarrow> 6 \<le> length hw" "i \<in> set (boot_ifaces nd ns k)"
  shows "length (if_mac i) = 6"
proof -
  obtain j where j: "j < length ns" "i = opened nd (ns ! j) (sock_results k (sock_calls k + 2 * j))"
    using assms(3) by (auto simp: boot_ifaces_def in_set_conv_nth open_all_simps)
  have "\<forall>n\<in>set ns. device_ok nd n" using assms(1) unfolding bootable_def by blast
  then have "device_ok nd (ns ! j)" using j(1) by simp
  then show ?thesis using j(2) assms(2) by (auto simp: opened_def l2_opened_def device_ok_def)
qed

lemma if_name_to_iface_mem: "if_name_to_iface ifs n = Some i \<Longrightarrow> i \<in> set ifs"
  by (auto simp: if_name_to_iface_def find_Some_iff)

section \<open>Properties\<close>

text \<open>
  Property C21: the router from its start to its first packet. It is started as root on a system that
  answers its calls, and the kernel dumps the routes \<open>rs\<close>. A transit packet arrives on interface
  \<open>a\<close>, and a route of the kernel matches its destination. The router then asks for the hardware
  address of the next hop, twice, on the interface of the longest matching route of the kernel; when the
  answer arrives, the packet leaves on that interface, addressed to the next hop, with time to live
  decremented and a valid checksum, and otherwise unchanged.
\<close>

theorem router_boot_forwards:
  assumes "bootable nd nl addrs ns rs k" "uid = 0 \<or> euid = 0" "ifs = boot_ifaces nd ns k"
    and "\<forall>n. \<forall>hw. nd_hwaddr nd n = Some hw \<longrightarrow> 6 \<le> length hw" "length m = 6"
    and "a < length ns" "transit (ifs ! a) p" "longest_prefix_match (kernel_entries nd ifs rs) (ntohl (ip_daddr p)) = Some e"
    and "b < length ns" "ifs ! b = rt_iface e" "arp_answer (rt_iface e) (next_hop e (ntohl (ip_daddr p))) m q"
  shows "(\<exists>r. kernel_choice nd ifs rs (ntohl (ip_daddr p)) r (ifs ! b) \<and> gw e = kr_gw r) \<and>
    (\<exists>s f. router_main uid euid nd nl (Some addrs) r0 k
         [Poll_Ready (single_event (length ns) a p), Poll_None, Poll_Ready (single_event (length ns) b q)] = Inr s \<and>
       txq s = txq r0 @ replicate 2 (ifs ! b, arp_request_packet (ifs ! b) (next_hop e (ntohl (ip_daddr p)))) @ [(ifs ! b, f)] \<and>
       frame_for (ifs ! b) m p f \<and> req_list s = [])"
proof -
  obtain st r' k' where start: "router_start nd nl (Some addrs) r0 k = Inr (st, r', k')" "wf_ustack st"
    "iface_list st = ifs" "nifs st = length ns" "r' = (arpcache_init r0)\<lparr>rtable := kernel_entries nd ifs rs\<rparr>"
    using router_start_ok [OF assms(1)] assms(3) by metis
  note one = ustack_round_single [OF start(2), unfolded start(3,4)]
  have lens: "\<forall>r\<in>set rs. kr_len r \<le> 32" using assms(1) dump_lens by (auto simp: bootable_def)
  obtain r where r: "kernel_choice nd ifs rs (ntohl (ip_daddr p)) r (rt_iface e)" "gw e = kr_gw r"
    using lpm_kernel_choice [OF assms(8) lens] by blast
  have mac: "length (if_mac (rt_iface e)) = 6"
    using r(1) boot_iface_mac [OF assms(1,4)] assms(3) by (auto simp: kernel_choice_def dest: if_name_to_iface_mem)
  obtain s1 s2 where s: "handle_packet (ifs ! a) p r' = Inr s1" "handle_packet (rt_iface e) q s1 = Inr s2" "req_list s2 = []"
    "txq s2 = txq r' @ replicate 2 (rt_iface e, arp_request_packet (rt_iface e) (next_hop e (ntohl (ip_daddr p)))) @
      [(rt_iface e, put 0 m (put 6 (if_mac (rt_iface e)) (forwarded p)))]"
    using queued_then_sent [OF assms(7) _ _ _ assms(11), of r'] assms(8) arpcache_lookup_init
    by (auto simp: start(5) arpcache_init_def)
  have "router_main uid euid nd nl (Some addrs) r0 k
      [Poll_Ready (single_event (length ns) a p), Poll_None, Poll_Ready (single_event (length ns) b q)] = Inr s2"
    using assms(2,6,9) s(1,2) by (auto simp: router_main_def start(1,3) one assms(10))
  moreover have "txq r' = txq r0" by (simp add: start(5) arpcache_init_def)
  ultimately show ?thesis
    using r s(3,4) queued_frame [OF assms(7,5) mac] unfolding assms(10) by auto
qed

lemma example_ifaces: "boot_ifaces example_netdev [''r1-eth0'', ''r1-eth1''] example_os = [example_if0, example_if1]"
  by (simp add: boot_ifaces_def next_fd_def split_beta) (simp add: example_os_def example_opened)

lemma example_bootable: "bootable example_netdev example_nl example_ifaddrs [''r1-eth0'', ''r1-eth1''] example_routes example_os"
  unfolding bootable_def
proof (intro conjI)
  show "\<exists>mss d later. nl_answers example_nl = map answer mss @ Some d # later \<and> done_datagram d \<and>
      dump (concat mss) example_routes \<and> (\<forall>ms\<in>set mss. ms \<noteq> []) \<and> chunks_size mss + 16 \<le> ROUTE_BATCH_SIZE"
    using example_done_datagram example_dump_routes example_dump_size
    by (intro exI [of _ example_dump] exI [of _ example_done] exI [of _ "[]"] conjI) (auto simp: example_nl_def example_dump_def)
qed (use example_names example_wanted in \<open>auto simp: IFNAMSIZ_def names_size_def device_ok_def address_ok_def
    example_netdev_def example_nl_def\<close>)

definition example_transit :: bytes where
  "example_transit = example_packet [10, 0, 9, 9] [10, 0, 1, 7] 64 17 [5, 6, 7, 8]"

definition example_reply :: bytes where
  "example_reply =
     arp_reply_packet \<lparr>if_fd = 3, if_index = 1, if_mac = [2, 0, 0, 0, 0, 2], if_ip = 0x0a000107, if_mask = 0xffffff00,
                       if_name = ''h1-eth0''\<rparr> (arp_request_packet example_if0 0x0a000107)"

lemma example_transit_ok: "transit i example_transit" "ntohl (ip_daddr example_transit) = 0x0a000107"
proof -
  show d: "ntohl (ip_daddr example_transit) = 0x0a000107"
    by (simp add: example_transit_def example_packet_fields le32_def le16_def)
  show "transit i example_transit"
    by (simp add: transit_def for_router_def example_transit_def example_packet_fields)
qed

lemma example_reply_ok: "arp_answer example_if0 0x0a000107 [2, 0, 0, 0, 0, 2] example_reply"
proof -
  have "length (if_mac example_if0) = 6" by (simp add: example_if0_def)
  then show ?thesis
    unfolding arp_answer_def example_reply_def
    by (simp add: arp_reply_packet_fields arp_request_packet_fields)
qed

lemma example_lpm:
  "longest_prefix_match example_table 0x0a000107 = Some (new_rt_entry 0x0a000100 0xffffff00 0 example_if0)"
proof -
  have "count_mask_bits 0xffffff00 0 = 24"
    using card_netmask [of 24] by (simp add: count_mask_bits_card)
  moreover have "count_mask_bits 0 0 = 0" by (simp add: count_mask_bits.simps)
  ultimately show ?thesis
    by (simp add: example_table_def longest_prefix_match_def rt_match_def)
qed

theorem router_boot_forwards_witness:
  "\<exists>s f. router_main 0 0 example_netdev example_nl (Some example_ifaddrs) example_router example_os
       [Poll_Ready (single_event 2 1 example_transit), Poll_None, Poll_Ready (single_event 2 0 example_reply)] = Inr s \<and>
     txq s = txq example_router @ replicate 2 (example_if0, arp_request_packet example_if0 0x0a000107) @ [(example_if0, f)] \<and>
     ether_dhost f = [2, 0, 0, 0, 0, 2] \<and> ip_ttl f = 63"
proof -
  let ?e = "new_rt_entry 0x0a000100 0xffffff00 0 example_if0"
  have "ip_ttl example_transit = 64" by (simp add: example_transit_def example_packet_fields)
  moreover have "arp_answer (rt_iface ?e) (next_hop ?e (ntohl (ip_daddr example_transit))) [2, 0, 0, 0, 0, 2] example_reply"
    using example_reply_ok by (simp add: next_hop_def example_transit_ok)
  moreover have "\<forall>n. \<forall>hw. nd_hwaddr example_netdev n = Some hw \<longrightarrow> 6 \<le> length hw" by (auto simp: example_netdev_def)
  ultimately show ?thesis
    using router_boot_forwards [OF example_bootable _ example_ifaces [symmetric], of 0 0 "[2, 0, 0, 0, 0, 2]" 1 example_transit
        ?e 0 example_reply example_router]
    by (auto simp: example_table_eq example_lpm example_transit_ok next_hop_def frame_for_def numeral_2_eq_2)
qed

text \<open>
  Whatever frames arrive, the router that was started keeps its invariant, and so does the dynamic
  router: its packet loop never passes a null interface on.
\<close>

lemma ustack_run_inv:
  assumes "\<And>i p t t'. i \<in> set (iface_list st) \<Longrightarrow> I t \<Longrightarrow> handle i p t = Inr t' \<Longrightarrow> I t'"
  shows "I s \<Longrightarrow> ustack_run handle st polls s = Inr s' \<Longrightarrow> I s'"
proof (induction polls arbitrary: s)
  case (Cons q polls)
  show ?case
  proof (cases q)
    case (Poll_Ready evs)
    then obtain t where t: "ustack_round handle (iface_list st) (zip (map fst (fds st)) evs) s = Inr t" "ustack_run handle st polls t = Inr s'"
      using Cons.prems(2) by (auto simp: res_simps)
    have "I t" using ustack_round_inv [of "iface_list st" I handle, OF _ Cons.prems(1) t(1)] assms by blast
    then show ?thesis using Cons.IH t(2) by blast
  qed (use Cons in auto)
qed simp

lemma unchecked_run_safe:
  "wf_ustack st \<Longrightarrow> unchecked_run handle st polls s = ustack_run (\<lambda>i. handle (Some i)) st polls s"
proof (induction polls arbitrary: s)
  case (Cons q polls)
  have "unchecked_round handle (iface_list st) (zip (map fst (fds st)) evs) s =
      ustack_round (\<lambda>i. handle (Some i)) (iface_list st) (zip (map fst (fds st)) evs) s" for evs s
    by (rule unchecked_round_safe [OF Cons.prems])
  then show ?case using Cons by (cases q) (auto cong: res_bind_cong)
qed simp

lemma router_start_inv:
  assumes "router_start nd nl g r k = Inr (st, r', k')" "fresh_fds k"
  shows "wf_ustack st" "\<forall>i\<in>set (iface_list st). as_answered nd i" "iface_list st \<noteq> []" "entries_inv r'" "req_list r' = []"
proof -
  obtain k1 where i: "init_ustack nd g k = Inr (st, k1)"
    using assms(1) by (auto simp: router_start_def res_simps Let_def)
  show "wf_ustack st" "\<forall>i\<in>set (iface_list st). as_answered nd i" "iface_list st \<noteq> []"
    using init_ustack_inv [OF i assms(2)] by blast+
  show "entries_inv r'" "req_list r' = []"
    using assms(1) by (auto simp: router_start_def res_simps Let_def arpcache_init_def entries_inv_def empty_entry_def)
qed

lemma kernel_table_ifaces:
  "read_kernel_rtable nd nl ifs k = Inr (rt, n, k') \<Longrightarrow> n = length rt \<and> (\<forall>e\<in>set rt. rt_iface e \<in> set ifs)"
  by (auto simp: read_kernel_rtable_def parse_routing_info_def res_simps dest: nlmsg_loop_table)

lemma router_start_macs:
  assumes "router_start nd nl g r k = Inr (st, r', k')" "fresh_fds k" "\<forall>n. \<forall>hw. nd_hwaddr nd n = Some hw \<longrightarrow> 6 \<le> length hw"
  shows "\<forall>e\<in>set (rtable r'). rt_iface e \<in> set (iface_list st)" "\<forall>i\<in>set (iface_list st). length (if_mac i) = ETH_ALEN"
    "router_inv r'"
proof -
  show ifs: "\<forall>e\<in>set (rtable r'). rt_iface e \<in> set (iface_list st)"
    using assms(1) kernel_table_ifaces
    by (fastforce simp: router_start_def res_simps Let_def load_rtable_from_kernel_def load_rtable_append init_rtable_def)
  have "length (if_mac i) = ETH_ALEN" if "i \<in> set (iface_list st)" for i
  proof -
    have "as_answered nd i" using router_start_inv(2) [OF assms(1,2)] that by blast
    then obtain hw where hw: "nd_hwaddr nd (if_name i) = Some hw" "if_mac i = take 6 hw" by (auto simp: as_answered_def)
    then have "6 \<le> length hw" using assms(3) by blast
    then show ?thesis using hw(2) by simp
  qed
  then show "\<forall>i\<in>set (iface_list st). length (if_mac i) = ETH_ALEN" by blast
  then show "router_inv r'"
    using ifs router_start_inv(4,5) [OF assms(1,2)] by (simp add: router_inv_def macs_ok_def)
qed

theorem router_main_inv:
  assumes "router_main uid euid nd nl g r k polls = Inr s" "fresh_fds k"
    and "\<forall>n. \<forall>hw. nd_hwaddr nd n = Some hw \<longrightarrow> 6 \<le> length hw"
  shows "router_inv s"
proof -
  obtain st r' k' where start: "router_start nd nl g r k = Inr (st, r', k')" and run: "ustack_run handle_packet st polls r' = Inr s"
    using assms(1) by (auto simp: router_main_def res_simps split: if_splits)
  show ?thesis
    using ustack_run_inv [of st router_inv handle_packet, OF _ router_start_macs(3) [OF start assms(2,3)] run]
      router_inv_handle_packet by blast
qed

theorem mospf_main_inv:
  assumes "mospf_main uid euid nd nl g r k polls = Inr s" "fresh_fds k"
    and "\<forall>n. \<forall>hw. nd_hwaddr nd n = Some hw \<longrightarrow> 6 \<le> length hw"
  shows "mospf_inv s \<and> net_inv s"
proof -
  obtain st r' k' where start: "router_start nd nl g r k = Inr (st, r', k')"
    and run: "unchecked_run handle_packet7_ptr st polls (mospf_init (iface_list st) r' (rtable r')) = Inr s"
    using assms(1) by (auto simp: mospf_main_def res_simps split: if_splits)
  let ?s0 = "mospf_init (iface_list st) r' (rtable r')"
  have "(\<lambda>i. handle_packet7_ptr (Some i)) = handle_packet7" by (intro ext) (simp add: handle_packet7_ptr_def)
  then have run': "ustack_run handle_packet7 st polls ?s0 = Inr s"
    using run unchecked_run_safe [OF router_start_inv(1) [OF start assms(2)], of handle_packet7_ptr] by simp
  have "mospf_inv ?s0" by (simp add: mospf_inv_def mospf_init_def nbrs_ok_def)
  moreover have "net_inv ?s0" using router_start_macs [OF start assms(2,3)] by (intro net_inv_init)
  ultimately show ?thesis
    using ustack_run_inv [of st "\<lambda>t. mospf_inv t \<and> net_inv t" handle_packet7, OF _ _ run'] mospf_inv_receive net_inv_receive by blast
qed

section \<open>The hub and the switch\<close>

definition l2_bootable :: "netdev \<Rightarrow> ifaddrs \<Rightarrow> string list \<Rightarrow> os \<Rightarrow> bool" where
  "l2_bootable nd addrs ns k \<longleftrightarrow>
     ns = map fst (filter wanted addrs) \<and> ns \<noteq> [] \<and> (\<forall>n\<in>set ns. length n < IFNAMSIZ) \<and> names_size ns < 1024 \<and>
     sockets_work k \<and> fresh_fds k \<and> (\<forall>n\<in>set ns. device_ok nd n \<and> nd_bind nd (the (nd_index nd n)))"

lemma l2_start_ok:
  assumes "l2_bootable nd addrs ns k"
  obtains st k' where "l2_init_ustack nd (Some addrs) k = Inr (st, k')" "wf_ustack st" "nifs st = length ns"
    "map if_name (iface_list st) = ns"
proof -
  let ?ifs = "fst (open_all (l2_opened nd) ns k)"
  let ?st = "\<lparr>iface_list = ?ifs, nifs = length ns, fds = map poll_entry ?ifs\<rparr>"
  have "l2_init_ustack nd (Some addrs) k = Inr (?st, snd (open_all (l2_opened nd) ns k))"
    unfolding l2_init_ustack_def using assms by (intro init_all_ifaces_ok l2_read_ok) (auto simp: l2_bootable_def)
  moreover have fd: "if_fd (?ifs ! j) = sock_results k (sock_calls k + 2 * j)" if "j < length ns" for j
  proof -
    have "\<forall>n\<in>set ns. nd_bind nd (the (nd_index nd n))" using assms unfolding l2_bootable_def by blast
    then show ?thesis using that by (simp add: open_all_simps l2_opened_def)
  qed
  have m: "map if_fd ?ifs = map (\<lambda>j. sock_results k (sock_calls k + 2 * j)) [0..<length ns]"
    by (rule nth_equalityI) (simp_all add: open_all_simps(1) fd)
  have nonneg: "\<forall>i\<in>set ?ifs. 0 \<le> if_fd i"
    using assms fd by (auto simp: l2_bootable_def sockets_work_def in_set_conv_nth open_all_simps(1))
  have "distinct (map if_fd ?ifs)" using fresh_fds_distinct [OF _ m nonneg] assms by (simp add: l2_bootable_def)
  then have "wf_ustack ?st" using nonneg by (simp add: wf_ustack_def open_all_simps(1))
  moreover have "map if_name ?ifs = ns"
    by (rule nth_equalityI) (simp_all add: open_all_simps l2_opened_def new_iface_def)
  ultimately show ?thesis using that by simp
qed

lemma filter_others:
  assumes "distinct xs" "a < length xs"
  shows "filter (\<lambda>x. x \<noteq> xs ! a) xs = take a xs @ drop (Suc a) xs"
proof -
  have xs: "xs = take a xs @ xs ! a # drop (Suc a) xs" using assms(2) by (rule id_take_nth_drop)
  then have "xs ! a \<notin> set (take a xs)" "xs ! a \<notin> set (drop (Suc a) xs)"
    using assms(1) by (metis distinct.simps(2) distinct_append disjoint_iff list.set_intros(1))+
  then have "filter (\<lambda>x. x \<noteq> xs ! a) (take a xs) = take a xs" "filter (\<lambda>x. x \<noteq> xs ! a) (drop (Suc a) xs) = drop (Suc a) xs"
    by (auto simp: filter_id_conv)
  then show ?thesis by (subst xs) (simp del: take_all_iff drop_eq_Nil)
qed

lemma broadcast_others:
  assumes "wf_ustack st" "a < nifs st" "map if_name (iface_list st) = ns"
  shows "map (if_name \<circ> fst) (broadcast_packet (iface_list st) (iface_list st ! a) p) = take a ns @ drop (Suc a) ns"
    "\<forall>f\<in>set (broadcast_packet (iface_list st) (iface_list st ! a) p). snd f = p"
proof -
  have "distinct (iface_list st)" "a < length (iface_list st)"
    using assms(1,2) by (simp_all add: wf_ustack_def distinct_map)
  then have "broadcast_packet (iface_list st) (iface_list st ! a) p = map (\<lambda>j. (j, p)) (take a (iface_list st) @ drop (Suc a) (iface_list st))"
    by (simp add: broadcast_packet_def filter_others)
  then show "map (if_name \<circ> fst) (broadcast_packet (iface_list st) (iface_list st ! a) p) = take a ns @ drop (Suc a) ns"
    "\<forall>f\<in>set (broadcast_packet (iface_list st) (iface_list st ! a) p). snd f = p"
    using assms(3) by (auto simp: comp_def take_map drop_map)
qed

text \<open>
  The hub, from its start: a frame that arrives on one port is sent unchanged out of every
  other port, in the order of the ports.
\<close>

theorem hub_boot_floods:
  assumes "l2_bootable nd addrs ns k" "uid = 0 \<or> euid = 0" "a < length ns"
  shows "\<exists>sent. hub_main uid euid nd (Some addrs) k [Poll_Ready (single_event (length ns) a p)] = Inr sent \<and>
    map (if_name \<circ> fst) sent = take a ns @ drop (Suc a) ns \<and> (\<forall>f\<in>set sent. snd f = p)"
proof -
  obtain st k' where st: "l2_init_ustack nd (Some addrs) k = Inr (st, k')" "wf_ustack st" "nifs st = length ns"
    "map if_name (iface_list st) = ns"
    using l2_start_ok [OF assms(1)] by metis
  have a: "a < nifs st" using assms(3) st(3) by simp
  have "hub_main uid euid nd (Some addrs) k [Poll_Ready (single_event (length ns) a p)] =
      Inr (broadcast_packet (iface_list st) (iface_list st ! a) p)"
    using assms(2) by (auto simp: hub_main_def st(1) st(3) [symmetric] hub_handle_packet_def ustack_round_single [OF st(2) a])
  then show ?thesis using broadcast_others [OF st(2) a st(4)] by simp
qed

text \<open>
  The switch, from its start. The first frame, for an address that has not been learnt,
  leaves on every port but the one it came from; a frame back to its sender then leaves on that port
  only.
\<close>

theorem switch_boot_learns:
  assumes "l2_bootable nd addrs ns k" "uid = 0 \<or> euid = 0" "a < length ns" "b < length ns" "a \<noteq> b"
    and "12 \<le> length p" "12 \<le> length q" "ether_dhost q = ether_shost p" "ether_shost q \<noteq> ether_shost p"
    and "ether_dhost p \<noteq> ether_shost p" "\<not> is_broadcast_mac (ether_shost p)"
  shows "\<exists>s sends i. switch_main uid euid nd (Some addrs) now k
      [Poll_Ready (single_event (length ns) a p), Poll_Ready (single_event (length ns) b q)] = Inr s \<and>
    out s = sends @ [(i, q)] \<and> if_name i = ns ! a \<and>
    map (if_name \<circ> fst) sends = take a ns @ drop (Suc a) ns \<and> (\<forall>f\<in>set sends. snd f = p)"
proof -
  obtain st k' where st: "l2_init_ustack nd (Some addrs) k = Inr (st, k')" "wf_ustack st" "nifs st = length ns"
    "map if_name (iface_list st) = ns"
    using l2_start_ok [OF assms(1)] by metis
  let ?ifs = "iface_list st" and ?s0 = "\<lparr>ports = iface_list st, macs = init_mac_port_table, out = []\<rparr>"
  have a: "a < nifs st" and b: "b < nifs st" and n: "length ?ifs = nifs st" using assms(3,4) st(2,3) by (simp_all add: wf_ustack_def)
  have ab: "?ifs ! a \<noteq> ?ifs ! b"
    using st(2) assms(5) a b n by (metis distinct_conv_nth length_map nth_map wf_ustack_def)
  let ?t = "insert_mac_port now init_mac_port_table (ether_shost p) (?ifs ! a)"
  have t: "lookup_port ?t = [ether_shost p \<mapsto> ?ifs ! a]" "mt_inv ?t"
    using init_inv mt.lookup_learn mt.inv_learn by auto
  define s1 where "s1 = \<lparr>ports = ?ifs, macs = ?t, out = broadcast_packet ?ifs (?ifs ! a) p\<rparr>"
  have h1: "switch_handle_packet now (?ifs ! a) p ?s0 = Inr s1"
    using assms(6,10) t(1) by (simp add: switch_handle_packet_def Let_def s1_def)
  have "\<exists>s2. switch_handle_packet now (?ifs ! b) q s1 = Inr s2 \<and> out s2 = out s1 @ [(?ifs ! a, q)]"
    using assms(7-9,11) t ab mt.learn_other [OF t(2)] by (simp add: switch_handle_packet_def Let_def s1_def)
  then obtain s2 where h2: "switch_handle_packet now (?ifs ! b) q s1 = Inr s2" "out s2 = out s1 @ [(?ifs ! a, q)]" by blast
  have "switch_main uid euid nd (Some addrs) now k
      [Poll_Ready (single_event (length ns) a p), Poll_Ready (single_event (length ns) b q)] = Inr s2"
    using assms(2) h1 h2(1)
    by (auto simp: switch_main_def st(1) st(3) [symmetric] ustack_round_single [OF st(2) a] ustack_round_single [OF st(2) b])
  moreover have "if_name (?ifs ! a) = ns ! a" using st(4) a n by (metis nth_map)
  ultimately show ?thesis using h2(2) broadcast_others [OF st(2) a st(4), of p] by (auto simp: s1_def)
qed

end
