(* ===== verification/Tcp_Base.thy ===== *)
theory Tcp_Base
  imports Ip_Router Complex_Main "HOL-Library.Log_Nat"
begin

text \<open>
  The vocabulary of the TCP stack of \<^verbatim>\<open>code-exp2\<close>: \<^verbatim>\<open>include/tcp.h\<close> (sequence number comparisons,
  header, states, checksum), \<^verbatim>\<open>tcp_cb_init\<close> of \<^verbatim>\<open>tcp.c\<close>, \<^verbatim>\<open>tcp_init_hdr\<close> of \<^verbatim>\<open>tcp_out.c\<close>, and the
  single precision arithmetic in which the congestion window is kept. A packet is a buffer with
  the IP header at offset 14; the TCP header starts at the offset \<open>tcp_off\<close> after it.
\<close>

section \<open>Sequence numbers\<close>

text \<open>
  The macros subtract two \<^verbatim>\<open>int32_t\<close> values. The model takes the exact difference, which is the
  value of the C expression whenever that is defined; a difference outside the range of \<^verbatim>\<open>int32_t\<close>
  is a signed overflow, which compilers may resolve by comparing the operands.
\<close>

definition seq_diff :: "u32 \<Rightarrow> u32 \<Rightarrow> int" where
  "seq_diff a b = sint a - sint b"

definition less_or_equal_32b :: "u32 \<Rightarrow> u32 \<Rightarrow> bool" where
  "less_or_equal_32b a b = (seq_diff a b \<le> 0)"

definition less_than_32b :: "u32 \<Rightarrow> u32 \<Rightarrow> bool" where
  "less_than_32b a b = (seq_diff a b < 0)"

definition greater_or_equal_32b :: "u32 \<Rightarrow> u32 \<Rightarrow> bool" where
  "greater_or_equal_32b a b = (seq_diff a b \<ge> 0)"

definition greater_than_32b :: "u32 \<Rightarrow> u32 \<Rightarrow> bool" where
  "greater_than_32b a b = (seq_diff a b > 0)"

definition equal_32b :: "u32 \<Rightarrow> u32 \<Rightarrow> bool" where
  "equal_32b a b = (seq_diff a b = 0)"

lemmas seq_cmp_defs = less_or_equal_32b_def less_than_32b_def greater_or_equal_32b_def
  greater_than_32b_def equal_32b_def seq_diff_def

section \<open>Header\<close>

definition TCP_FIN :: u8 where "TCP_FIN = 0x01"
definition TCP_SYN :: u8 where "TCP_SYN = 0x02"
definition TCP_RST :: u8 where "TCP_RST = 0x04"
definition TCP_PSH :: u8 where "TCP_PSH = 0x08"
definition TCP_ACK :: u8 where "TCP_ACK = 0x10"
definition TCP_URG :: u8 where "TCP_URG = 0x20"
definition TCP_HDR_OFFSET :: u8 where "TCP_HDR_OFFSET = 5"
definition TCP_BASE_HDR_SIZE :: nat where "TCP_BASE_HDR_SIZE = 20"
definition TCP_DEFAULT_WINDOW :: u16 where "TCP_DEFAULT_WINDOW = 65535"
definition IPPROTO_TCP :: u8 where "IPPROTO_TCP = 6"
definition ETH_FRAME_LEN :: nat where "ETH_FRAME_LEN = 1514"

definition TCP_MSS :: nat where
  "TCP_MSS = ETH_FRAME_LEN - ETHER_HDR_SIZE - IP_BASE_HDR_SIZE - TCP_BASE_HDR_SIZE"

lemmas tcp_consts [simp] = TCP_FIN_def TCP_SYN_def TCP_RST_def TCP_PSH_def TCP_ACK_def TCP_URG_def
  TCP_HDR_OFFSET_def TCP_BASE_HDR_SIZE_def TCP_DEFAULT_WINDOW_def IPPROTO_TCP_def ETH_FRAME_LEN_def

lemma TCP_MSS_1460 [simp]: "TCP_MSS = 1460"
  by (simp add: TCP_MSS_def)

definition tcp_off :: "bytes \<Rightarrow> nat" where "tcp_off p = ETHER_HDR_SIZE + IP_HDR_SIZE p"
definition th_sport :: "nat \<Rightarrow> bytes \<Rightarrow> u16" where "th_sport t p = ld16 t p"
definition th_dport :: "nat \<Rightarrow> bytes \<Rightarrow> u16" where "th_dport t p = ld16 (t + 2) p"
definition th_seq :: "nat \<Rightarrow> bytes \<Rightarrow> u32" where "th_seq t p = ld32 (t + 4) p"
definition th_ack :: "nat \<Rightarrow> bytes \<Rightarrow> u32" where "th_ack t p = ld32 (t + 8) p"
definition th_off :: "nat \<Rightarrow> bytes \<Rightarrow> nat" where "th_off t p = unat (p ! (t + 12)) div 16"
definition th_flags :: "nat \<Rightarrow> bytes \<Rightarrow> u8" where "th_flags t p = p ! (t + 13)"
definition th_rwnd :: "nat \<Rightarrow> bytes \<Rightarrow> u16" where "th_rwnd t p = ld16 (t + 14) p"
definition th_checksum :: "nat \<Rightarrow> bytes \<Rightarrow> u16" where "th_checksum t p = ld16 (t + 16) p"

definition TCP_HDR_SIZE :: "nat \<Rightarrow> bytes \<Rightarrow> nat" where
  "TCP_HDR_SIZE t p = th_off t p * 4"

definition tcp_init_hdr :: "nat \<Rightarrow> u16 \<Rightarrow> u16 \<Rightarrow> u32 \<Rightarrow> u32 \<Rightarrow> u8 \<Rightarrow> u16 \<Rightarrow> bytes \<Rightarrow> bytes" where
  "tcp_init_hdr t sport dport seq ack flags rwnd p =
     (let p = put t (replicate TCP_BASE_HDR_SIZE 0) p;
          p = put t (bytes16 (htons sport)) p;
          p = put (t + 2) (bytes16 (htons dport)) p;
          p = put (t + 4) (bytes32 (htonl seq)) p;
          p = put (t + 8) (bytes32 (htonl ack)) p;
          p = put (t + 12) [push_bit 4 TCP_HDR_OFFSET] p;
          p = put (t + 13) [flags] p
      in put (t + 14) (bytes16 (htons rwnd)) p)"

text \<open>
  \<^verbatim>\<open>tcp_checksum\<close> reads \<^verbatim>\<open>tcp_len\<close> bytes from the TCP header on, whatever the length of the buffer:
  \<open>tcp_checksum_reads\<close> is the end of that range.
\<close>

definition tcp_len :: "bytes \<Rightarrow> u16" where
  "tcp_len p = of_int (int (unat (ntohs (ip_tot_len p))) - int (IP_HDR_SIZE p))"

definition tcp_checksum :: "nat \<Rightarrow> bytes \<Rightarrow> u16" where
  "tcp_checksum t p =
     (let sum = ip_saddr p + ip_daddr p + ucast (htons (ucast (ip_protocol p))) + ucast (htons (tcp_len p))
      in checksum (sub t (unat (tcp_len p)) (put (t + 16) [0, 0] p)) sum)"

definition tcp_checksum_reads :: "nat \<Rightarrow> bytes \<Rightarrow> nat" where
  "tcp_checksum_reads t p = t + max 18 (unat (tcp_len p))"

section \<open>States and control blocks\<close>

datatype tcp_state =
    TCP_CLOSED | TCP_LISTEN | TCP_SYN_RECV | TCP_SYN_SENT | TCP_ESTABLISHED | TCP_CLOSE_WAIT
  | TCP_LAST_ACK | TCP_FIN_WAIT_1 | TCP_FIN_WAIT_2 | TCP_CLOSING | TCP_TIME_WAIT

datatype tcp_cc_state = TCP_SLOW_START | TCP_CONGESTION_AVOIDANCE | TCP_FAST_RECOVER | TCP_LOSS

text \<open>The pointers into the packet are replaced by the payload; \<^verbatim>\<open>pl_len\<close> is an \<^verbatim>\<open>int\<close> and can be negative.\<close>

record tcp_cb =
  cb_saddr :: u32
  cb_daddr :: u32
  cb_sport :: u16
  cb_dport :: u16
  cb_seq :: u32
  cb_seq_end :: u32
  cb_ack :: u32
  cb_rwnd :: u32
  cb_flags :: u8
  payload :: bytes
  pl_len :: int

abbreviation has :: "u8 \<Rightarrow> u8 \<Rightarrow> bool" where
  "has fl f \<equiv> fl AND f \<noteq> 0"

definition tcp_cb_init :: "nat \<Rightarrow> bytes \<Rightarrow> tcp_cb" where
  "tcp_cb_init t p =
     (let len = int (unat (ntohs (ip_tot_len p))) - int (IP_HDR_SIZE p) - int (TCP_HDR_SIZE t p);
          seq = ntohl (th_seq t p);
          flags = th_flags t p
      in \<lparr>cb_saddr = ntohl (ip_saddr p), cb_daddr = ntohl (ip_daddr p),
          cb_sport = ntohs (th_sport t p), cb_dport = ntohs (th_dport t p),
          cb_seq = seq,
          cb_seq_end = seq + of_int len + (if has flags (TCP_SYN OR TCP_FIN) then 1 else 0),
          cb_ack = ntohl (th_ack t p), cb_rwnd = ucast (ntohs (th_rwnd t p)), cb_flags = flags,
          payload = sub (t + TCP_HDR_SIZE t p) (nat len) p, pl_len = len\<rparr>)"

section \<open>Single precision numbers\<close>

text \<open>
  A \<^verbatim>\<open>float\<close> is a rational number; \<open>fl32\<close> rounds to the nearest number with 24 significant bits,
  ties to even, as IEEE 754 does for every operation. Exponents are not bounded: the values
  of the congestion window are neither subnormal nor infinite. \<open>fl_u32\<close> is the conversion to
  \<^verbatim>\<open>u32\<close>.
\<close>

definition round_even :: "rat \<Rightarrow> int" where
  "round_even x =
     (let n = \<lfloor>x\<rfloor>; d = x - of_int n
      in if d < 1 / 2 \<or> (d = 1 / 2 \<and> even n) then n else n + 1)"

definition ilog2 :: "rat \<Rightarrow> int" where
  "ilog2 x = (if 1 \<le> x then int (floorlog 2 (nat \<lfloor>x\<rfloor>)) - 1
              else - int (floorlog 2 (nat (\<lceil>1 / x\<rceil> - 1))))"

definition pow2 :: "int \<Rightarrow> rat" where
  "pow2 e = (if 0 \<le> e then 2 ^ nat e else 1 / 2 ^ nat (- e))"

definition fl32 :: "rat \<Rightarrow> rat" where
  "fl32 x = (if x \<le> 0 then 0 else let u = pow2 (ilog2 x - 23) in of_int (round_even (x / u)) * u)"

definition fl_u32 :: "rat \<Rightarrow> u32" where
  "fl_u32 x = of_int \<lfloor>x\<rfloor>"

definition u32_fl :: "u32 \<Rightarrow> rat" where
  "u32_fl w = fl32 (of_nat (unat w))"

end
