(* ===== verification/Tcp_Sock.thy ===== *)
theory Tcp_Sock
  imports Tcp_Base List_Head Ring_Buffer Synch_Wait
begin

text \<open>
  Sockets, their tables and their timers: \<^verbatim>\<open>include/tcp_sock.h\<close>, \<^verbatim>\<open>include/tcp_timer.h\<close>,
  \<^verbatim>\<open>include/tcp_hash.h\<close>, the table functions of \<^verbatim>\<open>tcp_sock.c\<close> and the functions of \<^verbatim>\<open>tcp_timer.c\<close> that
  set and unset timers. A socket is an address; \<open>socks\<close> gives the allocated ones, and using
  a freed one is a fault. The list nodes embedded in the sockets, the heads of the three hash
  tables and of the timer list live in one pointer heap \<open>lh\<close> of \<open>List_Head\<close>, because the code
  links some of them more than once; freeing a socket clears its nodes. The send buffer and the
  out-of-order buffer only grow at a place found by a scan and shrink at the front, so they are
  HOL lists. \<open>sent\<close> records the packets given to \<^verbatim>\<open>libnet.a\<close>, in order.

  Every operation is one step: what other threads do to the same socket in the middle of one is not
  modelled, also where the code does not hold a lock all the time. Of the locks only
  \<^verbatim>\<open>rcv_buf_lock\<close> is part of the state, since \<^verbatim>\<open>tcp_sock_read\<close> can return with it; the others appear
  neither taken nor released (see \<open>Tcp_Out\<close> and \<open>Tcp_In\<close> for two that are released without being held).
\<close>

section \<open>Data\<close>

record tcp_timer =
  timeout :: int
  enable :: bool
  retrans_cnt :: nat

record send_buffer_entry =
  se_seq :: u32
  se_packet :: bytes

record recv_ofo_buf_entry =
  oe_seq :: u32
  oe_seq_end :: u32
  oe_packet :: bytes

record tcp_sock =
  sk_sip :: u32
  sk_sport :: u16
  sk_dip :: u32
  sk_dport :: u16
  parent :: "nat option"
  ref_cnt :: int
  accept_backlog :: int
  backlog :: int
  timewait :: tcp_timer
  retrans_timer :: tcp_timer
  persist_timer :: tcp_timer
  wait_connect :: synch_wait
  wait_accept :: synch_wait
  wait_recv :: synch_wait
  wait_send :: synch_wait
  rcv_buf :: ring_buffer
  send_buf :: "send_buffer_entry list"
  rcv_ofo_buf :: "recv_ofo_buf_entry list"
  state :: tcp_state
  cc_state :: tcp_cc_state
  iss :: u32
  snd_una :: u32
  snd_nxt :: u32
  rcv_nxt :: u32
  recovery_point :: u32
  snd_wnd :: u32
  adv_wnd :: u16
  rcv_wnd :: u16
  cwnd :: rat
  dup_ack_count :: u32
  ssthresh :: u32
  rcv_buf_lock :: bool

text \<open>
  The list nodes: the buckets of the three tables, the head of the timer list, and the
  members of a socket. The member a timer node belongs to is what the code reads from the
  field \<^verbatim>\<open>type\<close>, which always has the value of its member.
\<close>

datatype node =
    Est nat | Lis nat | Bnd nat | Timer_List
  | Hash_List nat | Bind_Hash_List nat | Sk_List nat | Listen_Queue nat | Accept_Queue nat
  | Timewait nat | Retrans_Timer nat | Persist_Timer nat

fun node_sock :: "node \<Rightarrow> nat option" where
  "node_sock (Hash_List a) = Some a"
| "node_sock (Bind_Hash_List a) = Some a"
| "node_sock (Sk_List a) = Some a"
| "node_sock (Listen_Queue a) = Some a"
| "node_sock (Accept_Queue a) = Some a"
| "node_sock (Timewait a) = Some a"
| "node_sock (Retrans_Timer a) = Some a"
| "node_sock (Persist_Timer a) = Some a"
| "node_sock (Est h) = None"
| "node_sock (Lis h) = None"
| "node_sock (Bnd h) = None"
| "node_sock Timer_List = None"

datatype packet_out = Ip_Send bytes | Icmp_Send bytes

record tcp_stack =
  lh :: "node lheap"
  socks :: "nat \<Rightarrow> tcp_sock option"
  nsock :: nat
  sent :: "packet_out list"

text \<open>
  What the stack uses and the repository has no source of: \<^verbatim>\<open>ip_init_hdr\<close> and
  \<^verbatim>\<open>longest_prefix_match\<close> of \<^verbatim>\<open>libnet.a\<close> (of the route only the address of the interface is used),
  the contents of fresh memory and the random numbers. The first argument is the number of
  packets sent or of sockets allocated so far, so that two calls may have different results.
\<close>

record tcp_env =
  l_ip_init_hdr :: "nat \<Rightarrow> bytes \<Rightarrow> u32 \<Rightarrow> u32 \<Rightarrow> u16 \<Rightarrow> u8 \<Rightarrow> bytes"
  l_route :: "u32 \<Rightarrow> u32 option"
  l_malloc :: "nat \<Rightarrow> nat \<Rightarrow> bytes"
  l_rand :: "nat \<Rightarrow> u32"

section \<open>Access and composition\<close>

fun steps :: "('s \<Rightarrow> 's res) list \<Rightarrow> 's \<Rightarrow> 's res" where
  "steps [] s = Inr s"
| "steps (f # fs) s = res_bind (f s) (steps fs)"

definition with_sk :: "nat \<Rightarrow> (tcp_sock \<Rightarrow> tcp_stack \<Rightarrow> 'a res) \<Rightarrow> tcp_stack \<Rightarrow> 'a res" where
  "with_sk a f s = (case socks s a of None \<Rightarrow> Inl Use_After_Free | Some k \<Rightarrow> f k s)"

definition put_sk :: "nat \<Rightarrow> tcp_sock \<Rightarrow> tcp_stack \<Rightarrow> tcp_stack" where
  "put_sk a k s = s\<lparr>socks := (socks s)(a \<mapsto> k)\<rparr>"

definition upd_sk :: "nat \<Rightarrow> (tcp_sock \<Rightarrow> tcp_sock) \<Rightarrow> tcp_stack \<Rightarrow> tcp_stack res" where
  "upd_sk a f = with_sk a (\<lambda>k s. Inr (put_sk a (f k) s))"

definition upd_lh :: "(node lheap \<Rightarrow> node lheap res) \<Rightarrow> tcp_stack \<Rightarrow> tcp_stack res" where
  "upd_lh f s = res_map (\<lambda>h. s\<lparr>lh := h\<rparr>) (f (lh s))"

text \<open>A \<^verbatim>\<open>list_for_each_entry\<close> loop over sockets that returns the first that satisfies \<open>test\<close>.\<close>

definition sk_test :: "tcp_stack \<Rightarrow> (tcp_sock \<Rightarrow> bool) \<Rightarrow> node \<Rightarrow> bool" where
  "sk_test s test n =
     (case node_sock n of None \<Rightarrow> False
      | Some a \<Rightarrow> (case socks s a of None \<Rightarrow> False | Some k \<Rightarrow> test k))"

definition find_sk :: "tcp_stack \<Rightarrow> (tcp_sock \<Rightarrow> bool) \<Rightarrow> node \<Rightarrow> nat option res" where
  "find_sk s test l =
     (case list_for_each_find (lh s) (sk_test s test) l of
        None \<Rightarrow> Inl Diverges
      | Some r \<Rightarrow> res_map (\<lambda>n. Option.bind n node_sock) r)"

definition wake :: "synch_wait \<Rightarrow> synch_wait" where
  "wake w = fst (snd (wake_up w))"

section \<open>Allocation\<close>

definition zero_timer :: tcp_timer where
  "zero_timer = \<lparr>timeout = 0, enable = False, retrans_cnt = 0\<rparr>"

definition new_sock :: tcp_sock where
  "new_sock = \<lparr>sk_sip = 0, sk_sport = 0, sk_dip = 0, sk_dport = 0, parent = None, ref_cnt = 0,
     accept_backlog = 0, backlog = 0, timewait = zero_timer, retrans_timer = zero_timer,
     persist_timer = zero_timer, wait_connect = wait_init, wait_accept = wait_init,
     wait_recv = wait_init, wait_send = wait_init,
     rcv_buf = alloc_ring_buffer (int (unat TCP_DEFAULT_WINDOW)), send_buf = [], rcv_ofo_buf = [],
     state = TCP_CLOSED, cc_state = TCP_SLOW_START, iss = 0, snd_una = 0, snd_nxt = 0, rcv_nxt = 0,
     recovery_point = 0, snd_wnd = 0, adv_wnd = 0, rcv_wnd = TCP_DEFAULT_WINDOW, cwnd = 0,
     dup_ack_count = 0, ssthresh = 0, rcv_buf_lock = False\<rparr>"

text \<open>Memory of a socket that is zero or freed: all its nodes have null pointers.\<close>

definition clear_nodes :: "nat \<Rightarrow> node lheap \<Rightarrow> node lheap" where
  "clear_nodes a h = h\<lparr>nxt := (\<lambda>n. if node_sock n = Some a then None else nxt h n),
                      prv := (\<lambda>n. if node_sock n = Some a then None else prv h n)\<rparr>"

definition alloc_tcp_sock :: "tcp_stack \<Rightarrow> nat \<times> tcp_stack" where
  "alloc_tcp_sock s =
     (let a = nsock s;
          h = clear_nodes a (lh s);
          h = init_list_head h (Sk_List a);
          h = init_list_head h (Listen_Queue a);
          h = init_list_head h (Accept_Queue a)
      in (a, s\<lparr>lh := h, socks := (socks s)(a \<mapsto> new_sock), nsock := a + 1\<rparr>))"

definition release :: "nat \<Rightarrow> tcp_stack \<Rightarrow> tcp_stack" where
  "release a s = s\<lparr>lh := clear_nodes a (lh s), socks := (socks s)(a := None)\<rparr>"

definition free_tcp_sock :: "nat \<Rightarrow> tcp_stack \<Rightarrow> tcp_stack res" where
  "free_tcp_sock a = with_sk a (\<lambda>k s.
     let r = (if ref_cnt k > 0 then ref_cnt k - 1 else ref_cnt k)
     in if r = 0 then Inr (release a s) else Inr (put_sk a (k\<lparr>ref_cnt := r\<rparr>) s))"

section \<open>Hash tables\<close>

definition TCP_HASH_SIZE :: nat where "TCP_HASH_SIZE = 256"

definition tcp_hash_function :: "u32 \<Rightarrow> u32 \<Rightarrow> u16 \<Rightarrow> u16 \<Rightarrow> nat" where
  "tcp_hash_function saddr daddr sport dport =
     unat (hash8 (bytes32 saddr) XOR hash8 (bytes32 daddr) XOR hash8 (bytes16 sport) XOR
           hash8 (bytes16 dport)) mod TCP_HASH_SIZE"

definition init_tcp_stack :: tcp_stack where
  "init_tcp_stack =
     (let heads = Timer_List # map Est [0..<TCP_HASH_SIZE] @ map Lis [0..<TCP_HASH_SIZE] @
            map Bnd [0..<TCP_HASH_SIZE]
      in \<lparr>lh = fold (\<lambda>n h. init_list_head h n) heads \<lparr>nxt = \<lambda>_. None, prv = \<lambda>_. None\<rparr>,
          socks = \<lambda>_. None, nsock = 0, sent = []\<rparr>)"

definition tcp_set_state :: "nat \<Rightarrow> tcp_state \<Rightarrow> tcp_stack \<Rightarrow> tcp_stack res" where
  "tcp_set_state a st = upd_sk a (\<lambda>k. k\<lparr>state := st\<rparr>)"

definition same_conn :: "u32 \<Rightarrow> u32 \<Rightarrow> u16 \<Rightarrow> u16 \<Rightarrow> tcp_sock \<Rightarrow> bool" where
  "same_conn saddr daddr sport dport k \<longleftrightarrow>
     sk_sip k = saddr \<and> sk_dip k = daddr \<and> sk_sport k = sport \<and> sk_dport k = dport"

definition tcp_sock_lookup_established ::
    "u32 \<Rightarrow> u32 \<Rightarrow> u16 \<Rightarrow> u16 \<Rightarrow> tcp_stack \<Rightarrow> nat option res" where
  "tcp_sock_lookup_established saddr daddr sport dport s =
     find_sk s (same_conn saddr daddr sport dport) (Est (tcp_hash_function saddr daddr sport dport))"

definition tcp_sock_lookup_listen :: "u32 \<Rightarrow> u16 \<Rightarrow> tcp_stack \<Rightarrow> nat option res" where
  "tcp_sock_lookup_listen saddr sport s =
     find_sk s (\<lambda>k. sk_sport k = sport) (Lis (tcp_hash_function 0 0 sport 0))"

definition tcp_sock_lookup :: "tcp_cb \<Rightarrow> tcp_stack \<Rightarrow> nat option res" where
  "tcp_sock_lookup cb s =
     (let saddr = cb_daddr cb; daddr = cb_saddr cb; sport = cb_dport cb; dport = cb_sport cb
      in res_bind (tcp_sock_lookup_established saddr daddr sport dport s) (\<lambda>tsk.
           if tsk = None then tcp_sock_lookup_listen saddr sport s else Inr tsk))"

definition tcp_bind_hash :: "nat \<Rightarrow> tcp_stack \<Rightarrow> tcp_stack res" where
  "tcp_bind_hash a = with_sk a (\<lambda>k. steps [
     upd_lh (\<lambda>h. list_add_head h (Bind_Hash_List a) (Bnd (tcp_hash_function 0 0 (sk_sport k) 0))),
     upd_sk a (\<lambda>k. k\<lparr>ref_cnt := ref_cnt k + 1\<rparr>)])"

definition tcp_bind_unhash :: "nat \<Rightarrow> tcp_stack \<Rightarrow> tcp_stack res" where
  "tcp_bind_unhash a = with_sk a (\<lambda>k s.
     if \<not> list_empty (lh s) (Bind_Hash_List a)
     then steps [upd_lh (\<lambda>h. list_delete_entry h (Bind_Hash_List a)), free_tcp_sock a] s
     else Inr s)"

definition tcp_port_in_use :: "u16 \<Rightarrow> tcp_stack \<Rightarrow> bool res" where
  "tcp_port_in_use sport s =
     res_map (\<lambda>r. r \<noteq> None) (find_sk s (\<lambda>k. sk_sport k = sport) (Bnd (tcp_hash_function 0 0 sport 0)))"

definition PORT_MIN :: nat where "PORT_MIN = 12345"
definition PORT_MAX :: nat where "PORT_MAX = 23456"

fun get_port_loop :: "nat list \<Rightarrow> tcp_stack \<Rightarrow> u16 res" where
  "get_port_loop [] s = Inr 0"
| "get_port_loop (port # ports) s =
     res_bind (tcp_port_in_use (of_nat port) s) (\<lambda>used.
       if \<not> used then Inr (of_nat port) else get_port_loop ports s)"

definition tcp_get_port :: "tcp_stack \<Rightarrow> u16 res" where
  "tcp_get_port s = get_port_loop [PORT_MIN..<PORT_MAX] s"

definition tcp_sock_set_sport :: "nat \<Rightarrow> u16 \<Rightarrow> tcp_stack \<Rightarrow> (int \<times> tcp_stack) res" where
  "tcp_sock_set_sport a port s =
     res_bind (if port \<noteq> 0 then res_map (\<lambda>used. if used then 0 else port) (tcp_port_in_use port s)
               else tcp_get_port s) (\<lambda>port.
       if port = 0 then Inr (-1, s)
       else res_map (Pair 0) (steps [upd_sk a (\<lambda>k. k\<lparr>sk_sport := port\<rparr>), tcp_bind_hash a] s))"

definition tcp_hash :: "nat \<Rightarrow> tcp_stack \<Rightarrow> (int \<times> tcp_stack) res" where
  "tcp_hash a = with_sk a (\<lambda>k s.
     let insert = (\<lambda>l. res_map (Pair 0) (steps [upd_lh (\<lambda>h. list_add_head h (Hash_List a) l),
            upd_sk a (\<lambda>k. k\<lparr>ref_cnt := ref_cnt k + 1\<rparr>)] s))
     in if state k = TCP_CLOSED then Inr (-1, s)
        else if state k = TCP_LISTEN then insert (Lis (tcp_hash_function 0 0 (sk_sport k) 0))
        else let l = Est (tcp_hash_function (sk_sip k) (sk_dip k) (sk_sport k) (sk_dport k))
          in res_bind (find_sk s (same_conn (sk_sip k) (sk_dip k) (sk_sport k) (sk_dport k)) l) (\<lambda>tmp.
               if tmp \<noteq> None then Inr (-1, s) else insert l))"

definition tcp_unhash :: "nat \<Rightarrow> tcp_stack \<Rightarrow> tcp_stack res" where
  "tcp_unhash a = with_sk a (\<lambda>k s.
     if \<not> list_empty (lh s) (Hash_List a)
     then steps [upd_lh (\<lambda>h. list_delete_entry h (Hash_List a)), free_tcp_sock a] s
     else Inr s)"

section \<open>The accept queue\<close>

definition tcp_sock_accept_queue_full :: "tcp_sock \<Rightarrow> bool" where
  "tcp_sock_accept_queue_full k = (accept_backlog k \<ge> backlog k)"

definition tcp_sock_accept_enqueue :: "nat \<Rightarrow> tcp_stack \<Rightarrow> tcp_stack res" where
  "tcp_sock_accept_enqueue a = with_sk a (\<lambda>k s.
     case parent k of None \<Rightarrow> Inl Null_Deref
     | Some q \<Rightarrow> steps [
         \<lambda>s. if \<not> list_empty (lh s) (Sk_List a) then upd_lh (\<lambda>h. list_delete_entry h (Sk_List a)) s else Inr s,
         upd_lh (\<lambda>h. list_add_tail h (Sk_List a) (Accept_Queue q)),
         upd_sk q (\<lambda>k. k\<lparr>accept_backlog := accept_backlog k + 1\<rparr>)] s)"

text \<open>
  \<^verbatim>\<open>list_entry\<close> turns the first node of the queue into a socket; on an empty queue that node is
  the head itself, and what is unlinked then is not the node of a socket.
\<close>

definition tcp_sock_accept_dequeue :: "nat \<Rightarrow> tcp_stack \<Rightarrow> (nat \<times> tcp_stack) res" where
  "tcp_sock_accept_dequeue a = with_sk a (\<lambda>k s.
     case nxt (lh s) (Accept_Queue a) of
       Some (Sk_List c) \<Rightarrow> res_map (Pair c) (steps [
          upd_lh (\<lambda>h. list_delete_entry h (Sk_List c)),
          upd_lh (\<lambda>h. Inr (init_list_head h (Sk_List c))),
          upd_sk a (\<lambda>k. k\<lparr>accept_backlog := accept_backlog k - 1\<rparr>)] s)
     | _ \<Rightarrow> Inl Out_Of_Bounds)"

section \<open>Timers\<close>

definition TCP_TIMER_SCAN_INTERVAL :: int where "TCP_TIMER_SCAN_INTERVAL = 100000"
definition TCP_MSL :: int where "TCP_MSL = 1000000"
definition TCP_RETRANS_INTERVAL_INITIAL :: int where "TCP_RETRANS_INTERVAL_INITIAL = 200000"

lemmas tcp_timer_consts [simp] = TCP_TIMER_SCAN_INTERVAL_def TCP_MSL_def TCP_RETRANS_INTERVAL_INITIAL_def

definition tcp_set_timewait_timer :: "nat \<Rightarrow> tcp_stack \<Rightarrow> tcp_stack res" where
  "tcp_set_timewait_timer a = steps [
     upd_sk a (\<lambda>k. k\<lparr>ref_cnt := ref_cnt k + 1,
        timewait := (timewait k)\<lparr>timeout := 2 * TCP_MSL, enable := True\<rparr>\<rparr>),
     upd_lh (\<lambda>h. list_add_tail h (Timewait a) Timer_List)]"

definition tcp_set_persist_timer :: "nat \<Rightarrow> tcp_stack \<Rightarrow> tcp_stack res" where
  "tcp_set_persist_timer a = with_sk a (\<lambda>k s.
     if enable (persist_timer k) then Inr s
     else steps [
       upd_sk a (\<lambda>k. k\<lparr>ref_cnt := ref_cnt k + 1,
         persist_timer := (persist_timer k)\<lparr>timeout := TCP_RETRANS_INTERVAL_INITIAL, enable := True\<rparr>\<rparr>),
       upd_lh (\<lambda>h. list_add_tail h (Persist_Timer a) Timer_List)] s)"

definition tcp_unset_persist_timer :: "nat \<Rightarrow> tcp_stack \<Rightarrow> tcp_stack res" where
  "tcp_unset_persist_timer a = with_sk a (\<lambda>k s.
     if \<not> enable (persist_timer k) then Inr s
     else steps [
       upd_sk a (\<lambda>k. k\<lparr>persist_timer := (persist_timer k)\<lparr>enable := False\<rparr>, ref_cnt := ref_cnt k - 1\<rparr>),
       upd_lh (\<lambda>h. list_delete_entry h (Persist_Timer a))] s)"

definition tcp_set_retrans_timer :: "nat \<Rightarrow> tcp_stack \<Rightarrow> tcp_stack res" where
  "tcp_set_retrans_timer a = with_sk a (\<lambda>k s.
     if enable (retrans_timer k)
     then upd_sk a (\<lambda>k. k\<lparr>retrans_timer := (retrans_timer k)\<lparr>timeout :=
            TCP_RETRANS_INTERVAL_INITIAL * 2 ^ retrans_cnt (retrans_timer k)\<rparr>\<rparr>) s
     else steps [
       upd_sk a (\<lambda>k. k\<lparr>ref_cnt := ref_cnt k + 1,
         retrans_timer := (retrans_timer k)\<lparr>timeout := TCP_RETRANS_INTERVAL_INITIAL, enable := True\<rparr>\<rparr>),
       upd_lh (\<lambda>h. list_add_tail h (Retrans_Timer a) Timer_List)] s)"

definition tcp_unset_retrans_timer :: "nat \<Rightarrow> tcp_stack \<Rightarrow> tcp_stack res" where
  "tcp_unset_retrans_timer a = with_sk a (\<lambda>k s.
     if \<not> enable (retrans_timer k) then Inr s
     else steps [
       upd_sk a (\<lambda>k. k\<lparr>retrans_timer := (retrans_timer k)\<lparr>enable := False\<rparr>, ref_cnt := ref_cnt k - 1\<rparr>),
       upd_lh (\<lambda>h. list_delete_entry h (Retrans_Timer a))] s)"

definition tcp_update_retrans_timer :: "nat \<Rightarrow> tcp_stack \<Rightarrow> tcp_stack res" where
  "tcp_update_retrans_timer a = with_sk a (\<lambda>k s.
     if \<not> enable (retrans_timer k) then Inr s
     else if send_buf k = []
       then steps [tcp_unset_retrans_timer a, upd_sk a (\<lambda>k. k\<lparr>wait_send := wake (wait_send k)\<rparr>)] s
     else upd_sk a (\<lambda>k. k\<lparr>retrans_timer := (retrans_timer k)\<lparr>timeout := TCP_RETRANS_INTERVAL_INITIAL,
            retrans_cnt := 0\<rparr>\<rparr>) s)"

section \<open>Access lemmas\<close>

lemma with_sk_Some [simp]: "socks s a = Some k \<Longrightarrow> with_sk a f s = f k s"
  by (simp add: with_sk_def)

lemma upd_sk_Some [simp]: "socks s a = Some k \<Longrightarrow> upd_sk a f s = Inr (put_sk a (f k) s)"
  by (simp add: upd_sk_def)

lemma put_sk_fields [simp]:
  "socks (put_sk a k s) b = (if a = b then Some k else socks s b)"
  "lh (put_sk a k s) = lh s" "nsock (put_sk a k s) = nsock s" "sent (put_sk a k s) = sent s"
  "put_sk a k' (put_sk a k s) = put_sk a k' s"
  by (auto simp: put_sk_def)

lemma put_sk_id: "socks s a = Some k \<Longrightarrow> put_sk a k s = s"
  by (simp add: put_sk_def map_upd_triv)

end
