(* ===== verification/Tcp_Out.thy ===== *)
theory Tcp_Out
  imports Tcp_Sock
begin

text \<open>
  Sending: \<^verbatim>\<open>tcp_out.c\<close> of \<^verbatim>\<open>code-exp2\<close>. Each function builds a packet in fresh memory of the
  environment \<open>L\<close>, has \<^verbatim>\<open>libnet.a\<close> fill the IP header, and appends the packet to \<open>sent\<close>. A packet
  that is sent has the IP header at offset 14 and the TCP header at offset 34. \<^verbatim>\<open>tcp_retrans_send_buffer\<close>
  releases \<^verbatim>\<open>send_buf_lock\<close> in its empty case without holding it; \<^verbatim>\<open>send_buf_lock\<close> is not part of the
  model, and neither is what that does to a thread that holds it.
\<close>

section \<open>The code\<close>

definition ip_checksum2 :: "bytes \<Rightarrow> u16" where
  "ip_checksum2 p = checksum (sub 14 (IP_HDR_SIZE p) (put 24 [0, 0] p)) 0"

definition ip_send :: "bytes \<Rightarrow> tcp_stack \<Rightarrow> tcp_stack res" where
  "ip_send p s = Inr (s\<lparr>sent := sent s @ [Ip_Send p]\<rparr>)"

abbreviation fresh :: "tcp_env \<Rightarrow> tcp_stack \<Rightarrow> nat \<Rightarrow> bytes" where
  "fresh L s n \<equiv> l_malloc L (length (sent s)) n"

text \<open>
  The common part of \<^verbatim>\<open>tcp_send_packet\<close>, \<^verbatim>\<open>tcp_send_probe_packet\<close> and \<^verbatim>\<open>tcp_retrans_send_buffer\<close>:
  the headers of a data packet of socket \<open>k\<close> with sequence number \<open>seq\<close>.
\<close>

definition data_packet :: "tcp_env \<Rightarrow> nat \<Rightarrow> tcp_sock \<Rightarrow> u32 \<Rightarrow> bytes \<Rightarrow> bytes" where
  "data_packet L i k seq p =
     (let ip_tot_len = length p - ETHER_HDR_SIZE;
          p = tcp_init_hdr 34 (sk_sport k) (sk_dport k) seq (rcv_nxt k) (TCP_PSH OR TCP_ACK) (rcv_wnd k) p;
          p = l_ip_init_hdr L i p (sk_sip k) (sk_dip k) (of_nat ip_tot_len) IPPROTO_TCP;
          p = put 50 (bytes16 (tcp_checksum 34 p)) p
      in put 24 (bytes16 (ip_checksum2 p)) p)"

definition tcp_send_packet :: "tcp_env \<Rightarrow> nat \<Rightarrow> bytes \<Rightarrow> tcp_stack \<Rightarrow> tcp_stack res" where
  "tcp_send_packet L a packet = with_sk a (\<lambda>k s.
     let tcp_data_len = length packet - ETHER_HDR_SIZE - IP_BASE_HDR_SIZE - TCP_BASE_HDR_SIZE
     in steps [
          upd_sk a (\<lambda>k. k\<lparr>snd_nxt := snd_nxt k + of_nat tcp_data_len\<rparr>),
          ip_send (data_packet L (length (sent s)) k (snd_nxt k) packet)] s)"

definition probe_byte :: u8 where "probe_byte = 88"

definition tcp_send_probe_packet :: "tcp_env \<Rightarrow> nat \<Rightarrow> tcp_stack \<Rightarrow> tcp_stack res" where
  "tcp_send_probe_packet L a = with_sk a (\<lambda>k s.
     let pkt_size = 1 + ETHER_HDR_SIZE + IP_BASE_HDR_SIZE + TCP_BASE_HDR_SIZE;
         packet = put (pkt_size - 1) [probe_byte] (fresh L s pkt_size)
     in ip_send (data_packet L (length (sent s)) k (snd_una k - 1) packet) s)"

definition control_packet :: "tcp_env \<Rightarrow> nat \<Rightarrow> u32 \<Rightarrow> u32 \<Rightarrow> u16 \<Rightarrow> u16 \<Rightarrow> u32 \<Rightarrow> u32 \<Rightarrow> u8 \<Rightarrow> u16 \<Rightarrow> bytes \<Rightarrow> bytes" where
  "control_packet L i sip dip sport dport seq ack flags rwnd p =
     (let p = l_ip_init_hdr L i p sip dip (of_nat (IP_BASE_HDR_SIZE + TCP_BASE_HDR_SIZE)) IPPROTO_TCP;
          p = tcp_init_hdr 34 sport dport seq ack flags rwnd p
      in put 50 (bytes16 (tcp_checksum 34 p)) p)"

definition tcp_send_control_packet :: "tcp_env \<Rightarrow> nat \<Rightarrow> u8 \<Rightarrow> tcp_stack \<Rightarrow> tcp_stack res" where
  "tcp_send_control_packet L a flags = with_sk a (\<lambda>k s.
     let pkt_size = ETHER_HDR_SIZE + IP_BASE_HDR_SIZE + TCP_BASE_HDR_SIZE
     in steps [
          upd_sk a (\<lambda>k. if has flags (TCP_SYN OR TCP_FIN) then k\<lparr>snd_nxt := snd_nxt k + 1\<rparr> else k),
          ip_send (control_packet L (length (sent s)) (sk_sip k) (sk_dip k) (sk_sport k) (sk_dport k)
            (snd_nxt k) (rcv_nxt k) flags (rcv_wnd k) (fresh L s pkt_size))] s)"

definition tcp_send_reset :: "tcp_env \<Rightarrow> tcp_cb \<Rightarrow> tcp_stack \<Rightarrow> tcp_stack res" where
  "tcp_send_reset L cb s =
     (let pkt_size = ETHER_HDR_SIZE + IP_BASE_HDR_SIZE + TCP_BASE_HDR_SIZE
      in ip_send (control_packet L (length (sent s)) (cb_daddr cb) (cb_saddr cb) (cb_dport cb) (cb_sport cb)
           0 (cb_seq_end cb) (TCP_RST OR TCP_ACK) 0 (fresh L s pkt_size)) s)"

definition tcp_send_buffer_add_packet :: "nat \<Rightarrow> bytes \<Rightarrow> tcp_stack \<Rightarrow> tcp_stack res" where
  "tcp_send_buffer_add_packet a packet = steps [
     upd_sk a (\<lambda>k. k\<lparr>send_buf := send_buf k @ [\<lparr>se_seq = snd_nxt k, se_packet = packet\<rparr>]\<rparr>),
     tcp_set_retrans_timer a]"

text \<open>The loop removes entries from the front as long as their sequence number is acknowledged.\<close>

fun drop_acked :: "u32 \<Rightarrow> send_buffer_entry list \<Rightarrow> send_buffer_entry list" where
  "drop_acked ack [] = []"
| "drop_acked ack (e # es) = (if less_than_32b (se_seq e) ack then drop_acked ack es else e # es)"

definition tcp_update_send_buffer :: "nat \<Rightarrow> u32 \<Rightarrow> tcp_stack \<Rightarrow> tcp_stack res" where
  "tcp_update_send_buffer a ack = steps [
     upd_sk a (\<lambda>k. k\<lparr>send_buf := drop_acked ack (send_buf k)\<rparr>),
     with_sk a (\<lambda>k s. if send_buf k = [] then tcp_unset_retrans_timer a s else Inr s),
     tcp_update_retrans_timer a]"

definition tcp_retrans_send_buffer :: "tcp_env \<Rightarrow> nat \<Rightarrow> tcp_stack \<Rightarrow> tcp_stack res" where
  "tcp_retrans_send_buffer L a = with_sk a (\<lambda>k s.
     case send_buf k of
       [] \<Rightarrow> upd_sk a (\<lambda>k. k\<lparr>wait_send := wake (wait_send k)\<rparr>) s
     | e # es \<Rightarrow>
         (let n = length (se_packet e);
              pkt_len = n + ETHER_HDR_SIZE + IP_BASE_HDR_SIZE + TCP_BASE_HDR_SIZE;
              packet = put (pkt_len - n) (se_packet e) (fresh L s pkt_len)
          in ip_send (data_packet L (length (sent s)) k (se_seq e) packet) s))"

lemma send_control_ack:
  "socks s a = Some k \<Longrightarrow> \<exists>p. tcp_send_control_packet L a TCP_ACK s = Inr (s\<lparr>sent := sent s @ [Ip_Send p]\<rparr>)"
  by (auto simp: tcp_send_control_packet_def ip_send_def put_sk_id Let_def)

section \<open>What the stack relies on\<close>

text \<open>
  The contract of the environment: memory of the size asked for, and an \<^verbatim>\<open>ip_init_hdr\<close> that writes
  a header without options into bytes 14 to 33 and leaves the rest of the packet alone.
\<close>

definition init_hdr_ok :: "(nat \<Rightarrow> bytes \<Rightarrow> u32 \<Rightarrow> u32 \<Rightarrow> u16 \<Rightarrow> u8 \<Rightarrow> bytes) \<Rightarrow> bool" where
  "init_hdr_ok f \<longleftrightarrow> (\<forall>i p sip dip len proto. 34 \<le> length p \<longrightarrow>
     (let q = f i p sip dip len proto
      in length q = length p \<and> ip_ihl q = 5 \<and> ip_tot_len q = htons len \<and> ip_protocol q = proto \<and>
         ip_saddr q = htonl sip \<and> ip_daddr q = htonl dip \<and> drop 34 q = drop 34 p))"

locale libnet =
  fixes L :: tcp_env
  assumes malloc_size: "length (l_malloc L i n) = n"
    and init_hdr: "init_hdr_ok (l_ip_init_hdr L)"

end
