(* ===== verification/Tcp_In.thy ===== *)
theory Tcp_In
  imports Tcp_Out
begin

text \<open>
  Receiving: \<^verbatim>\<open>tcp_in.c\<close> of \<^verbatim>\<open>code-exp2\<close> (window and congestion control, the state machine
  \<^verbatim>\<open>tcp_process\<close>, the out-of-order buffer), \<^verbatim>\<open>handle_tcp_packet\<close> of \<^verbatim>\<open>tcp.c\<close> and \<^verbatim>\<open>ip.c\<close>. The file
  to which \<^verbatim>\<open>tcp_congestion_control\<close> writes a line per acknowledgement is left out: it does not change the
  stack, and when it cannot be opened the function returns at its end anyway. After a duplicate packet \<^verbatim>\<open>rcv_buf_lock\<close> is
  released twice; the model ignores the second release and runs \<^verbatim>\<open>tcp_move_recv_ofo_buffer\<close>, which has lost the
  lock then, as one step.
\<close>

section \<open>Windows\<close>

definition tcp_tx_window_test :: "tcp_sock \<Rightarrow> bool" where
  "tcp_tx_window_test k = (\<not> less_than_32b (snd_wnd k - snd_nxt k + snd_una k) (of_nat TCP_MSS))"

text \<open>\<^verbatim>\<open>min(rwnd, cwnd)\<close> compares in \<^verbatim>\<open>float\<close> and converts the result to \<^verbatim>\<open>u32\<close>.\<close>

definition min_wnd :: "u32 \<Rightarrow> rat \<Rightarrow> u32" where
  "min_wnd rwnd c = (if u32_fl rwnd < c then fl_u32 (u32_fl rwnd) else fl_u32 c)"

definition wake_send :: "nat \<Rightarrow> tcp_stack \<Rightarrow> tcp_stack res" where
  "wake_send a = upd_sk a (\<lambda>k. k\<lparr>wait_send := wake (wait_send k)\<rparr>)"

definition wake_recv :: "nat \<Rightarrow> tcp_stack \<Rightarrow> tcp_stack res" where
  "wake_recv a = upd_sk a (\<lambda>k. k\<lparr>wait_recv := wake (wait_recv k)\<rparr>)"

definition tcp_update_window :: "nat \<Rightarrow> tcp_cb \<Rightarrow> tcp_stack \<Rightarrow> tcp_stack res" where
  "tcp_update_window a cb = steps [
     upd_sk a (\<lambda>k. k\<lparr>snd_una := cb_ack cb, adv_wnd := ucast (cb_rwnd cb),
       snd_wnd := min_wnd (cb_rwnd cb) (cwnd k)\<rparr>),
     with_sk a (\<lambda>k. if tcp_tx_window_test k then tcp_unset_persist_timer a else tcp_set_persist_timer a),
     with_sk a (\<lambda>k s. if tcp_tx_window_test k then wake_send a s else Inr s)]"

definition tcp_update_window_safe :: "nat \<Rightarrow> tcp_cb \<Rightarrow> tcp_stack \<Rightarrow> tcp_stack res" where
  "tcp_update_window_safe a cb = with_sk a (\<lambda>k s.
     if less_or_equal_32b (snd_una k) (cb_ack cb) \<and> less_or_equal_32b (cb_ack cb) (snd_nxt k)
     then tcp_update_window a cb s else Inr s)"

section \<open>Congestion control\<close>

definition cc_ack :: "u32 \<Rightarrow> tcp_sock \<Rightarrow> tcp_sock" where
  "cc_ack ack k =
     (case cc_state k of
        TCP_FAST_RECOVER \<Rightarrow>
          (if ack \<ge> recovery_point k then k\<lparr>cc_state := TCP_SLOW_START, cwnd := u32_fl (ssthresh k)\<rparr>
           else k\<lparr>cwnd := fl32 (cwnd k + of_nat TCP_MSS)\<rparr>)
      | TCP_SLOW_START \<Rightarrow>
          (let k = (if ack < snd_una k then k\<lparr>dup_ack_count := dup_ack_count k + 1\<rparr>
                    else k\<lparr>cwnd := fl32 (cwnd k + of_nat TCP_MSS), dup_ack_count := 0\<rparr>)
           in if cwnd k > u32_fl (ssthresh k) then k\<lparr>cc_state := TCP_CONGESTION_AVOIDANCE\<rparr> else k)
      | TCP_CONGESTION_AVOIDANCE \<Rightarrow>
          (if ack > snd_una k
           then k\<lparr>cwnd := fl32 (cwnd k + fl32 (of_nat (TCP_MSS * TCP_MSS) / cwnd k)), dup_ack_count := 0\<rparr>
           else k\<lparr>dup_ack_count := dup_ack_count k + 1\<rparr>)
      | TCP_LOSS \<Rightarrow> k)"

definition fast_retransmit :: "tcp_sock \<Rightarrow> tcp_sock" where
  "fast_retransmit k =
     (let half = fl_u32 (cwnd k / 2)
      in k\<lparr>cc_state := TCP_FAST_RECOVER, ssthresh := half,
           cwnd := fl32 (of_nat (unat half + 3 * TCP_MSS)), dup_ack_count := 0,
           recovery_point := snd_nxt k\<rparr>)"

definition tcp_congestion_control :: "tcp_env \<Rightarrow> nat \<Rightarrow> tcp_cb \<Rightarrow> tcp_stack \<Rightarrow> tcp_stack res" where
  "tcp_congestion_control L a cb = steps [
     upd_sk a (cc_ack (cb_ack cb)),
     with_sk a (\<lambda>k s. if dup_ack_count k \<ge> 3
                     then steps [upd_sk a fast_retransmit, tcp_retrans_send_buffer L a] s else Inr s)]"

section \<open>The out-of-order buffer\<close>

text \<open>The result is the new list, or nothing when the sequence number is there already.\<close>

fun ofo_insert :: "recv_ofo_buf_entry \<Rightarrow> recv_ofo_buf_entry list \<Rightarrow> recv_ofo_buf_entry list option" where
  "ofo_insert e [] = Some [e]"
| "ofo_insert e (d # ds) =
     (if oe_seq e = oe_seq d then None
      else if less_than_32b (oe_seq e) (oe_seq d) then Some (e # d # ds)
      else map_option (Cons d) (ofo_insert e ds))"

text \<open>A negative length is a huge allocation, which fails; the copy then writes to address 0.\<close>

definition tcp_recv_ofo_buffer_add_packet :: "nat \<Rightarrow> tcp_cb \<Rightarrow> tcp_stack \<Rightarrow> (int \<times> tcp_stack) res" where
  "tcp_recv_ofo_buffer_add_packet a cb = with_sk a (\<lambda>k s.
     if less_or_equal_32b (cb_seq_end cb) (rcv_nxt k)
     then Inr (-1, put_sk a (k\<lparr>rcv_buf_lock := False\<rparr>) s)
     else if pl_len cb < 0 then Inl Null_Deref
     else let e = \<lparr>oe_seq = cb_seq cb, oe_seq_end = cb_seq_end cb, oe_packet = payload cb\<rparr>
       in case ofo_insert e (rcv_ofo_buf k) of
            None \<Rightarrow> Inr (-1, s)
          | Some es \<Rightarrow> Inr (0, put_sk a (k\<lparr>rcv_ofo_buf := es\<rparr>) s))"

fun move_loop :: "recv_ofo_buf_entry list \<Rightarrow> tcp_sock \<Rightarrow> nat \<Rightarrow> (nat \<times> tcp_sock) res" where
  "move_loop [] k moved = Inr (moved, k\<lparr>rcv_ofo_buf := []\<rparr>)"
| "move_loop (e # es) k moved =
     (if oe_seq e \<noteq> rcv_nxt k then Inr (moved, k\<lparr>rcv_ofo_buf := e # es\<rparr>)
      else if ring_buffer_free (rcv_buf k) < int (length (oe_packet e))
        then Inr (moved, k\<lparr>rcv_ofo_buf := e # es\<rparr>)
      else res_bind (write_ring_buffer (rcv_buf k) (oe_packet e)) (\<lambda>rb.
        let n = length (oe_packet e)
        in move_loop es (k\<lparr>rcv_buf := rb, rcv_nxt := rcv_nxt k + of_nat n, rcv_wnd := rcv_wnd k - of_nat n\<rparr>)
             (moved + n)))"

definition tcp_move_recv_ofo_buffer :: "tcp_env \<Rightarrow> nat \<Rightarrow> tcp_stack \<Rightarrow> tcp_stack res" where
  "tcp_move_recv_ofo_buffer L a = with_sk a (\<lambda>k s.
     res_bind (move_loop (rcv_ofo_buf k) k 0) (\<lambda>(moved, k).
       steps [tcp_send_control_packet L a TCP_ACK,
              \<lambda>s. if moved \<noteq> 0 then wake_recv a s else Inr s] (put_sk a k s)))"

section \<open>The state machine\<close>

definition listen_syn :: "tcp_env \<Rightarrow> nat \<Rightarrow> tcp_cb \<Rightarrow> tcp_stack \<Rightarrow> tcp_stack res" where
  "listen_syn L a cb s =
     (let (c, s) = alloc_tcp_sock s;
          new_iss = l_rand L c
      in steps [
        upd_sk c (\<lambda>k. k\<lparr>sk_sip := cb_daddr cb, sk_sport := cb_dport cb, sk_dip := cb_saddr cb,
          sk_dport := cb_sport cb, iss := new_iss, snd_nxt := new_iss, rcv_nxt := cb_seq cb + 1,
          parent := Some a\<rparr>),
        tcp_set_state c TCP_SYN_RECV,
        \<lambda>s. res_map snd (tcp_hash c s),
        tcp_send_control_packet L c (TCP_SYN OR TCP_ACK),
        tcp_sock_accept_enqueue c,
        upd_sk a (\<lambda>k. k\<lparr>wait_accept := wake (wait_accept k)\<rparr>)] s)"

definition syn_recv_ack :: "nat \<Rightarrow> tcp_cb \<Rightarrow> tcp_stack \<Rightarrow> tcp_stack res" where
  "syn_recv_ack a cb = steps [tcp_set_state a TCP_ESTABLISHED, tcp_update_window_safe a cb,
     tcp_unset_retrans_timer a, wake_recv a]"

definition syn_sent_synack :: "tcp_env \<Rightarrow> nat \<Rightarrow> tcp_cb \<Rightarrow> tcp_stack \<Rightarrow> tcp_stack res" where
  "syn_sent_synack L a cb = steps [
     upd_sk a (\<lambda>k. k\<lparr>rcv_nxt := cb_seq cb + 1\<rparr>),
     tcp_set_state a TCP_ESTABLISHED,
     \<lambda>s. res_map snd (tcp_hash a s),
     tcp_update_send_buffer a (cb_ack cb),
     tcp_update_window_safe a cb,
     tcp_unset_retrans_timer a,
     tcp_send_control_packet L a TCP_ACK,
     upd_sk a (\<lambda>k. k\<lparr>cwnd := of_nat TCP_MSS, ssthresh := 64 * 1024, dup_ack_count := 0,
       cc_state := TCP_SLOW_START, wait_connect := wake (wait_connect k)\<rparr>)]"

definition lock_rcv_buf :: "nat \<Rightarrow> tcp_stack \<Rightarrow> tcp_stack res" where
  "lock_rcv_buf a = with_sk a (\<lambda>k s. if rcv_buf_lock k then Inl Deadlock
     else Inr (put_sk a (k\<lparr>rcv_buf_lock := True\<rparr>) s))"

definition unlock_rcv_buf :: "nat \<Rightarrow> tcp_stack \<Rightarrow> tcp_stack res" where
  "unlock_rcv_buf a = upd_sk a (\<lambda>k. k\<lparr>rcv_buf_lock := False\<rparr>)"

definition established_fin :: "tcp_env \<Rightarrow> nat \<Rightarrow> tcp_cb \<Rightarrow> tcp_stack \<Rightarrow> tcp_stack res" where
  "established_fin L a cb = steps [
     upd_sk a (\<lambda>k. k\<lparr>rcv_nxt := cb_seq cb + 1\<rparr>),
     tcp_set_state a TCP_CLOSE_WAIT, wake_recv a, tcp_send_control_packet L a TCP_ACK]"

definition established_ack :: "tcp_env \<Rightarrow> nat \<Rightarrow> tcp_cb \<Rightarrow> tcp_stack \<Rightarrow> tcp_stack res" where
  "established_ack L a cb = steps [
     with_sk a (\<lambda>k s. if cb_seq cb < rcv_nxt k then tcp_send_control_packet L a TCP_ACK s else Inr s),
     \<lambda>s. if pl_len cb = 0
         then steps [tcp_update_send_buffer a (cb_ack cb), tcp_congestion_control L a cb,
                     tcp_update_window_safe a cb] s
         else steps [lock_rcv_buf a,
                     \<lambda>s. res_map snd (tcp_recv_ofo_buffer_add_packet a cb s),
                     tcp_move_recv_ofo_buffer L a, unlock_rcv_buf a] s]"

definition fin_wait_1 :: "tcp_env \<Rightarrow> nat \<Rightarrow> tcp_cb \<Rightarrow> tcp_stack \<Rightarrow> tcp_stack res" where
  "fin_wait_1 L a cb = steps [
     \<lambda>s. if has (cb_flags cb) TCP_FIN \<and> has (cb_flags cb) TCP_ACK
         then steps [upd_sk a (\<lambda>k. k\<lparr>rcv_nxt := cb_seq cb + 1\<rparr>),
                tcp_update_send_buffer a (cb_ack cb),
                tcp_send_control_packet L a TCP_ACK,
                tcp_set_state a TCP_TIME_WAIT,
                tcp_set_timewait_timer a] s
         else Inr s,
     \<lambda>s. if has (cb_flags cb) TCP_FIN
         then steps [tcp_set_state a TCP_CLOSING, tcp_send_control_packet L a TCP_ACK] s
         else if has (cb_flags cb) TCP_ACK then tcp_set_state a TCP_FIN_WAIT_2 s
         else Inr s]"

definition tcp_process :: "tcp_env \<Rightarrow> nat option \<Rightarrow> tcp_cb \<Rightarrow> tcp_stack \<Rightarrow> tcp_stack res" where
  "tcp_process L tsk cb = (case tsk of None \<Rightarrow> tcp_send_reset L cb | Some a \<Rightarrow> with_sk a (\<lambda>k.
     case state k of
       TCP_LISTEN \<Rightarrow> if has (cb_flags cb) TCP_SYN then listen_syn L a cb else Inr
     | TCP_SYN_RECV \<Rightarrow> if has (cb_flags cb) TCP_ACK then syn_recv_ack a cb else Inr
     | TCP_SYN_SENT \<Rightarrow> if has (cb_flags cb) (TCP_SYN OR TCP_ACK) then syn_sent_synack L a cb
                      else tcp_send_reset L cb
     | TCP_ESTABLISHED \<Rightarrow> if has (cb_flags cb) TCP_FIN then established_fin L a cb
                         else if has (cb_flags cb) TCP_ACK then established_ack L a cb else Inr
     | TCP_CLOSE_WAIT \<Rightarrow> steps [tcp_set_state a TCP_LAST_ACK,
                                upd_sk a (\<lambda>k. k\<lparr>rcv_nxt := cb_seq cb + 1\<rparr>),
                                tcp_send_control_packet L a (TCP_ACK OR TCP_FIN)]
     | TCP_LAST_ACK \<Rightarrow> if has (cb_flags cb) (TCP_ACK OR TCP_FIN)
                      then steps [tcp_update_send_buffer a (cb_ack cb), tcp_set_state a TCP_CLOSED,
                                  tcp_bind_unhash a]
                      else Inr
     | TCP_FIN_WAIT_1 \<Rightarrow> fin_wait_1 L a cb
     | TCP_FIN_WAIT_2 \<Rightarrow> if has (cb_flags cb) TCP_FIN
                        then steps [upd_sk a (\<lambda>k. k\<lparr>rcv_nxt := cb_seq cb + 1\<rparr>),
                                    tcp_send_control_packet L a TCP_ACK,
                                    tcp_set_state a TCP_TIME_WAIT, tcp_set_timewait_timer a]
                        else Inr
     | TCP_TIME_WAIT \<Rightarrow> Inr
     | TCP_CLOSED \<Rightarrow> Inr
     | TCP_CLOSING \<Rightarrow> Inr))"

section \<open>Dispatch\<close>

text \<open>
  \<^verbatim>\<open>handle_tcp_packet\<close> locks the socket that was found before it looks whether one was found, so
  without a socket it follows a null pointer.
\<close>

definition handle_tcp_packet :: "tcp_env \<Rightarrow> bytes \<Rightarrow> tcp_stack \<Rightarrow> tcp_stack res" where
  "handle_tcp_packet L p s =
     (let t = tcp_off p
      in if length p < tcp_checksum_reads t p then Inl Out_Of_Bounds
         else if tcp_checksum t p \<noteq> th_checksum t p then Inr s
         else let cb = tcp_cb_init t p
           in res_bind (tcp_sock_lookup cb s) (\<lambda>tsk.
                case tsk of None \<Rightarrow> Inl Null_Deref | Some a \<Rightarrow> tcp_process L (Some a) cb s))"

definition handle_ip_packet2 :: "tcp_env \<Rightarrow> iface_info \<Rightarrow> bytes \<Rightarrow> tcp_stack \<Rightarrow> tcp_stack res" where
  "handle_ip_packet2 L iface p s =
     (if length p < ETHER_HDR_SIZE + IP_BASE_HDR_SIZE then Inl Out_Of_Bounds
      else if ntohl (ip_daddr p) = if_ip iface
        then if ip_protocol p = IPPROTO_ICMP
          then if length p \<le> tcp_off p then Inl Out_Of_Bounds
            else if p ! tcp_off p = ICMP_ECHOREQUEST then Inr (s\<lparr>sent := sent s @ [Icmp_Send p]\<rparr>)
            else Inr s
          else if ip_protocol p = IPPROTO_TCP then handle_tcp_packet L p s
          else Inr s
      else Inr s)"

end
