(* ===== verification/Tcp_Api.thy ===== *)
theory Tcp_Api
  imports Tcp_In
begin

text \<open>
  The socket calls of \<^verbatim>\<open>tcp_sock.c\<close>, the timer thread of \<^verbatim>\<open>tcp_timer.c\<close> and the two applications of
  \<^verbatim>\<open>tcp_apps.c\<close>. A call that sleeps is split where it does: the outcome \<open>Asleep\<close> says that the
  caller waits on the wait structure, and the function with the suffix \<open>_resume\<close> or the loop
  function is what it runs when it is woken.
\<close>

section \<open>Connecting\<close>

datatype 'a outcome = Ret 'a | Asleep

definition tcp_sock_bind :: "nat \<Rightarrow> u16 \<Rightarrow> tcp_stack \<Rightarrow> (int \<times> tcp_stack) res" where
  "tcp_sock_bind a port = tcp_sock_set_sport a (ntohs port)"

text \<open>\<^verbatim>\<open>sleep_on\<close> of a wait structure of a socket: \<open>Ret\<close> when it returns at once.\<close>

definition sleep_connect :: "nat \<Rightarrow> tcp_stack \<Rightarrow> (int outcome \<times> tcp_stack) res" where
  "sleep_connect a = with_sk a (\<lambda>k s.
     let (r, w) = sleep_on_enter (wait_connect k)
     in Inr (case r of Returns d \<Rightarrow> Ret d | Blocks \<Rightarrow> Asleep, put_sk a (k\<lparr>wait_connect := w\<rparr>) s))"

definition connect_result :: "nat \<Rightarrow> tcp_stack \<Rightarrow> (int \<times> tcp_stack) res" where
  "connect_result a = with_sk a (\<lambda>k s. Inr (if state k = TCP_ESTABLISHED then 0 else -1, s))"

definition tcp_sock_connect :: "tcp_env \<Rightarrow> nat \<Rightarrow> u32 \<Rightarrow> u16 \<Rightarrow> tcp_stack \<Rightarrow> (int outcome \<times> tcp_stack) res" where
  "tcp_sock_connect L a ip port s =
     res_bind (tcp_sock_set_sport a 0 s) (\<lambda>(r, s).
       if r < 0 then Inr (Ret (-1), s)
       else case l_route L (ntohl ip) of
         None \<Rightarrow> Inr (Ret (-1), s)
       | Some sip \<Rightarrow>
          res_bind (steps [
              upd_sk a (\<lambda>k. k\<lparr>sk_sip := sip, sk_dip := ntohl ip, sk_dport := ntohs port\<rparr>),
              tcp_bind_hash a,
              tcp_set_state a TCP_SYN_SENT] s) (\<lambda>s.
          res_bind (tcp_hash a s) (\<lambda>(r, s).
            if r < 0 then Inr (Ret (-1), s)
            else res_bind (tcp_send_control_packet L a TCP_SYN s) (\<lambda>s.
              res_bind (sleep_connect a s) (\<lambda>(d, s).
                case d of Asleep \<Rightarrow> Inr (Asleep, s)
                | Ret _ \<Rightarrow> res_map (\<lambda>(r, s). (Ret r, s)) (connect_result a s))))))"

definition tcp_sock_connect_resume :: "nat \<Rightarrow> tcp_stack \<Rightarrow> (int \<times> tcp_stack) res" where
  "tcp_sock_connect_resume a s =
     res_bind (upd_sk a (\<lambda>k. k\<lparr>wait_connect := snd (sleep_on_resume (wait_connect k))\<rparr>) s) (connect_result a)"

definition tcp_sock_listen :: "nat \<Rightarrow> int \<Rightarrow> tcp_stack \<Rightarrow> (int \<times> tcp_stack) res" where
  "tcp_sock_listen a bl s =
     res_bind (steps [
         tcp_set_state a TCP_LISTEN,
         upd_sk a (\<lambda>k. k\<lparr>backlog := bl\<rparr>),
         with_sk a (\<lambda>k. upd_lh (\<lambda>h. list_add_head h (Hash_List a) (Lis (tcp_hash_function 0 0 (sk_sport k) 0))))] s)
       (\<lambda>s. res_map (\<lambda>(r, s). (if r \<ge> 0 then 0 else -1, s)) (tcp_hash a s))"

definition accept_finish :: "nat \<Rightarrow> tcp_stack \<Rightarrow> (nat option \<times> tcp_stack) res" where
  "accept_finish a s =
     res_bind (tcp_sock_accept_dequeue a s) (\<lambda>(c, s).
       res_map (\<lambda>(r, s). (if r \<ge> 0 then Some c else None, s)) (tcp_hash a s))"

definition tcp_sock_accept :: "nat \<Rightarrow> tcp_stack \<Rightarrow> (nat option outcome \<times> tcp_stack) res" where
  "tcp_sock_accept a = with_sk a (\<lambda>k s.
     if list_empty (lh s) (Accept_Queue a)
     then let (r, w) = sleep_on_enter (wait_accept k); s = put_sk a (k\<lparr>wait_accept := w\<rparr>) s
       in case r of Blocks \<Rightarrow> Inr (Asleep, s)
          | Returns d \<Rightarrow> if d < 0 then Inr (Ret None, s)
              else res_map (\<lambda>(r, s). (Ret r, s)) (accept_finish a s)
     else res_map (\<lambda>(r, s). (Ret r, s)) (accept_finish a s))"

definition tcp_sock_accept_resume :: "nat \<Rightarrow> tcp_stack \<Rightarrow> (nat option \<times> tcp_stack) res" where
  "tcp_sock_accept_resume a = with_sk a (\<lambda>k s.
     let (d, w) = sleep_on_resume (wait_accept k); s = put_sk a (k\<lparr>wait_accept := w\<rparr>) s
     in if d < 0 then Inr (None, s) else accept_finish a s)"

definition tcp_sock_close :: "tcp_env \<Rightarrow> nat \<Rightarrow> tcp_stack \<Rightarrow> tcp_stack res" where
  "tcp_sock_close L a = with_sk a (\<lambda>k.
     case state k of
       TCP_ESTABLISHED \<Rightarrow> steps [tcp_send_control_packet L a (TCP_FIN OR TCP_ACK), tcp_set_state a TCP_FIN_WAIT_1]
     | TCP_CLOSE_WAIT \<Rightarrow> steps [tcp_set_state a TCP_LAST_ACK, tcp_send_control_packet L a (TCP_FIN OR TCP_ACK)]
     | TCP_LISTEN \<Rightarrow> steps [tcp_unhash a, tcp_set_state a TCP_CLOSED]
     | TCP_FIN_WAIT_1 \<Rightarrow> Inr
     | TCP_FIN_WAIT_2 \<Rightarrow> Inr
     | TCP_LAST_ACK \<Rightarrow> Inr
     | TCP_CLOSED \<Rightarrow> steps [tcp_unhash a, tcp_bind_unhash a]
     | _ \<Rightarrow> tcp_set_state a TCP_CLOSED)"

section \<open>Reading and writing\<close>

text \<open>
  The body of \<^verbatim>\<open>tcp_sock_read\<close> with \<^verbatim>\<open>rcv_buf_lock\<close> held, from the test of the waiting loop on.
  \<open>Read_Wait\<close>: the lock is released and the thread sleeps or, when \<^verbatim>\<open>sleep_on\<close> returns at once,
  takes the lock and tests again; both continue with \<open>read_loop\<close>. The buffer cannot become
  empty while the lock is held, so the second loop of the code runs at most once.
\<close>

datatype read_outcome = Read_Ret int bytes | Read_Wait bool

definition read_loop :: "nat \<Rightarrow> int \<Rightarrow> tcp_stack \<Rightarrow> (read_outcome \<times> tcp_stack) res" where
  "read_loop a len s = res_bind (lock_rcv_buf a s) (with_sk a (\<lambda>k s.
     if ring_buffer_empty (rcv_buf k)
     then if state k = TCP_CLOSE_WAIT then Inr (Read_Ret (-1) [], s)
       else let (r, w) = sleep_on_enter (wait_recv k)
         in Inr (Read_Wait (r = Blocks), put_sk a (k\<lparr>rcv_buf_lock := False, wait_recv := w\<rparr>) s)
     else if len > 0
       then let avail = min len (ring_buffer_used (rcv_buf k));
                (n, d, rb) = read_ring_buffer (rcv_buf k) avail
         in Inr (Read_Ret avail d, put_sk a (k\<lparr>rcv_buf := rb, rcv_wnd := rcv_wnd k + of_int avail,
                   rcv_buf_lock := False\<rparr>) s)
     else Inr (Read_Ret 0 [], put_sk a (k\<lparr>rcv_buf_lock := False\<rparr>) s)))"

definition tcp_sock_read :: "nat \<Rightarrow> int \<Rightarrow> tcp_stack \<Rightarrow> (read_outcome \<times> tcp_stack) res" where
  "tcp_sock_read a len = with_sk a (\<lambda>k s.
     if state k = TCP_CLOSED \<or> state k = TCP_CLOSE_WAIT then Inr (Read_Ret (-1) [], s)
     else read_loop a len s)"

definition tcp_sock_read_resume :: "nat \<Rightarrow> int \<Rightarrow> tcp_stack \<Rightarrow> (read_outcome \<times> tcp_stack) res" where
  "tcp_sock_read_resume a len s =
     res_bind (upd_sk a (\<lambda>k. k\<lparr>wait_recv := snd (sleep_on_resume (wait_recv k))\<rparr>) s) (read_loop a len)"

text \<open>
  One round of the loop of \<^verbatim>\<open>tcp_sock_write\<close>: it ends, waits for the window (with the number of
  bytes sent so far), or sends a segment and goes on.
\<close>

datatype write_outcome = Write_Ret int | Write_Wait bool nat | Write_More nat

definition send_segment :: "tcp_env \<Rightarrow> nat \<Rightarrow> bytes \<Rightarrow> nat \<Rightarrow> nat \<Rightarrow> tcp_stack \<Rightarrow> tcp_stack res" where
  "send_segment L a buf sent_len send_len s =
     (let hdr = ETHER_HDR_SIZE + IP_BASE_HDR_SIZE + TCP_BASE_HDR_SIZE;
          strs = put hdr (sub sent_len send_len buf) (fresh L s (hdr + send_len))
      in steps [tcp_send_buffer_add_packet a buf, tcp_send_packet L a strs] s)"

definition write_round :: "tcp_env \<Rightarrow> nat \<Rightarrow> bytes \<Rightarrow> nat \<Rightarrow> tcp_stack \<Rightarrow> (write_outcome \<times> tcp_stack) res" where
  "write_round L a buf sent_len = with_sk a (\<lambda>k s.
     if \<not> sent_len < length buf then Inr (Write_Ret (int sent_len), s)
     else if \<not> tcp_tx_window_test k
       then let (r, w) = sleep_on_enter (wait_send k)
         in Inr (Write_Wait (r = Blocks) sent_len, put_sk a (k\<lparr>wait_send := w\<rparr>) s)
     else let send_len = min (length buf - sent_len) (min (unat (snd_wnd k)) TCP_MSS)
       in res_map (Pair (Write_More (sent_len + send_len))) (send_segment L a buf sent_len send_len s))"

partial_function (option) write_loop ::
    "tcp_env \<Rightarrow> nat \<Rightarrow> bytes \<Rightarrow> nat \<Rightarrow> tcp_stack \<Rightarrow> (write_outcome \<times> tcp_stack) res option" where
  "write_loop L a buf sent_len s =
     (case write_round L a buf sent_len s of
        Inl e \<Rightarrow> Some (Inl e)
      | Inr (Write_More n, s') \<Rightarrow> write_loop L a buf n s'
      | Inr (r, s') \<Rightarrow> Some (Inr (r, s')))"

definition write_from :: "tcp_env \<Rightarrow> nat \<Rightarrow> bytes \<Rightarrow> nat \<Rightarrow> tcp_stack \<Rightarrow> (write_outcome \<times> tcp_stack) res" where
  "write_from L a buf n s = (case write_loop L a buf n s of None \<Rightarrow> Inl Diverges | Some r \<Rightarrow> r)"

definition tcp_sock_write :: "tcp_env \<Rightarrow> nat \<Rightarrow> bytes \<Rightarrow> tcp_stack \<Rightarrow> (write_outcome \<times> tcp_stack) res" where
  "tcp_sock_write L a buf = with_sk a (\<lambda>k s.
     if state k \<noteq> TCP_ESTABLISHED \<and> state k \<noteq> TCP_CLOSE_WAIT then Inr (Write_Ret (-1), s)
     else write_from L a buf 0 s)"

definition tcp_sock_write_resume :: "tcp_env \<Rightarrow> nat \<Rightarrow> bytes \<Rightarrow> nat \<Rightarrow> tcp_stack \<Rightarrow> (write_outcome \<times> tcp_stack) res" where
  "tcp_sock_write_resume L a buf n s =
     res_bind (upd_sk a (\<lambda>k. k\<lparr>wait_send := snd (sleep_on_resume (wait_send k))\<rparr>) s) (write_from L a buf n)"

section \<open>The timer thread\<close>

fun timer_of :: "node \<Rightarrow> tcp_sock \<Rightarrow> tcp_timer" where
  "timer_of (Timewait a) k = timewait k"
| "timer_of (Retrans_Timer a) k = retrans_timer k"
| "timer_of n k = persist_timer k"

fun set_timer :: "node \<Rightarrow> tcp_timer \<Rightarrow> tcp_sock \<Rightarrow> tcp_sock" where
  "set_timer (Timewait a) t k = k\<lparr>timewait := t\<rparr>"
| "set_timer (Retrans_Timer a) t k = k\<lparr>retrans_timer := t\<rparr>"
| "set_timer n t k = k\<lparr>persist_timer := t\<rparr>"

definition upd_timer :: "nat \<Rightarrow> node \<Rightarrow> (tcp_timer \<Rightarrow> tcp_timer) \<Rightarrow> tcp_stack \<Rightarrow> tcp_stack res" where
  "upd_timer a n f = upd_sk a (\<lambda>k. set_timer n (f (timer_of n k)) k)"

definition retrans_give_up :: "nat \<Rightarrow> tcp_stack \<Rightarrow> tcp_stack res" where
  "retrans_give_up a = steps [
     tcp_unset_retrans_timer a,
     upd_lh (\<lambda>h. list_delete_entry h (Retrans_Timer a)),
     tcp_bind_unhash a,
     upd_sk a (\<lambda>k. k\<lparr>wait_connect := fst (wait_exit (wait_connect k)), wait_accept := fst (wait_exit (wait_accept k)),
       wait_recv := fst (wait_exit (wait_recv k)), wait_send := fst (wait_exit (wait_send k))\<rparr>),
     tcp_set_state a TCP_CLOSED,
     free_tcp_sock a]"

definition retrans_again :: "tcp_env \<Rightarrow> nat \<Rightarrow> tcp_stack \<Rightarrow> tcp_stack res" where
  "retrans_again L a = steps [
     upd_sk a (\<lambda>k. let t = (retrans_timer k)\<lparr>retrans_cnt := retrans_cnt (retrans_timer k) + 1\<rparr>
       in k\<lparr>retrans_timer := t\<lparr>timeout := TCP_RETRANS_INTERVAL_INITIAL * 2 ^ retrans_cnt t\<rparr>,
           ssthresh := fl_u32 (cwnd k / 2), cwnd := of_nat TCP_MSS, dup_ack_count := 0,
           cc_state := TCP_SLOW_START\<rparr>),
     tcp_retrans_send_buffer L a]"

definition timer_expired :: "tcp_env \<Rightarrow> node \<Rightarrow> nat \<Rightarrow> tcp_stack \<Rightarrow> tcp_stack res" where
  "timer_expired L n a = with_sk a (\<lambda>k.
     if n = Persist_Timer a \<and> state k \<noteq> TCP_CLOSED
     then steps [tcp_send_probe_packet L a,
            upd_timer a n (\<lambda>t. t\<lparr>timeout := TCP_RETRANS_INTERVAL_INITIAL\<rparr>)]
     else if n = Retrans_Timer a \<and> state k \<noteq> TCP_CLOSED
     then if retrans_cnt (retrans_timer k) \<ge> 3 then retrans_give_up a else retrans_again L a
     else steps [upd_lh (\<lambda>h. list_delete_entry h n),
            upd_timer a n (\<lambda>t. t\<lparr>enable := False\<rparr>),
            tcp_set_state a TCP_CLOSED,
            tcp_sock_close L a])"

definition scan_timer :: "tcp_env \<Rightarrow> node \<Rightarrow> tcp_stack \<Rightarrow> tcp_stack res" where
  "scan_timer L n s =
     (case node_sock n of None \<Rightarrow> Inr s
      | Some a \<Rightarrow> with_sk a (\<lambda>k s.
          if \<not> enable (timer_of n k) then Inr s
          else steps [upd_timer a n (\<lambda>t. t\<lparr>timeout := timeout t - TCP_TIMER_SCAN_INTERVAL\<rparr>),
                      with_sk a (\<lambda>k s. if timeout (timer_of n k) \<le> 0 then timer_expired L n a s else Inr s)] s) s)"

partial_function (option) scan_loop :: "tcp_env \<Rightarrow> node \<Rightarrow> tcp_stack \<Rightarrow> tcp_stack res option" where
  "scan_loop L n s =
     (if n = Timer_List then Some (Inr s)
      else case nxt (lh s) n of None \<Rightarrow> Some (Inl Use_After_Free)
      | Some m \<Rightarrow> (case scan_timer L n s of Inl e \<Rightarrow> Some (Inl e) | Inr s' \<Rightarrow> scan_loop L m s'))"

definition tcp_scan_timer_list :: "tcp_env \<Rightarrow> tcp_stack \<Rightarrow> tcp_stack res" where
  "tcp_scan_timer_list L s =
     (case nxt (lh s) Timer_List of None \<Rightarrow> Inl Null_Deref
      | Some n \<Rightarrow> (case scan_loop L n s of None \<Rightarrow> Inl Diverges | Some r \<Rightarrow> r))"

section \<open>The applications\<close>

text \<open>
  \<^verbatim>\<open>tcp_server\<close> up to its first \<^verbatim>\<open>tcp_sock_accept\<close> and \<^verbatim>\<open>tcp_client\<close> up to the point where it sleeps in
  \<^verbatim>\<open>tcp_sock_connect\<close>; port and address are in network byte order. \<open>None\<close> is \<^verbatim>\<open>exit(1)\<close>.
\<close>

definition tcp_server_start :: "u16 \<Rightarrow> tcp_stack \<Rightarrow> (nat option \<times> tcp_stack) res" where
  "tcp_server_start port s =
     (let (a, s) = alloc_tcp_sock s
      in res_bind (tcp_sock_bind a port s) (\<lambda>(r, s).
           if r < 0 then Inr (None, s)
           else res_map (\<lambda>(r, s). (if r < 0 then None else Some a, s)) (tcp_sock_listen a 3 s)))"

definition tcp_client_start :: "tcp_env \<Rightarrow> u32 \<Rightarrow> u16 \<Rightarrow> tcp_stack \<Rightarrow> (nat \<times> int outcome \<times> tcp_stack) res" where
  "tcp_client_start L ip port s =
     (let (a, s) = alloc_tcp_sock s in res_map (Pair a) (tcp_sock_connect L a ip port s))"

text \<open>The writes of \<^verbatim>\<open>tcp_client\<close> for the contents of its input file.\<close>

function client_writes :: "bytes \<Rightarrow> bytes list" where
  "client_writes f =
     (let wbuf = take 1000 f; wlen = length wbuf
      in if wlen > 0 then wbuf # (if wlen < 1000 then [] else client_writes (drop 1000 f)) else [])"
  by pat_completeness auto

termination
  by (relation "measure length") auto

declare client_writes.simps [simp del]

text \<open>
  One read of \<^verbatim>\<open>tcp_server\<close> that returned \<open>d\<close>: the end of its loop, or the bytes appended to the
  file. The array \<^verbatim>\<open>rbuf\<close> has 1000 elements, and the terminating zero is stored at index \<^verbatim>\<open>rlen\<close>.
\<close>

definition server_store :: "int \<Rightarrow> bytes \<Rightarrow> bytes \<Rightarrow> bytes option res" where
  "server_store rlen d file =
     (if rlen \<le> 0 then Inr None
      else if rlen \<ge> 1000 then Inl Out_Of_Bounds
      else Inr (Some (file @ d)))"

end
