(* ===== verification/Tcp_Recv.thy ===== *)
theory Tcp_Recv
  imports Tcp_Api
begin

text \<open>
  Reassembly. Segments of a byte stream \<open>S\<close> arrive at an established socket in any order, some
  of them more than once, while the application reads. The theory shows that the socket never
  fails and that what the application reads is a prefix of \<open>S\<close>, and that it is all of \<open>S\<close> once
  every segment has arrived and there is room. A segment is a pair of an offset into \<open>S\<close> and
  a length; \<open>base\<close> is the sequence number of the first byte.
\<close>

section \<open>Offsets and sequence numbers\<close>

definition fits :: "u32 \<Rightarrow> bytes \<Rightarrow> bool" where
  "fits base S \<longleftrightarrow> sint base + int (length S) < 2 ^ 31"

definition sq :: "u32 \<Rightarrow> nat \<Rightarrow> u32" where
  "sq base i = base + of_nat i"

lemma sint_sq:
  assumes "fits base S" "i \<le> length S"
  shows "sint (sq base i) = sint base + int i"
proof -
  have "- (2 ^ 31) \<le> sint base" using sint_ge [of base] by simp
  moreover have "sint base + int i < 2 ^ 31" using assms by (simp add: fits_def)
  ultimately have "signed_take_bit 31 (sint base + int i) = sint base + int i"
    by (intro signed_take_bit_int_eq_self) auto
  moreover have "sint (word_of_int (sint base + int i) :: u32) = signed_take_bit 31 (sint base + int i)"
    by (subst sint_sbintrunc') simp
  moreover have "sq base i = word_of_int (sint base + int i)" by (simp add: sq_def)
  ultimately show ?thesis by metis
qed

lemma sq_cmp:
  assumes "fits base S" "i \<le> length S" "j \<le> length S"
  shows "less_or_equal_32b (sq base i) (sq base j) \<longleftrightarrow> i \<le> j" "less_than_32b (sq base i) (sq base j) \<longleftrightarrow> i < j"
    "sq base i = sq base j \<longleftrightarrow> i = j"
proof -
  note e = sint_sq [OF assms(1,2)] sint_sq [OF assms(1,3)]
  show "less_or_equal_32b (sq base i) (sq base j) \<longleftrightarrow> i \<le> j" "less_than_32b (sq base i) (sq base j) \<longleftrightarrow> i < j"
    using e by (simp_all add: seq_cmp_defs)
  show "sq base i = sq base j \<longleftrightarrow> i = j" using e by (metis add_left_cancel of_nat_eq_iff)
qed

lemma sq_add: "sq base i + of_nat n = sq base (i + n)"
  by (simp add: sq_def)

section \<open>The out-of-order buffer as a list of pairs\<close>

definition ent :: "u32 \<Rightarrow> bytes \<Rightarrow> nat \<times> nat \<Rightarrow> recv_ofo_buf_entry" where
  "ent base S p = \<lparr>oe_seq = sq base (fst p), oe_seq_end = sq base (fst p + snd p), oe_packet = sub (fst p) (snd p) S\<rparr>"

definition pair_ok :: "bytes \<Rightarrow> nat \<times> nat \<Rightarrow> bool" where
  "pair_ok S p \<longleftrightarrow> 0 < snd p \<and> fst p + snd p \<le> length S"

fun pins :: "nat \<times> nat \<Rightarrow> (nat \<times> nat) list \<Rightarrow> (nat \<times> nat) list option" where
  "pins p [] = Some [p]"
| "pins p (q # qs) =
     (if fst p = fst q then None else if fst p < fst q then Some (p # q # qs) else map_option (Cons q) (pins p qs))"

lemma ofo_insert_ent:
  assumes "fits base S" "pair_ok S p" "\<forall>q\<in>set qs. pair_ok S q"
  shows "ofo_insert (ent base S p) (map (ent base S) qs) = map_option (map (ent base S)) (pins p qs)"
  using assms(3)
proof (induction qs)
  case (Cons q qs)
  have b: "fst p \<le> length S" "fst q \<le> length S" using assms(2) Cons.prems by (auto simp: pair_ok_def)
  show ?case
    using Cons sq_cmp(2,3) [OF assms(1) b] by (auto simp: ent_def option.map_comp comp_def)
qed simp

lemma pins_set: "pins p qs = Some qs' \<Longrightarrow> set qs' = insert p (set qs)"
  by (induction qs arbitrary: qs') (auto split: if_splits)

lemma pins_None: "pins p qs = None \<Longrightarrow> \<exists>q\<in>set qs. fst q = fst p"
  by (induction qs) (auto split: if_splits)

lemma pins_sorted:
  "pins p qs = Some qs' \<Longrightarrow> sorted_wrt (<) (map fst qs) \<Longrightarrow> sorted_wrt (<) (map fst qs')"
proof (induction qs arbitrary: qs')
  case (Cons q qs)
  consider "fst p < fst q" "qs' = p # q # qs" | r where "fst q < fst p" "pins p qs = Some r" "qs' = q # r"
    using Cons.prems(1) by (auto split: if_splits)
  then show ?case
  proof cases
    case 1
    then show ?thesis using Cons.prems(2) by force
  next
    case 2
    then show ?thesis using Cons.IH [OF 2(2)] Cons.prems(2) pins_set [OF 2(2)] by auto
  qed
qed simp

lemma length_ent [simp]: "pair_ok S p \<Longrightarrow> length (oe_packet (ent base S p)) = snd p"
  by (simp add: ent_def pair_ok_def)

lemma take_sub: "take j S @ sub j n S = take (j + n) S"
  by (simp add: sub_def take_add)

text \<open>The move loop takes a run of adjacent segments off the front.\<close>

fun run_end :: "nat \<Rightarrow> (nat \<times> nat) list \<Rightarrow> nat \<Rightarrow> bool" where
  "run_end j [] e \<longleftrightarrow> j = e"
| "run_end j (p # ps) e \<longleftrightarrow> fst p = j \<and> run_end (j + snd p) ps e"

lemma move_loop_spec:
  assumes "fits base S" "\<forall>p\<in>set ps. pair_ok S p" "rb_inv (rcv_buf k)" "rcv_nxt k = sq base j" "j \<le> length S"
  shows "\<exists>us vs e rb w m. ps = us @ vs \<and> run_end j us e \<and> j \<le> e \<and> e \<le> length S \<and>
    move_loop (map (ent base S) ps) k moved =
      Inr (m, k\<lparr>rcv_ofo_buf := map (ent base S) vs, rcv_buf := rb, rcv_nxt := sq base e, rcv_wnd := w\<rparr>) \<and>
    rb_inv rb \<and> rsize rb = rsize (rcv_buf k) \<and> rb_list rb = rb_list (rcv_buf k) @ sub j (e - j) S \<and>
    (vs = [] \<or> fst (hd vs) \<noteq> e \<or> rb_capacity rb < length (rb_list rb) + snd (hd vs))"
  using assms(2-5)
proof (induction ps arbitrary: k j moved)
  case Nil
  then show ?case
    by (intro exI [of _ "[]"] exI [of _ j] exI [of _ "rcv_buf k"] exI [of _ "rcv_wnd k"] exI [of _ moved])
      (simp add: sub_def)
next
  case (Cons p ps)
  have p: "pair_ok S p" "0 < snd p" "fst p + snd p \<le> length S" "sub (fst p) (snd p) S \<noteq> []"
    using Cons.prems(1) by (auto simp: pair_ok_def sub_def)
  have seq: "oe_seq (ent base S p) = rcv_nxt k \<longleftrightarrow> fst p = j"
    using sq_cmp(3) [OF assms(1), of "fst p" j] p Cons.prems(3,4) by (simp add: ent_def)
  show ?case
  proof (cases "fst p = j \<and> \<not> ring_buffer_free (rcv_buf k) < int (snd p)")
    case False
    then have "vs = [] \<or> fst (hd vs) \<noteq> j \<or> rb_capacity (rcv_buf k) < length (rb_list (rcv_buf k)) + snd (hd vs)"
      if "vs = p # ps" for vs
      using rb_fits_iff [OF Cons.prems(2), of "sub (fst p) (snd p) S"] p that by (auto simp: not_less)
    moreover have "move_loop (map (ent base S) (p # ps)) k moved = Inr (moved, k\<lparr>rcv_ofo_buf := map (ent base S) (p # ps)\<rparr>)"
      using False seq p by auto
    ultimately show ?thesis
      by (intro exI [of _ "[]"] exI [of _ "p # ps"] exI [of _ j] exI [of _ "rcv_buf k"] exI [of _ "rcv_wnd k"] exI [of _ moved])
        (use Cons.prems in \<open>simp add: sub_def\<close>)
  next
    case True
    then obtain rb where rb: "write_ring_buffer (rcv_buf k) (sub (fst p) (snd p) S) = Inr rb" "rb_inv rb"
      "rb_list rb = rb_list (rcv_buf k) @ sub (fst p) (snd p) S" "rsize rb = rsize (rcv_buf k)"
      using write_ring_buffer_spec [OF Cons.prems(2) p(4)] p(3) by (auto simp: not_less)
    define k1 where "k1 = k\<lparr>rcv_buf := rb, rcv_nxt := rcv_nxt k + of_nat (snd p), rcv_wnd := rcv_wnd k - of_nat (snd p)\<rparr>"
    have step: "move_loop (map (ent base S) (p # ps)) k moved = move_loop (map (ent base S) ps) k1 (moved + snd p)"
      using True seq p rb(1) by (simp add: ent_def Let_def k1_def)
    have k1: "\<forall>p\<in>set ps. pair_ok S p" "rb_inv (rcv_buf k1)" "rcv_nxt k1 = sq base (j + snd p)" "j + snd p \<le> length S"
      "rcv_buf k1 = rb"
      using rb(2) Cons.prems(1,3) True p(3) by (simp_all add: sq_add k1_def)
    from Cons.IH [OF k1(1-4), of "moved + snd p", unfolded k1(5)] obtain us vs e rb' w m where
      IH: "ps = us @ vs" "run_end (j + snd p) us e" "j + snd p \<le> e" "e \<le> length S"
      "move_loop (map (ent base S) ps) k1 (moved + snd p) =
        Inr (m, k1\<lparr>rcv_ofo_buf := map (ent base S) vs, rcv_buf := rb', rcv_nxt := sq base e, rcv_wnd := w\<rparr>)"
      "rb_inv rb'" "rsize rb' = rsize rb" "rb_list rb' = rb_list rb @ sub (j + snd p) (e - (j + snd p)) S"
      "vs = [] \<or> fst (hd vs) \<noteq> e \<or> rb_capacity rb' < length (rb_list rb') + snd (hd vs)"
      by blast
    have "k1\<lparr>rcv_ofo_buf := map (ent base S) vs, rcv_buf := rb', rcv_nxt := sq base e, rcv_wnd := w\<rparr> =
        k\<lparr>rcv_ofo_buf := map (ent base S) vs, rcv_buf := rb', rcv_nxt := sq base e, rcv_wnd := w\<rparr>"
      by (simp add: k1_def)
    note mv = IH(5) [unfolded this]
    have "sub j (snd p) S @ sub (j + snd p) (e - (j + snd p)) S = sub j (e - j) S"
      using take_add [of "snd p" "e - (j + snd p)" "drop j S"] IH(3)
      by (simp add: sub_def add.commute)
    then have "rb_list rb' = rb_list (rcv_buf k) @ sub j (e - j) S" using IH(8) rb(3) True by simp
    then show ?thesis
      using IH mv rb(4) True p(2) unfolding step
      by (intro exI [of _ "p # us"] exI [of _ vs] exI [of _ e] exI [of _ rb'] exI [of _ w] exI [of _ m]) simp
  qed
qed

section \<open>One segment\<close>

definition rx_sock :: "u32 \<Rightarrow> bytes \<Rightarrow> nat \<Rightarrow> (nat \<times> nat) list \<Rightarrow> tcp_sock \<Rightarrow> bool" where
  "rx_sock base S j ps k \<longleftrightarrow> state k = TCP_ESTABLISHED \<and> \<not> rcv_buf_lock k \<and> rcv_nxt k = sq base j \<and>
     j \<le> length S \<and> rb_inv (rcv_buf k) \<and> rcv_ofo_buf k = map (ent base S) ps \<and> (\<forall>p\<in>set ps. pair_ok S p)"

definition data_seg :: "u32 \<Rightarrow> bytes \<Rightarrow> nat \<times> nat \<Rightarrow> tcp_cb \<Rightarrow> bool" where
  "data_seg base S p cb \<longleftrightarrow> pair_ok S p \<and> \<not> has (cb_flags cb) TCP_FIN \<and> has (cb_flags cb) TCP_ACK \<and>
     cb_seq cb = sq base (fst p) \<and> cb_seq_end cb = sq base (fst p + snd p) \<and>
     payload cb = sub (fst p) (snd p) S \<and> pl_len cb = int (snd p)"

definition queued :: "nat \<Rightarrow> nat \<times> nat \<Rightarrow> (nat \<times> nat) list \<Rightarrow> (nat \<times> nat) list" where
  "queued j p ps = (if fst p + snd p \<le> j then ps else case pins p ps of None \<Rightarrow> ps | Some qs \<Rightarrow> qs)"

lemma queued_set: "set (queued j p ps) \<subseteq> insert p (set ps)"
  by (auto simp: queued_def split: option.splits dest: pins_set)

lemma add_packet_spec:
  assumes "fits base S" "data_seg base S p cb" "socks s a = Some k" "rcv_nxt k = sq base j" "j \<le> length S"
    "rcv_ofo_buf k = map (ent base S) ps" "\<forall>p\<in>set ps. pair_ok S p"
  shows "\<exists>r b. tcp_recv_ofo_buffer_add_packet a cb s =
    Inr (r, put_sk a (k\<lparr>rcv_buf_lock := b, rcv_ofo_buf := map (ent base S) (queued j p ps)\<rparr>) s)"
proof -
  have p: "pair_ok S p" "fst p + snd p \<le> length S" using assms(2) by (auto simp: data_seg_def pair_ok_def)
  have dup: "less_or_equal_32b (cb_seq_end cb) (rcv_nxt k) \<longleftrightarrow> fst p + snd p \<le> j"
    using sq_cmp(1) [OF assms(1) p(2) assms(5)] assms(2,4) by (simp add: data_seg_def)
  have e: "\<lparr>oe_seq = cb_seq cb, oe_seq_end = cb_seq_end cb, oe_packet = payload cb\<rparr> = ent base S p" "\<not> pl_len cb < 0"
    using assms(2) by (simp_all add: ent_def data_seg_def)
  have same: "put_sk a (k\<lparr>rcv_buf_lock := rcv_buf_lock k, rcv_ofo_buf := rcv_ofo_buf k\<rparr>) s = s"
    using put_sk_id [OF assms(3)] by simp
  show ?thesis
  proof (cases "fst p + snd p \<le> j")
    case True
    then have "tcp_recv_ofo_buffer_add_packet a cb s =
        Inr (-1, put_sk a (k\<lparr>rcv_buf_lock := False, rcv_ofo_buf := rcv_ofo_buf k\<rparr>) s)"
      using assms(3) dup by (simp add: tcp_recv_ofo_buffer_add_packet_def)
    then show ?thesis using True assms(6) by (auto simp: queued_def)
  next
    case False
    note ins = ofo_insert_ent [OF assms(1) p(1) assms(7)]
    have "tcp_recv_ofo_buffer_add_packet a cb s =
      (case pins p ps of None \<Rightarrow> Inr (-1, s)
       | Some qs \<Rightarrow> Inr (0, put_sk a (k\<lparr>rcv_buf_lock := rcv_buf_lock k, rcv_ofo_buf := map (ent base S) qs\<rparr>) s))"
      using assms(3,6) dup e False ins
      by (simp add: tcp_recv_ofo_buffer_add_packet_def Let_def split: option.splits)
    then show ?thesis
      using False same [unfolded assms(6)]
      by (intro exI [of _ "case pins p ps of None \<Rightarrow> -1 | Some _ \<Rightarrow> 0"] exI [of _ "rcv_buf_lock k"], cases "pins p ps")
        (simp_all add: queued_def)
  qed
qed

lemma process_segment:
  assumes "fits base S" "data_seg base S p cb" "socks s a = Some k" "rx_sock base S j ps k"
  shows "\<exists>s' k' us vs e. tcp_process L (Some a) cb s = Inr s' \<and> socks s' a = Some k' \<and>
    queued j p ps = us @ vs \<and> run_end j us e \<and> j \<le> e \<and> rx_sock base S e vs k' \<and>
    rsize (rcv_buf k') = rsize (rcv_buf k) \<and>
    rb_list (rcv_buf k') = rb_list (rcv_buf k) @ sub j (e - j) S \<and>
    (vs = [] \<or> fst (hd vs) \<noteq> e \<or> rb_capacity (rcv_buf k') < length (rb_list (rcv_buf k')) + snd (hd vs))"
proof -
  note k = assms(4) [unfolded rx_sock_def] and cb = assms(2) [unfolded data_seg_def pair_ok_def]
  define s1 where "s1 = (if cb_seq cb < rcv_nxt k
     then (case tcp_send_control_packet L a TCP_ACK s of Inr t \<Rightarrow> t | Inl _ \<Rightarrow> s) else s)"
  obtain pk where pk: "tcp_send_control_packet L a TCP_ACK s = Inr (s\<lparr>sent := sent s @ [Ip_Send pk]\<rparr>)"
    using send_control_ack [OF assms(3)] by blast
  have s1: "socks s1 a = Some k" using assms(3) pk by (simp add: s1_def)
  have first: "(with_sk a (\<lambda>k s. if cb_seq cb < rcv_nxt k then tcp_send_control_packet L a TCP_ACK s else Inr s)) s = Inr s1"
    using assms(3) pk by (simp add: s1_def)
  define k2 where "k2 = k\<lparr>rcv_buf_lock := True\<rparr>"
  have s2: "lock_rcv_buf a s1 = Inr (put_sk a k2 s1)" "socks (put_sk a k2 s1) a = Some k2"
    using s1 k by (simp_all add: lock_rcv_buf_def k2_def)
  define ps1 where "ps1 = queued j p ps"
  have k2: "rcv_nxt k2 = sq base j" "j \<le> length S" "rcv_ofo_buf k2 = map (ent base S) ps" "\<forall>p\<in>set ps. pair_ok S p"
    using k by (simp_all add: k2_def)
  obtain r b where add: "tcp_recv_ofo_buffer_add_packet a cb (put_sk a k2 s1) =
      Inr (r, put_sk a (k2\<lparr>rcv_buf_lock := b, rcv_ofo_buf := map (ent base S) ps1\<rparr>) s1)"
    using add_packet_spec [OF assms(1,2) s2(2) k2] by (auto simp: ps1_def)
  define k3 where "k3 = k2\<lparr>rcv_buf_lock := b, rcv_ofo_buf := map (ent base S) ps1\<rparr>"
  have k3: "\<forall>p\<in>set ps1. pair_ok S p" "rb_inv (rcv_buf k3)" "rcv_nxt k3 = sq base j" "j \<le> length S"
    "rcv_ofo_buf k3 = map (ent base S) ps1" "rcv_buf k3 = rcv_buf k" "state k3 = TCP_ESTABLISHED"
    using k queued_set [of j p ps] assms(2) by (auto simp: k3_def k2_def ps1_def data_seg_def)
  from move_loop_spec [OF assms(1) k3(1-4), of 0, unfolded k3(6)] obtain us vs e rb w m where
    mv: "ps1 = us @ vs" "run_end j us e" "j \<le> e" "e \<le> length S"
    "move_loop (map (ent base S) ps1) k3 0 =
        Inr (m, k3\<lparr>rcv_ofo_buf := map (ent base S) vs, rcv_buf := rb, rcv_nxt := sq base e, rcv_wnd := w\<rparr>)"
    "rb_inv rb" "rsize rb = rsize (rcv_buf k)" "rb_list rb = rb_list (rcv_buf k) @ sub j (e - j) S"
    "vs = [] \<or> fst (hd vs) \<noteq> e \<or> rb_capacity rb < length (rb_list rb) + snd (hd vs)"
    by blast
  define k4 where "k4 = k3\<lparr>rcv_ofo_buf := map (ent base S) vs, rcv_buf := rb, rcv_nxt := sq base e, rcv_wnd := w\<rparr>"
  obtain pk' where pk': "tcp_send_control_packet L a TCP_ACK (put_sk a k4 s1) =
      Inr ((put_sk a k4 s1)\<lparr>sent := sent s1 @ [Ip_Send pk']\<rparr>)"
    using send_control_ack [of "put_sk a k4 s1" a k4 L] by auto
  define k5 where "k5 = (if m \<noteq> 0 then k4\<lparr>wait_recv := wake (wait_recv k4)\<rparr> else k4)"
  have move: "tcp_move_recv_ofo_buffer L a (put_sk a k3 s1) =
      Inr (put_sk a k5 ((put_sk a k4 s1)\<lparr>sent := sent s1 @ [Ip_Send pk']\<rparr>))"
    using k3(5) mv(5) pk'
    by (simp add: tcp_move_recv_ofo_buffer_def k4_def [symmetric] wake_recv_def k5_def put_sk_def map_upd_triv)
  define s5 where "s5 = put_sk a k5 ((put_sk a k4 s1)\<lparr>sent := sent s1 @ [Ip_Send pk']\<rparr>)"
  have s5: "socks s5 a = Some k5" by (simp add: s5_def)
  have "tcp_process L (Some a) cb s = established_ack L a cb s"
    using assms(3) k cb by (simp add: tcp_process_def)
  also have "\<dots> = Inr (put_sk a (k5\<lparr>rcv_buf_lock := False\<rparr>) s5)"
    using first s2(1) add move cb s5
    by (simp add: established_ack_def k3_def [symmetric] s5_def [symmetric] unlock_rcv_buf_def)
  finally have "tcp_process L (Some a) cb s = Inr (put_sk a (k5\<lparr>rcv_buf_lock := False\<rparr>) s5)" .
  moreover have "rx_sock base S e vs (k5\<lparr>rcv_buf_lock := False\<rparr>)"
    using k3 mv by (auto simp: rx_sock_def k5_def k4_def)
  moreover have "rcv_buf (k5\<lparr>rcv_buf_lock := False\<rparr>) = rb" by (simp add: k5_def k4_def)
  ultimately show ?thesis
    using mv s5 unfolding ps1_def
    by (intro exI [of _ "put_sk a (k5\<lparr>rcv_buf_lock := False\<rparr>) s5"] exI [of _ "k5\<lparr>rcv_buf_lock := False\<rparr>"]
        exI [of _ us] exI [of _ vs] exI [of _ e]) simp
qed

section \<open>Arrivals and reads in any order\<close>

datatype rx_op = Arrive tcp_cb | Read int

fun read_bytes :: "read_outcome \<Rightarrow> bytes" where
  "read_bytes (Read_Ret n d) = d"
| "read_bytes (Read_Wait b) = []"

fun rx_run :: "tcp_env \<Rightarrow> nat \<Rightarrow> rx_op list \<Rightarrow> tcp_stack \<Rightarrow> (bytes \<times> tcp_stack) res" where
  "rx_run L a [] s = Inr ([], s)"
| "rx_run L a (Arrive cb # ops) s = res_bind (tcp_process L (Some a) cb s) (rx_run L a ops)"
| "rx_run L a (Read n # ops) s = res_bind (tcp_sock_read a n s) (\<lambda>(r, s).
     res_map (\<lambda>(d, s). (read_bytes r @ d, s)) (rx_run L a ops s))"

lemma read_step:
  assumes "socks s a = Some k" "rx_sock base S j ps k"
  shows "\<exists>r s' k'. tcp_sock_read a n s = Inr (r, s') \<and> socks s' a = Some k' \<and> rx_sock base S j ps k' \<and>
    rb_list (rcv_buf k) = read_bytes r @ rb_list (rcv_buf k') \<and> rsize (rcv_buf k') = rsize (rcv_buf k)"
proof -
  note k = assms(2) [unfolded rx_sock_def]
  define k1 where "k1 = k\<lparr>rcv_buf_lock := True\<rparr>"
  have lock: "lock_rcv_buf a s = Inr (put_sk a k1 s)" using assms(1) k by (simp add: lock_rcv_buf_def k1_def)
  have rd: "tcp_sock_read a n s = read_loop a n s" using assms(1) k by (simp add: tcp_sock_read_def)
  show ?thesis
  proof (cases "ring_buffer_empty (rcv_buf k)")
    case True
    obtain r w where w: "sleep_on_enter (wait_recv k) = (r, w)" by fastforce
    have "read_loop a n s = Inr (Read_Wait (r = Blocks), put_sk a (k1\<lparr>rcv_buf_lock := False, wait_recv := w\<rparr>) s)"
      using lock True w k by (simp add: read_loop_def k1_def)
    then show ?thesis using rd k by (simp add: rx_sock_def k1_def)
  next
    case False
    show ?thesis
    proof (cases "0 < n")
      case False
      with lock \<open>\<not> ring_buffer_empty (rcv_buf k)\<close>
      have "read_loop a n s = Inr (Read_Ret 0 [], put_sk a (k1\<lparr>rcv_buf_lock := False\<rparr>) s)"
        by (simp add: read_loop_def k1_def)
      then show ?thesis using rd k by (simp add: rx_sock_def k1_def)
    next
      case True
      define avail where "avail = min n (ring_buffer_used (rcv_buf k))"
      have inv: "rb_inv (rcv_buf k)" using k by simp
      then have "0 \<le> avail" using used_bounds True by (simp add: avail_def)
      then obtain m rb where rb: "read_ring_buffer (rcv_buf k) avail = (m, take (nat avail) (rb_list (rcv_buf k)), rb)"
        "rb_inv rb" "rb_list rb = drop (nat avail) (rb_list (rcv_buf k))" "rsize rb = rsize (rcv_buf k)"
        using read_ring_buffer_spec [OF inv] by metis
      have "read_loop a n s = Inr (Read_Ret avail (take (nat avail) (rb_list (rcv_buf k))),
          put_sk a (k1\<lparr>rcv_buf := rb, rcv_wnd := rcv_wnd k + of_int avail, rcv_buf_lock := False\<rparr>) s)"
        using lock True \<open>\<not> ring_buffer_empty (rcv_buf k)\<close> rb(1)
        by (simp add: read_loop_def k1_def avail_def Let_def)
      then show ?thesis using rd k rb by (simp add: rx_sock_def k1_def)
    qed
  qed
qed

text \<open>Safety: whatever arrives of \<open>S\<close>, the bytes read and buffered are a prefix of \<open>S\<close>.\<close>

lemma rx_run_prefix:
  assumes "fits base S" "socks s a = Some k" "rx_sock base S j ps k"
    "\<forall>cb. Arrive cb \<in> set ops \<longrightarrow> (\<exists>p. data_seg base S p cb)"
  shows "\<exists>d s' j' ps' k'. rx_run L a ops s = Inr (d, s') \<and> socks s' a = Some k' \<and> rx_sock base S j' ps' k' \<and>
    j \<le> j' \<and> d @ rb_list (rcv_buf k') = rb_list (rcv_buf k) @ sub j (j' - j) S"
  using assms(2-)
proof (induction ops arbitrary: s k j ps)
  case Nil
  then show ?case
    by (intro exI [of _ "[]"] exI [of _ s] exI [of _ j] exI [of _ ps] exI [of _ k]) (simp add: sub_def)
next
  case (Cons x ops)
  have ops: "\<forall>cb. Arrive cb \<in> set ops \<longrightarrow> (\<exists>p. data_seg base S p cb)" using Cons.prems(3) by simp
  show ?case
  proof (cases x)
    case (Arrive cb)
    then obtain p where "data_seg base S p cb" using Cons.prems(3) by auto
    from process_segment [OF assms(1) this Cons.prems(1,2), of L] obtain s1 k1 vs e where
      1: "tcp_process L (Some a) cb s = Inr s1" "socks s1 a = Some k1" "j \<le> e" "rx_sock base S e vs k1"
      "rb_list (rcv_buf k1) = rb_list (rcv_buf k) @ sub j (e - j) S" by blast
    from Cons.IH [OF 1(2,4) ops] obtain d s' j' ps' k' where
      2: "rx_run L a ops s1 = Inr (d, s')" "socks s' a = Some k'" "rx_sock base S j' ps' k'" "e \<le> j'"
      "d @ rb_list (rcv_buf k') = rb_list (rcv_buf k1) @ sub e (j' - e) S" by blast
    have "sub j (e - j) S @ sub e (j' - e) S = sub j (j' - j) S"
      using take_add [of "e - j" "j' - e" "drop j S"] 1(3) 2(4) by (simp add: sub_def)
    then show ?thesis using 1 2 Arrive by (intro exI [of _ d] exI [of _ s'] exI [of _ j'] exI [of _ ps'] exI [of _ k']) simp
  next
    case (Read n)
    from read_step [OF Cons.prems(1,2), of n] obtain r s1 k1 where
      1: "tcp_sock_read a n s = Inr (r, s1)" "socks s1 a = Some k1" "rx_sock base S j ps k1"
      "rb_list (rcv_buf k) = read_bytes r @ rb_list (rcv_buf k1)" by blast
    from Cons.IH [OF 1(2,3) ops] obtain d s' j' ps' k' where
      2: "rx_run L a ops s1 = Inr (d, s')" "socks s' a = Some k'" "rx_sock base S j' ps' k'" "j \<le> j'"
      "d @ rb_list (rcv_buf k') = rb_list (rcv_buf k1) @ sub j (j' - j) S" by blast
    then show ?thesis using 1 Read
      by (intro exI [of _ "read_bytes r @ d"] exI [of _ s'] exI [of _ j'] exI [of _ ps'] exI [of _ k']) simp
  qed
qed

section \<open>Completeness\<close>

text \<open>The segments of a stream cut into pieces of the lengths \<open>ns\<close>.\<close>

fun segs_from :: "nat \<Rightarrow> nat list \<Rightarrow> (nat \<times> nat) list" where
  "segs_from i [] = []"
| "segs_from i (n # ns) = (i, n) # segs_from (i + n) ns"

definition bound :: "(nat \<times> nat) set \<Rightarrow> nat \<Rightarrow> bool" where
  "bound P j \<longleftrightarrow> j = 0 \<or> (\<exists>p\<in>P. fst p + snd p = j)"

definition partition_of :: "bytes \<Rightarrow> (nat \<times> nat) set \<Rightarrow> bool" where
  "partition_of S P \<longleftrightarrow> (\<forall>p\<in>P. pair_ok S p) \<and>
     (\<forall>p\<in>P. \<forall>q\<in>P. p \<noteq> q \<longrightarrow> fst p + snd p \<le> fst q \<or> fst q + snd q \<le> fst p) \<and>
     (\<forall>j. bound P j \<longrightarrow> j < length S \<longrightarrow> (\<exists>p\<in>P. fst p = j))"

lemma segs_from_bounds:
  "p \<in> set (segs_from i ns) \<Longrightarrow> \<forall>n\<in>set ns. 0 < n \<Longrightarrow> i \<le> fst p \<and> 0 < snd p \<and> fst p + snd p \<le> i + sum_list ns"
  by (induction ns arbitrary: i) fastforce+

lemma segs_from_apart:
  "p \<in> set (segs_from i ns) \<Longrightarrow> q \<in> set (segs_from i ns) \<Longrightarrow> \<forall>n\<in>set ns. 0 < n \<Longrightarrow> p \<noteq> q \<Longrightarrow>
   fst p + snd p \<le> fst q \<or> fst q + snd q \<le> fst p"
proof (induction ns arbitrary: i)
  case (Cons n ns)
  then show ?case using segs_from_bounds [of p "i + n" ns] segs_from_bounds [of q "i + n" ns] by auto
qed simp

lemma segs_from_next:
  "j = i \<or> (\<exists>p\<in>set (segs_from i ns). fst p + snd p = j) \<Longrightarrow> j < i + sum_list ns \<Longrightarrow> \<forall>n\<in>set ns. 0 < n \<Longrightarrow>
   \<exists>p\<in>set (segs_from i ns). fst p = j"
proof (induction ns arbitrary: i)
  case (Cons n ns)
  have "\<exists>p\<in>set (segs_from (i + n) ns). fst p = j" if "j \<noteq> i"
    using Cons.IH [of "i + n"] Cons.prems that by (fastforce simp: add.assoc)
  then show ?case by (cases "j = i") auto
qed simp

lemma segs_partition:
  assumes "\<forall>n\<in>set ns. 0 < n" "sum_list ns = length S"
  shows "partition_of S (set (segs_from 0 ns))"
  unfolding partition_of_def bound_def pair_ok_def
  using segs_from_bounds [OF _ assms(1), of _ 0] segs_from_apart [OF _ _ assms(1), of _ 0]
    segs_from_next [OF _ _ assms(1), of _ 0] assms(2) by auto

lemma partition_ofD:
  assumes "partition_of S P" "p \<in> P"
  shows "0 < snd p" "fst p + snd p \<le> length S" "pair_ok S p"
    "q \<in> P \<Longrightarrow> fst p < fst q \<Longrightarrow> fst p + snd p \<le> fst q" "q \<in> P \<Longrightarrow> fst p = fst q \<Longrightarrow> p = q"
proof -
  have ok: "pair_ok S r" if "r \<in> P" for r using assms(1) that by (simp add: partition_of_def)
  show "0 < snd p" "fst p + snd p \<le> length S" "pair_ok S p" using ok [OF assms(2)] by (simp_all add: pair_ok_def)
  have apart: "p \<noteq> q \<Longrightarrow> q \<in> P \<Longrightarrow> fst p + snd p \<le> fst q \<or> fst q + snd q \<le> fst p"
    using assms by (simp add: partition_of_def)
  show "fst p + snd p \<le> fst q" if q: "q \<in> P" "fst p < fst q"
  proof -
    have "p \<noteq> q" using q(2) by blast
    then show ?thesis using apart q by linarith
  qed
  show "p = q" if "q \<in> P" "fst p = fst q"
  proof (rule ccontr)
    assume "p \<noteq> q"
    with apart that ok [OF that(1)] ok [OF assms(2)] show False by (auto simp: pair_ok_def)
  qed
qed

definition rx_done :: "(nat \<times> nat) set \<Rightarrow> (nat \<times> nat) set \<Rightarrow> nat \<Rightarrow> (nat \<times> nat) list \<Rightarrow> bool" where
  "rx_done P R j ps \<longleftrightarrow> R \<subseteq> P \<and> bound P j \<and> sorted_wrt (<) (map fst ps) \<and> set ps = {p\<in>R. j < fst p} \<and>
     (\<forall>p\<in>R. fst p \<noteq> j)"

lemma bound_split:
  assumes "partition_of S P" "bound P j" "p \<in> P"
  shows "fst p + snd p \<le> j \<or> j \<le> fst p"
proof (cases "j = 0")
  case False
  then obtain q where q: "q \<in> P" "fst q + snd q = j" using assms(2) by (auto simp: bound_def)
  show ?thesis
  proof (cases "fst p" "fst q" rule: linorder_cases)
    case less
    then show ?thesis using partition_ofD(4) [OF assms(1) assms(3) q(1)] q(2) by linarith
  next
    case equal
    then show ?thesis using partition_ofD(5) [OF assms(1) assms(3) q(1)] q(2) by simp
  next
    case greater
    then show ?thesis using partition_ofD(4) [OF assms(1) q(1) assms(3)] q(2) by simp
  qed
qed simp

lemma queued_done:
  assumes "partition_of S P" "rx_done P R j ps" "p \<in> P"
  shows "sorted_wrt (<) (map fst (queued j p ps)) \<and> set (queued j p ps) = {q\<in>insert p R. j \<le> fst q}"
proof (cases "fst p + snd p \<le> j")
  case True
  then have "fst p < j" using partition_ofD(1) [OF assms(1,3)] by simp
  then show ?thesis using True assms(2) by (auto simp: queued_def rx_done_def)
next
  case False
  then have j: "j \<le> fst p" using bound_split [OF assms(1) _ assms(3)] assms(2) by (auto simp: rx_done_def)
  have uniq: "q = p" if "q \<in> P" "fst q = fst p" for q
    using partition_ofD(5) [OF assms(1) that(1) assms(3) that(2)] .
  have ps: "set ps = {q\<in>R. j \<le> fst q}" "sorted_wrt (<) (map fst ps)" "R \<subseteq> P"
    using assms(2) by (auto simp: rx_done_def le_less)
  show ?thesis
  proof (cases "pins p ps")
    case None
    then have "p \<in> set ps" using pins_None [OF None] uniq ps(1,3) by blast
    then show ?thesis using None False ps by (auto simp: queued_def)
  next
    case (Some qs)
    then show ?thesis using pins_set [OF Some] pins_sorted [OF Some ps(2)] False ps j by (auto simp: queued_def)
  qed
qed

lemma run_end_last:
  "run_end j us e \<Longrightarrow> us \<noteq> [] \<Longrightarrow> fst (last us) + snd (last us) = e"
proof (induction us arbitrary: j)
  case (Cons u us)
  then show ?case by (cases us) auto
qed simp

lemma run_done:
  assumes "partition_of S P" "bound P j" "R \<subseteq> P" "sorted_wrt (<) (map fst (us @ vs))" "set (us @ vs) = {q\<in>R. j \<le> fst q}"
    "run_end j us e" "j \<le> e" "vs = [] \<or> fst (hd vs) \<noteq> e"
  shows "rx_done P R e vs"
proof -
  have P: "set us \<subseteq> P" "set vs \<subseteq> P" using assms(3,5) by auto
  have b: "bound P e"
  proof (cases "us = []")
    case False
    then show ?thesis using run_end_last [OF assms(6)] P(1) last_in_set unfolding bound_def by blast
  qed (use assms(2,6) in simp)
  have up: "e \<le> fst v" if v: "v \<in> set vs" for v
  proof (cases "us = []")
    case True
    then show ?thesis using assms(5,6) v by auto
  next
    case False
    then have "fst (last us) < fst v" using assms(4) v last_in_set [OF False] by (auto simp: sorted_wrt_append)
    moreover have "last us \<in> P" "v \<in> P" using P v last_in_set [OF False] by auto
    ultimately have "fst (last us) + snd (last us) \<le> fst v" using partition_ofD(4) [OF assms(1)] by blast
    then show ?thesis using run_end_last [OF assms(6) False] by simp
  qed
  have ne: "fst v \<noteq> e" if v: "v \<in> set vs" for v
  proof -
    obtain w ws where vs: "vs = w # ws" using v by (cases vs) auto
    then have "e < fst w" using assms(8) up [of w] by simp
    then show ?thesis using v vs assms(4) by (force simp: sorted_wrt_append)
  qed
  have low: "fst u < e" if u: "u \<in> set us" for u
  proof -
    have False if "e \<le> fst u"
    proof -
      have "fst u \<le> fst (last us)"
        using u assms(4) by (cases us rule: rev_cases) (auto simp: sorted_wrt_append less_imp_le)
      moreover have ne: "us \<noteq> []" using u by auto
      have "fst (last us) + snd (last us) = e" "0 < snd (last us)"
        using run_end_last [OF assms(6) ne] partition_ofD(1) [OF assms(1) subsetD [OF P(1) last_in_set [OF ne]]] by simp_all
      ultimately show False using that by linarith
    qed
    then show ?thesis by fastforce
  qed
  have "set vs = {q\<in>R. e < fst q}"
  proof (intro equalityI subsetI)
    fix q assume "q \<in> set vs"
    then show "q \<in> {q\<in>R. e < fst q}" using up [of q] ne [of q] assms(5) by auto
  next
    fix q assume q: "q \<in> {q\<in>R. e < fst q}"
    then have "q \<in> set (us @ vs)" using assms(5,7) by auto
    then show "q \<in> set vs" using low [of q] q by auto
  qed
  moreover have "fst q \<noteq> e" if "q \<in> R" for q
  proof
    assume e: "fst q = e"
    then have "q \<in> set (us @ vs)" using assms(5,7) that by auto
    then show False using low [of q] ne [of q] e by auto
  qed
  ultimately show ?thesis using assms(3,4) b by (auto simp: rx_done_def sorted_wrt_append)
qed

lemma rx_run_complete:
  assumes "fits base S" "partition_of S P" "length S \<le> 65535" "socks s a = Some k" "rx_sock base S j ps k"
    "rx_done P R j ps" "length (rb_list (rcv_buf k)) \<le> j" "rsize (rcv_buf k) = 65536"
    "\<forall>cb. Arrive cb \<in> set ops \<longrightarrow> (\<exists>p\<in>P. data_seg base S p cb)"
  shows "\<exists>d s' j' ps' k'. rx_run L a ops s = Inr (d, s') \<and> socks s' a = Some k' \<and> rx_sock base S j' ps' k' \<and> j \<le> j' \<and>
    rx_done P (R \<union> {p\<in>P. \<exists>cb. Arrive cb \<in> set ops \<and> data_seg base S p cb}) j' ps' \<and>
    d @ rb_list (rcv_buf k') = rb_list (rcv_buf k) @ sub j (j' - j) S"
  using assms(4-)
proof (induction ops arbitrary: s k j ps R)
  case Nil
  then show ?case
    by (intro exI [of _ "[]"] exI [of _ s] exI [of _ j] exI [of _ ps] exI [of _ k]) (simp add: sub_def)
next
  case (Cons x ops)
  have ops: "\<forall>cb. Arrive cb \<in> set ops \<longrightarrow> (\<exists>p\<in>P. data_seg base S p cb)" using Cons.prems(6) by simp
  show ?case
  proof (cases x)
    case (Arrive cb)
    then obtain p where p: "p \<in> P" "data_seg base S p cb" using Cons.prems(6) by auto
    have only: "q = p" if "q \<in> P" "data_seg base S q cb" for q
      using that p sq_cmp(3) [OF assms(1), of "fst q" "fst p"] by (auto simp: data_seg_def pair_ok_def prod_eq_iff)
    from process_segment [OF assms(1) p(2) Cons.prems(1,2), of L] obtain s1 k1 us vs e where
      1: "tcp_process L (Some a) cb s = Inr s1" "socks s1 a = Some k1" "queued j p ps = us @ vs" "run_end j us e" "j \<le> e"
      "rx_sock base S e vs k1" "rsize (rcv_buf k1) = rsize (rcv_buf k)"
      "rb_list (rcv_buf k1) = rb_list (rcv_buf k) @ sub j (e - j) S"
      "vs = [] \<or> fst (hd vs) \<noteq> e \<or> rb_capacity (rcv_buf k1) < length (rb_list (rcv_buf k1)) + snd (hd vs)" by blast
    have len: "length (rb_list (rcv_buf k1)) \<le> e" using 1(5,8) Cons.prems(4) by (simp add: sub_def)
    note q = queued_done [OF assms(2) Cons.prems(3) p(1), unfolded 1(3)]
    have "vs = [] \<or> fst (hd vs) \<noteq> e"
    proof (rule ccontr)
      assume c: "\<not> (vs = [] \<or> fst (hd vs) \<noteq> e)"
      then have "hd vs \<in> P" using q p(1) Cons.prems(3) by (cases vs) (auto simp: rx_done_def)
      then have "e + snd (hd vs) \<le> length S" using c partition_ofD(2) [OF assms(2), of "hd vs"] by simp
      moreover have "rb_capacity (rcv_buf k1) = 65535" using 1(7) Cons.prems(5) by (simp add: rb_capacity_def)
      ultimately show False using c 1(9) len assms(3) by auto
    qed
    then have dn: "rx_done P (insert p R) e vs"
      using run_done [OF assms(2) _ _ _ _ 1(4,5), of "insert p R" vs] q p(1) Cons.prems(3) by (auto simp: rx_done_def)
    from Cons.IH [OF 1(2,6) dn len _ ops] 1(7) Cons.prems(5) obtain d s' j' ps' k' where
      2: "rx_run L a ops s1 = Inr (d, s')" "socks s' a = Some k'" "rx_sock base S j' ps' k'" "e \<le> j'"
      "rx_done P (insert p R \<union> {p\<in>P. \<exists>cb. Arrive cb \<in> set ops \<and> data_seg base S p cb}) j' ps'"
      "d @ rb_list (rcv_buf k') = rb_list (rcv_buf k1) @ sub e (j' - e) S" by auto
    have "insert p R \<union> {p\<in>P. \<exists>cb. Arrive cb \<in> set ops \<and> data_seg base S p cb} =
        R \<union> {p\<in>P. \<exists>cb. Arrive cb \<in> set (x # ops) \<and> data_seg base S p cb}" (is "insert p R \<union> ?A = R \<union> ?B")
    proof -
      have "?B = {q\<in>P. data_seg base S q cb} \<union> ?A" using Arrive by auto
      also have "{q\<in>P. data_seg base S q cb} = {p}" using p only by blast
      finally show ?thesis by simp
    qed
    moreover have "sub j (e - j) S @ sub e (j' - e) S = sub j (j' - j) S"
      using take_add [of "e - j" "j' - e" "drop j S"] 1(5) 2(4) by (simp add: sub_def)
    ultimately show ?thesis using 1 2 Arrive
      by (intro exI [of _ d] exI [of _ s'] exI [of _ j'] exI [of _ ps'] exI [of _ k']) simp
  next
    case (Read n)
    from read_step [OF Cons.prems(1,2), of n] obtain r s1 k1 where
      1: "tcp_sock_read a n s = Inr (r, s1)" "socks s1 a = Some k1" "rx_sock base S j ps k1"
      "rb_list (rcv_buf k) = read_bytes r @ rb_list (rcv_buf k1)" "rsize (rcv_buf k1) = rsize (rcv_buf k)" by blast
    then have "length (rb_list (rcv_buf k1)) \<le> j" using Cons.prems(4) by simp
    from Cons.IH [OF 1(2,3) Cons.prems(3) this _ ops] 1(5) Cons.prems(5) obtain d s' j' ps' k' where
      2: "rx_run L a ops s1 = Inr (d, s')" "socks s' a = Some k'" "rx_sock base S j' ps' k'" "j \<le> j'"
      "rx_done P (R \<union> {p\<in>P. \<exists>cb. Arrive cb \<in> set ops \<and> data_seg base S p cb}) j' ps'"
      "d @ rb_list (rcv_buf k') = rb_list (rcv_buf k1) @ sub j (j' - j) S" by auto
    then show ?thesis using 1 Read
      by (intro exI [of _ "read_bytes r @ d"] exI [of _ s'] exI [of _ j'] exI [of _ ps'] exI [of _ k']) simp
  qed
qed

section \<open>Properties\<close>

definition fresh_receiver :: "u32 \<Rightarrow> tcp_sock \<Rightarrow> bool" where
  "fresh_receiver base k \<longleftrightarrow> state k = TCP_ESTABLISHED \<and> \<not> rcv_buf_lock k \<and> rcv_nxt k = base \<and>
     rcv_ofo_buf k = [] \<and> rcv_buf k = alloc_ring_buffer 65535"

lemma fresh_receiver_rx:
  assumes "fresh_receiver base k"
  shows "rx_sock base S 0 [] k" "rb_list (rcv_buf k) = []" "rsize (rcv_buf k) = 65536"
  using assms alloc_inv [of 65535]
  by (simp_all add: fresh_receiver_def rx_sock_def sq_def alloc_ring_buffer_def)

text \<open>
  Property C2: Stream integrity. Let segments of a byte stream \<open>S\<close> arrive at an established socket that
  expects its first byte, in any order, repeated or overlapping, and let the application
  read in between. The stack does not fail, and the bytes the application has read, followed by
  those in the receive buffer, are exactly the first \<open>j\<close> bytes of \<open>S\<close>, where the socket
  expects the sequence number of byte \<open>j\<close> next. The sequence numbers of \<open>S\<close> do not pass
  \<open>2\<^sup>3\<^sup>1\<close>, where the comparisons of the code overflow.
\<close>
theorem tcp_stream_integrity:
  assumes "fits base S" "socks s a = Some k" "fresh_receiver base k"
    "\<forall>cb. Arrive cb \<in> set ops \<longrightarrow> (\<exists>p. data_seg base S p cb)"
  shows "\<exists>d s' k' j. rx_run L a ops s = Inr (d, s') \<and> socks s' a = Some k' \<and> j \<le> length S \<and>
    rcv_nxt k' = base + of_nat j \<and> d @ rb_list (rcv_buf k') = take j S"
proof -
  from rx_run_prefix [OF assms(1,2) fresh_receiver_rx(1) [OF assms(3)] assms(4), of L]
  obtain d s' j ps k' where "rx_run L a ops s = Inr (d, s')" "socks s' a = Some k'" "rx_sock base S j ps k'"
    "d @ rb_list (rcv_buf k') = rb_list (rcv_buf k) @ sub 0 (j - 0) S" by blast
  then show ?thesis
    using fresh_receiver_rx(2) [OF assms(3)]
    by (intro exI [of _ d] exI [of _ s'] exI [of _ k'] exI [of _ j]) (simp add: rx_sock_def sub_def sq_def)
qed

definition example_cb :: "u32 \<Rightarrow> bytes \<Rightarrow> tcp_cb" where
  "example_cb seq d = \<lparr>cb_saddr = 0x0a000001, cb_daddr = 0x0a000002, cb_sport = 12345, cb_dport = 80,
     cb_seq = seq, cb_seq_end = seq + of_nat (length d), cb_ack = 1, cb_rwnd = 65535, cb_flags = 0x18,
     payload = d, pl_len = int (length d)\<rparr>"

definition example_established :: tcp_sock where
  "example_established = new_sock\<lparr>state := TCP_ESTABLISHED, rcv_nxt := 1, snd_nxt := 1, snd_una := 1\<rparr>"

definition example_stack :: tcp_stack where
  "example_stack = \<lparr>lh = init_list_head \<lparr>nxt = \<lambda>_. None, prv = \<lambda>_. None\<rparr> Timer_List,
     socks = [0 \<mapsto> example_established], nsock = 1, sent = []\<rparr>"

definition example_env :: tcp_env where
  "example_env = \<lparr>l_ip_init_hdr = \<lambda>i p sip dip len proto. fst (ip_init_hdr p sip dip len proto example_router),
     l_route = \<lambda>_. Some 0x0a000001, l_malloc = \<lambda>i n. replicate n 0, l_rand = \<lambda>i. 42\<rparr>"

lemma example_receiver: "fresh_receiver 1 example_established" "socks example_stack 0 = Some example_established"
  by (simp_all add: fresh_receiver_def example_established_def new_sock_def example_stack_def)

lemma example_segments:
  "data_seg 1 [7, 8, 9] (0, 2) (example_cb 1 [7, 8])" "data_seg 1 [7, 8, 9] (2, 1) (example_cb 3 [9])" "fits 1 [7, 8, 9]"
  by (simp_all add: data_seg_def pair_ok_def example_cb_def sq_def sub_def fits_def)

definition example_ops :: "rx_op list" where
  "example_ops = [Arrive (example_cb 3 [9]), Read 10, Arrive (example_cb 1 [7, 8])]"

lemma example_ops_segments:
  "\<forall>cb. Arrive cb \<in> set example_ops \<longrightarrow> (\<exists>p. data_seg 1 [7, 8, 9] p cb)"
  "\<forall>cb. Arrive cb \<in> set example_ops \<longrightarrow> (\<exists>p\<in>set (segs_from 0 [2, 1]). data_seg 1 [7, 8, 9] p cb)"
  "\<forall>p\<in>set (segs_from 0 [2, 1]). \<exists>cb. Arrive cb \<in> set example_ops \<and> data_seg 1 [7, 8, 9] p cb"
  using example_segments unfolding example_ops_def by (auto simp: numeral_2_eq_2)

theorem tcp_stream_integrity_witness:
  "\<exists>d s' k' j. rx_run example_env 0 example_ops example_stack = Inr (d, s') \<and>
     socks s' 0 = Some k' \<and> j \<le> length [7, 8, 9 :: u8] \<and> rcv_nxt k' = 1 + of_nat j \<and> d @ rb_list (rcv_buf k') = take j [7, 8, 9]"
  by (rule tcp_stream_integrity [OF example_segments(3) example_receiver(2,1) example_ops_segments(1)])

lemma reassembled:
  assumes "fits base S" "length S \<le> 65535" "\<forall>n\<in>set ns. 0 < n" "sum_list ns = length S"
    "socks s a = Some k" "fresh_receiver base k"
    "\<forall>cb. Arrive cb \<in> set ops \<longrightarrow> (\<exists>p\<in>set (segs_from 0 ns). data_seg base S p cb)"
    "\<forall>p\<in>set (segs_from 0 ns). \<exists>cb. Arrive cb \<in> set ops \<and> data_seg base S p cb"
  shows "\<exists>d s' k'. rx_run L a ops s = Inr (d, s') \<and> socks s' a = Some k' \<and>
    d @ rb_list (rcv_buf k') = S \<and> rcv_ofo_buf k' = [] \<and> rcv_nxt k' = base + of_nat (length S)"
proof -
  define P where "P = set (segs_from 0 ns)"
  have P: "partition_of S P" unfolding P_def by (rule segs_partition [OF assms(3,4)])
  have "rx_done P {} 0 []" by (simp add: rx_done_def bound_def)
  from rx_run_complete [OF assms(1) P assms(2,5) fresh_receiver_rx(1) [OF assms(6)] this, of ops L]
  obtain d s' j ps k' where 1: "rx_run L a ops s = Inr (d, s')" "socks s' a = Some k'" "rx_sock base S j ps k'"
    "rx_done P ({} \<union> {p\<in>P. \<exists>cb. Arrive cb \<in> set ops \<and> data_seg base S p cb}) j ps"
    "d @ rb_list (rcv_buf k') = rb_list (rcv_buf k) @ sub 0 (j - 0) S"
    using fresh_receiver_rx(2,3) [OF assms(6)] assms(7) unfolding P_def by auto
  have all: "{} \<union> {p\<in>P. \<exists>cb. Arrive cb \<in> set ops \<and> data_seg base S p cb} = P" using assms(8) by (auto simp: P_def)
  have dn: "rx_done P P j ps" using 1(4) unfolding all .
  have "\<not> j < length S" using dn P by (auto simp: rx_done_def partition_of_def)
  then have j: "j = length S" using 1(3) by (simp add: rx_sock_def)
  have "ps = []"
  proof (rule ccontr)
    assume "ps \<noteq> []"
    then obtain p where "p \<in> P" "j < fst p" using dn by (cases ps) (auto simp: rx_done_def)
    then show False using partition_ofD(2) [OF P, of p] j by simp
  qed
  then show ?thesis
    using 1 j fresh_receiver_rx(2) [OF assms(6)]
    by (intro exI [of _ d] exI [of _ s'] exI [of _ k']) (simp add: rx_sock_def sub_def sq_def)
qed

text \<open>
  Property C3: Reordering and duplication are repaired. A stream of at most 65535 bytes is cut into
  segments; they arrive in any order, each at least once, with reads in between. Then the
  bytes read followed by those in the receive buffer are the whole stream, and nothing
  waits in the out-of-order buffer.
\<close>
theorem tcp_reassembly_complete:
  assumes "fits base S" "length S \<le> 65535" "\<forall>n\<in>set ns. 0 < n" "sum_list ns = length S"
    "socks s a = Some k" "fresh_receiver base k"
    "\<forall>cb. Arrive cb \<in> set ops \<longrightarrow> (\<exists>p\<in>set (segs_from 0 ns). data_seg base S p cb)"
    "\<forall>p\<in>set (segs_from 0 ns). \<exists>cb. Arrive cb \<in> set ops \<and> data_seg base S p cb"
  shows "\<exists>d s' k'. rx_run L a ops s = Inr (d, s') \<and> socks s' a = Some k' \<and>
    d @ rb_list (rcv_buf k') = S \<and> rcv_ofo_buf k' = [] \<and> rcv_nxt k' = base + of_nat (length S)"
  by (rule reassembled [OF assms])

theorem tcp_reassembly_complete_witness:
  "\<exists>d s' k'. rx_run example_env 0 example_ops example_stack = Inr (d, s') \<and> socks s' 0 = Some k' \<and>
     d @ rb_list (rcv_buf k') = [7, 8, 9] \<and> rcv_ofo_buf k' = [] \<and> rcv_nxt k' = 1 + of_nat (length [7, 8, 9 :: u8])"
  by (rule tcp_reassembly_complete [OF example_segments(3) _ _ _ example_receiver(2,1) example_ops_segments(2,3)]) simp_all

end
