(* ===== verification/Tcp_Wire.thy ===== *)
theory Tcp_Wire
  imports Tcp_Api
begin

text \<open>
  Packets on the wire. Under the contract \<open>libnet\<close> of the environment, every packet that the
  stack builds is accepted by \<^verbatim>\<open>handle_tcp_packet\<close> of the other side and parsed into a control
  block with the addresses, ports, numbers, flags, window and data it was built from. The
  contract is met by the \<^verbatim>\<open>ip_init_hdr\<close> of the router, whose source the repository has.
\<close>

section \<open>Header fields\<close>

definition hdr34 :: "u16 \<Rightarrow> u16 \<Rightarrow> u32 \<Rightarrow> u32 \<Rightarrow> u8 \<Rightarrow> u16 \<Rightarrow> bytes \<Rightarrow> bool" where
  "hdr34 sport dport seq ack flags rwnd p \<longleftrightarrow> th_sport 34 p = htons sport \<and> th_dport 34 p = htons dport \<and>
     th_seq 34 p = htonl seq \<and> th_ack 34 p = htonl ack \<and> th_off 34 p = 5 \<and> th_flags 34 p = flags \<and>
     th_rwnd 34 p = htons rwnd"

definition ip34 :: "u32 \<Rightarrow> u32 \<Rightarrow> u16 \<Rightarrow> u8 \<Rightarrow> bytes \<Rightarrow> bool" where
  "ip34 sip dip len proto p \<longleftrightarrow> ip_ihl p = 5 \<and> ip_tot_len p = htons len \<and> ip_protocol p = proto \<and>
     ip_saddr p = htonl sip \<and> ip_daddr p = htonl dip"

lemmas th_defs = th_sport_def th_dport_def th_seq_def th_ack_def th_off_def th_flags_def th_rwnd_def
lemmas ip_defs = ip_ihl_def ip_tot_len_def ip_protocol_def ip_saddr_def ip_daddr_def

lemma tcp_init_hdr_length [simp]: "54 \<le> length p \<Longrightarrow> length (tcp_init_hdr 34 sp dp sq ak fl rw p) = length p"
  by (simp add: tcp_init_hdr_def Let_def)

lemma hdr34_init: "54 \<le> length p \<Longrightarrow> hdr34 sp dp sq ak fl rw (tcp_init_hdr 34 sp dp sq ak fl rw p)"
  by (simp add: hdr34_def th_defs tcp_init_hdr_def Let_def buffer_simps)

lemma take_put: "n \<le> i \<Longrightarrow> i \<le> length p \<Longrightarrow> take n (put i bs p) = take n p"
  by (simp add: put_def min_def)

lemma drop_put: "i + length bs \<le> n \<Longrightarrow> i + length bs \<le> length p \<Longrightarrow> drop n (put i bs p) = drop n p"
  by (simp add: put_def)

lemma tcp_init_hdr_frame:
  assumes "54 \<le> length p"
  shows "take 34 (tcp_init_hdr 34 sp dp sq ak fl rw p) = take 34 p" "drop 54 (tcp_init_hdr 34 sp dp sq ak fl rw p) = drop 54 p"
  using assms by (simp_all add: tcp_init_hdr_def Let_def take_put drop_put)

lemma nth_take_eq: "take n p = take n q \<Longrightarrow> i < n \<Longrightarrow> n \<le> length p \<Longrightarrow> n \<le> length q \<Longrightarrow> p ! i = q ! i"
  by (metis nth_take)

lemma ip34_take:
  assumes "take 34 p = take 34 q" "34 \<le> length p" "34 \<le> length q" "ip34 sip dip len proto q"
  shows "ip34 sip dip len proto p"
proof -
  have "p ! i = q ! i" if "i < 34" for i using nth_take_eq [OF assms(1) that assms(2,3)] .
  then show ?thesis using assms(4) by (simp add: ip34_def ip_defs ld32_def ld16_def)
qed

lemma hdr34_drop:
  assumes "drop 34 p = drop 34 q" "54 \<le> length p" "54 \<le> length q" "hdr34 sp dp sq ak fl rw q"
  shows "hdr34 sp dp sq ak fl rw p"
proof -
  have "p ! i = q ! i" if "34 \<le> i" "i < 54" for i
    using nth_drop [of 34 p "i - 34"] nth_drop [of 34 q "i - 34"] assms(1-3) that by simp
  then show ?thesis using assms(4) by (simp add: hdr34_def th_defs ld32_def ld16_def)
qed

lemma hdr34_put50: "54 \<le> length p \<Longrightarrow> length bs = 2 \<Longrightarrow> hdr34 sp dp sq ak fl rw p \<Longrightarrow> hdr34 sp dp sq ak fl rw (put 50 bs p)"
  by (simp add: hdr34_def th_defs buffer_simps)

lemma ip34_put24: "34 \<le> length p \<Longrightarrow> length bs = 2 \<Longrightarrow> ip34 sip dip len proto p \<Longrightarrow> ip34 sip dip len proto (put 24 bs p)"
  by (simp add: ip34_def ip_defs buffer_simps)

section \<open>Parsing\<close>

definition carries :: "bytes \<Rightarrow> tcp_cb \<Rightarrow> bool" where
  "carries p cb \<longleftrightarrow> tcp_off p = 34 \<and> tcp_checksum_reads 34 p \<le> length p \<and> tcp_checksum 34 p = th_checksum 34 p \<and>
     tcp_cb_init 34 p = cb \<and> ip_protocol p = IPPROTO_TCP"

definition seg_cb :: "u32 \<Rightarrow> u32 \<Rightarrow> u16 \<Rightarrow> u16 \<Rightarrow> u32 \<Rightarrow> u32 \<Rightarrow> u8 \<Rightarrow> u16 \<Rightarrow> bytes \<Rightarrow> tcp_cb" where
  "seg_cb sip dip sport dport seq ack flags rwnd d =
     \<lparr>cb_saddr = sip, cb_daddr = dip, cb_sport = sport, cb_dport = dport, cb_seq = seq,
      cb_seq_end = seq + of_nat (length d) + (if has flags (TCP_SYN OR TCP_FIN) then 1 else 0),
      cb_ack = ack, cb_rwnd = ucast rwnd, cb_flags = flags, payload = d, pl_len = int (length d)\<rparr>"

lemma handle_carries:
  "carries p cb \<Longrightarrow> handle_tcp_packet L p s = res_bind (tcp_sock_lookup cb s) (\<lambda>tsk.
     case tsk of None \<Rightarrow> Inl Null_Deref | Some a \<Rightarrow> tcp_process L (Some a) cb s)"
  by (simp add: handle_tcp_packet_def carries_def)

lemma tcp_len_ip34:
  assumes "ip34 sip dip (of_nat (40 + n)) proto p" "n \<le> 65495"
  shows "tcp_off p = 34" "unat (ntohs (ip_tot_len p)) = 40 + n" "IP_HDR_SIZE p = 20" "unat (tcp_len p) = 20 + n"
proof -
  show h: "IP_HDR_SIZE p = 20" "tcp_off p = 34" using assms(1) by (simp_all add: ip34_def IP_HDR_SIZE_def tcp_off_def)
  show l: "unat (ntohs (ip_tot_len p)) = 40 + n"
    using assms unat_of_nat_u16 [of "40 + n"] by (simp add: ip34_def)
  have "tcp_len p = of_nat (20 + n)" using h l by (simp add: tcp_len_def)
  then show "unat (tcp_len p) = 20 + n" using assms(2) unat_of_nat_u16 [of "20 + n"] by simp
qed

lemma parse:
  assumes "length p = 54 + n" "n \<le> 65495" "ip34 sip dip (of_nat (40 + n)) IPPROTO_TCP p"
    "hdr34 sport dport seq ack flags rwnd p" "tcp_checksum 34 p = th_checksum 34 p"
  shows "carries p (seg_cb sip dip sport dport seq ack flags rwnd (drop 54 p))"
proof -
  note t = tcp_len_ip34 [OF assms(3,2)]
  have "sub (34 + TCP_HDR_SIZE 34 p) n p = drop 54 p"
    using assms(1,4) by (simp add: TCP_HDR_SIZE_def hdr34_def sub_def)
  then have "tcp_cb_init 34 p = seg_cb sip dip sport dport seq ack flags rwnd (drop 54 p)"
    using assms(1,3,4) t by (simp add: tcp_cb_init_def seg_cb_def Let_def TCP_HDR_SIZE_def hdr34_def ip34_def)
  then show ?thesis using assms(1,3,5) t by (simp add: carries_def tcp_checksum_reads_def ip34_def)
qed

text \<open>The checksum does not depend on its own field nor on that of the IP header.\<close>

lemma put_commute:
  assumes "i + length as \<le> j" "j + length bs \<le> length p"
  shows "put j bs (put i as p) = put i as (put j bs p)"
  using assms by (intro nth_equalityI) (auto simp: nth_put)

lemma tcp_checksum_own: "54 \<le> length p \<Longrightarrow> length bs = 2 \<Longrightarrow> tcp_checksum 34 (put 50 bs p) = tcp_checksum 34 p"
  by (simp add: tcp_checksum_def tcp_len_def IP_HDR_SIZE_def ip_defs buffer_simps)

lemma tcp_checksum_ip:
  assumes "length p = 54 + n" "length bs = 2" "unat (tcp_len p) = 20 + n"
  shows "tcp_checksum 34 (put 24 bs p) = tcp_checksum 34 p"
proof -
  have "put 50 [0, 0] (put 24 bs p) = put 24 bs (put 50 [0, 0] p)" using assms by (intro put_commute) simp_all
  moreover have "tcp_len (put 24 bs p) = tcp_len p" using assms by (simp add: tcp_len_def IP_HDR_SIZE_def ip_defs buffer_simps)
  moreover have "sub 34 (20 + n) (put 24 bs (put 50 [0, 0] p)) = sub 34 (20 + n) (put 50 [0, 0] p)"
    using assms by (intro sub_put_disjoint) simp_all
  ultimately show ?thesis using assms by (simp add: tcp_checksum_def ip_defs buffer_simps)
qed

lemma th_checksum_put:
  "54 \<le> length p \<Longrightarrow> th_checksum 34 (put 50 (bytes16 w) p) = w"
  "54 \<le> length p \<Longrightarrow> length bs = 2 \<Longrightarrow> th_checksum 34 (put 24 bs p) = th_checksum 34 p"
  by (simp_all add: th_checksum_def buffer_simps)

section \<open>What the stack sends\<close>

context libnet
begin

lemma init_hdr_ip34:
  "34 \<le> length p \<Longrightarrow> ip34 sip dip len proto (l_ip_init_hdr L i p sip dip len proto)"
  "34 \<le> length p \<Longrightarrow> length (l_ip_init_hdr L i p sip dip len proto) = length p"
  "34 \<le> length p \<Longrightarrow> drop 34 (l_ip_init_hdr L i p sip dip len proto) = drop 34 p"
  using init_hdr unfolding init_hdr_ok_def Let_def ip34_def by blast+

lemma control_carries:
  assumes "length m = 54"
  shows "carries (control_packet L i sip dip sport dport seq ack flags rwnd m)
    (seg_cb sip dip sport dport seq ack flags rwnd [])"
proof -
  define p0 where "p0 = l_ip_init_hdr L i m sip dip 40 IPPROTO_TCP"
  define p1 where "p1 = tcp_init_hdr 34 sport dport seq ack flags rwnd p0"
  define p2 where "p2 = put 50 (bytes16 (tcp_checksum 34 p1)) p1"
  have l: "length p0 = 54" "length p1 = 54" "length p2 = 54"
    using init_hdr_ip34(2) [of m i sip dip 40 IPPROTO_TCP] assms by (simp_all add: p0_def p1_def p2_def)
  have "ip34 sip dip 40 IPPROTO_TCP p0" using init_hdr_ip34(1) [of m] assms by (simp add: p0_def)
  then have "ip34 sip dip 40 IPPROTO_TCP p1"
    using ip34_take [of p1 p0] tcp_init_hdr_frame(1) [of p0] l by (simp add: p1_def)
  then have ip: "ip34 sip dip 40 IPPROTO_TCP p2"
    using ip34_take [of p2 p1] l by (simp add: p2_def take_put)
  have hdr: "hdr34 sport dport seq ack flags rwnd p2"
    using l by (simp add: p2_def p1_def hdr34_put50 hdr34_init)
  have "tcp_checksum 34 p2 = th_checksum 34 p2" using l by (simp add: p2_def tcp_checksum_own th_checksum_put)
  then have "carries p2 (seg_cb sip dip sport dport seq ack flags rwnd [])"
    using parse [of p2 0 sip dip sport dport seq ack flags rwnd] ip hdr l by simp
  then show ?thesis by (simp add: control_packet_def p2_def p1_def p0_def Let_def)
qed

lemma data_carries:
  assumes "length m = 54 + n" "n \<le> 65495"
  shows "carries (data_packet L i k seq m)
    (seg_cb (sk_sip k) (sk_dip k) (sk_sport k) (sk_dport k) seq (rcv_nxt k) 0x18 (rcv_wnd k) (drop 54 m))"
proof -
  let ?len = "of_nat (40 + n) :: u16"
  define p0 where "p0 = tcp_init_hdr 34 (sk_sport k) (sk_dport k) seq (rcv_nxt k) 0x18 (rcv_wnd k) m"
  define p1 where "p1 = l_ip_init_hdr L i p0 (sk_sip k) (sk_dip k) ?len IPPROTO_TCP"
  define p2 where "p2 = put 50 (bytes16 (tcp_checksum 34 p1)) p1"
  define p3 where "p3 = put 24 (bytes16 (ip_checksum2 p2)) p2"
  have l: "length p0 = 54 + n" "length p1 = 54 + n" "length p2 = 54 + n" "length p3 = 54 + n"
    using init_hdr_ip34(2) [of p0] assms by (simp_all add: p0_def p1_def p2_def p3_def)
  have d1: "drop 34 p1 = drop 34 p0" using init_hdr_ip34(3) [of p0] l by (simp add: p1_def)
  have "ip34 (sk_sip k) (sk_dip k) ?len IPPROTO_TCP p1" using init_hdr_ip34(1) [of p0] l by (simp add: p1_def)
  then have ip2: "ip34 (sk_sip k) (sk_dip k) ?len IPPROTO_TCP p2" using ip34_take [of p2 p1] l by (simp add: p2_def take_put)
  then have ip3: "ip34 (sk_sip k) (sk_dip k) ?len IPPROTO_TCP p3" using l by (simp add: p3_def ip34_put24)
  have "hdr34 (sk_sport k) (sk_dport k) seq (rcv_nxt k) 0x18 (rcv_wnd k) p0" using assms by (simp add: p0_def hdr34_init)
  then have "hdr34 (sk_sport k) (sk_dport k) seq (rcv_nxt k) 0x18 (rcv_wnd k) p1" using hdr34_drop [OF d1] l by simp
  then have "hdr34 (sk_sport k) (sk_dport k) seq (rcv_nxt k) 0x18 (rcv_wnd k) p2" using l by (simp add: p2_def hdr34_put50)
  then have hdr: "hdr34 (sk_sport k) (sk_dport k) seq (rcv_nxt k) 0x18 (rcv_wnd k) p3"
    using hdr34_drop [of p3 p2] l by (simp add: p3_def drop_put)
  have "tcp_checksum 34 p3 = th_checksum 34 p3"
    using l tcp_checksum_ip [OF l(3), of "bytes16 (ip_checksum2 p2)"] tcp_len_ip34(4) [OF ip2 assms(2)]
    by (simp add: p3_def th_checksum_put) (simp add: p2_def tcp_checksum_own th_checksum_put)
  then have c: "carries p3 (seg_cb (sk_sip k) (sk_dip k) (sk_sport k) (sk_dport k) seq (rcv_nxt k) 0x18 (rcv_wnd k) (drop 54 p3))"
    using parse [OF l(4) assms(2) ip3 hdr] by simp
  have "drop 54 p1 = drop 54 p0" using arg_cong [OF d1, of "drop 20"] by simp
  then have "drop 54 p3 = drop 54 m"
    using assms l tcp_init_hdr_frame(2) [of m] by (simp add: p3_def p2_def p0_def drop_put)
  then show ?thesis using c assms l by (simp add: data_packet_def p3_def p2_def p1_def p0_def Let_def)
qed

end

text \<open>The contract holds with the \<^verbatim>\<open>ip_init_hdr\<close> of the router in the place of that of \<^verbatim>\<open>libnet.a\<close>.\<close>

definition router_env :: "router \<Rightarrow> (u32 \<Rightarrow> u32 option) \<Rightarrow> u32 \<Rightarrow> tcp_env" where
  "router_env r route isn = \<lparr>l_ip_init_hdr = \<lambda>i p sip dip len proto. fst (ip_init_hdr p sip dip len proto r),
     l_route = route, l_malloc = \<lambda>i n. replicate n 0, l_rand = \<lambda>i. isn\<rparr>"

lemma ip_init_hdr_ok: "init_hdr_ok (\<lambda>i p sip dip len proto. fst (ip_init_hdr p sip dip len proto r))"
  unfolding init_hdr_ok_def
proof (intro allI impI)
  fix i :: nat and p :: bytes and sip dip :: u32 and len :: u16 and proto :: u8
  assume l: "34 \<le> length p"
  note f = ip_init_hdr_fields [OF l, where sa = sip and da = dip and len = len and proto = proto and s = r]
  have "drop 34 (fst (ip_init_hdr p sip dip len proto r)) = drop 34 p"
    using l f(1,9) by (intro nth_equalityI) simp_all
  then show "let q = fst (ip_init_hdr p sip dip len proto r)
        in length q = length p \<and> ip_ihl q = 5 \<and> ip_tot_len q = htons len \<and> ip_protocol q = proto \<and>
           ip_saddr q = htonl sip \<and> ip_daddr q = htonl dip \<and> drop 34 q = drop 34 p"
    using f IP_HDR_SIZE_45 [OF f(2)] by (simp add: Let_def)
qed

interpretation ln: libnet "router_env r route isn"
  by unfold_locales (simp_all add: router_env_def ip_init_hdr_ok)

section \<open>Properties\<close>

lemma drop54: "length m = 54 \<Longrightarrow> drop 54 (m @ d) = d"
  by simp

text \<open>Every stack that receives \<open>p\<close> processes it as the segment \<open>cb\<close>, on the socket it finds for it.\<close>

definition received_as :: "bytes \<Rightarrow> tcp_cb \<Rightarrow> bool" where
  "received_as p cb \<longleftrightarrow> (\<forall>L t. handle_tcp_packet L p t = res_bind (tcp_sock_lookup cb t) (\<lambda>tsk.
     case tsk of None \<Rightarrow> Inl Null_Deref | Some b \<Rightarrow> tcp_process L (Some b) cb t))"

lemma carries_received: "carries p cb \<Longrightarrow> received_as p cb"
  by (simp add: received_as_def handle_carries)

text \<open>The segment that socket \<open>k\<close> sends with the sequence number \<open>seq\<close>, the flags \<open>flags\<close> and the data \<open>d\<close>.\<close>

definition own_cb :: "tcp_sock \<Rightarrow> u32 \<Rightarrow> u8 \<Rightarrow> bytes \<Rightarrow> tcp_cb" where
  "own_cb k seq flags d = seg_cb (sk_sip k) (sk_dip k) (sk_sport k) (sk_dport k) seq (rcv_nxt k) flags (rcv_wnd k) d"

lemma data_received:
  assumes "libnet L" "length m = 54 + length d" "drop 54 m = d" "length d \<le> 65495"
  shows "received_as (data_packet L i k seq m) (own_cb k seq (TCP_PSH OR TCP_ACK) d)"
  using libnet.data_carries [OF assms(1,2,4), of i k seq] assms(3) by (intro carries_received) (simp add: own_cb_def)

lemma put_data:
  assumes "libnet L" "n = 54 + length d"
  shows "length (put 54 d (l_malloc L i n)) = n" "drop 54 (put 54 d (l_malloc L i n)) = d"
  using libnet.malloc_size [OF assms(1), of i n] assms(2) by (simp_all add: put_def)

text \<open>
  Property C10: What is sent is what is received. Each of the five functions of \<^verbatim>\<open>tcp_out.c\<close> that send builds one packet, and every
  stack that receives it accepts it and processes it as a segment with exactly the addresses, ports, numbers, flags, window and data meant:
  a data packet carries the next sequence number of the socket and its payload, and that number advances by the length; a
  retransmission carries the number and the data of the oldest entry of the send buffer; a probe carries one byte before the first
  unacknowledged one; a control packet carries any flags and no data, and a \<^verbatim>\<open>SYN\<close> or \<^verbatim>\<open>FIN\<close> advances the number by one; a
  reset answers a segment with its addresses and ports exchanged and acknowledges all of it.
\<close>
theorem tcp_wire_roundtrip:
  assumes "libnet L" "socks s a = Some k"
  shows "(length m = 54 \<and> length d \<le> 65495 \<longrightarrow> (\<exists>p. tcp_send_packet L a (m @ d) s =
      Inr ((put_sk a (k\<lparr>snd_nxt := snd_nxt k + of_nat (length d)\<rparr>) s)\<lparr>sent := sent s @ [Ip_Send p]\<rparr>) \<and>
      received_as p (own_cb k (snd_nxt k) (TCP_PSH OR TCP_ACK) d))) \<and>
    (send_buf k = e # es \<and> length (se_packet e) \<le> 65495 \<longrightarrow> (\<exists>p. tcp_retrans_send_buffer L a s =
      Inr (s\<lparr>sent := sent s @ [Ip_Send p]\<rparr>) \<and> received_as p (own_cb k (se_seq e) (TCP_PSH OR TCP_ACK) (se_packet e)))) \<and>
    (\<exists>p. tcp_send_probe_packet L a s = Inr (s\<lparr>sent := sent s @ [Ip_Send p]\<rparr>) \<and>
      received_as p (own_cb k (snd_una k - 1) (TCP_PSH OR TCP_ACK) [probe_byte])) \<and>
    (\<exists>p. tcp_send_control_packet L a flags s =
      Inr ((put_sk a (if has flags (TCP_SYN OR TCP_FIN) then k\<lparr>snd_nxt := snd_nxt k + 1\<rparr> else k) s)\<lparr>sent := sent s @ [Ip_Send p]\<rparr>) \<and>
      received_as p (own_cb k (snd_nxt k) flags [])) \<and>
    (\<exists>p. tcp_send_reset L cb s = Inr (s\<lparr>sent := sent s @ [Ip_Send p]\<rparr>) \<and>
      received_as p (seg_cb (cb_daddr cb) (cb_saddr cb) (cb_dport cb) (cb_sport cb) 0 (cb_seq_end cb) (TCP_RST OR TCP_ACK) 0 []))"
proof (intro conjI impI)
  let ?i = "length (sent s)"
  assume l: "length m = 54 \<and> length d \<le> 65495"
  then have "received_as (data_packet L ?i k (snd_nxt k) (m @ d)) (own_cb k (snd_nxt k) (TCP_PSH OR TCP_ACK) d)"
    by (intro data_received [OF assms(1)]) simp_all
  then show "\<exists>p. tcp_send_packet L a (m @ d) s =
      Inr ((put_sk a (k\<lparr>snd_nxt := snd_nxt k + of_nat (length d)\<rparr>) s)\<lparr>sent := sent s @ [Ip_Send p]\<rparr>) \<and>
      received_as p (own_cb k (snd_nxt k) (TCP_PSH OR TCP_ACK) d)"
    using assms(2) l by (auto simp: tcp_send_packet_def ip_send_def Let_def)
next
  let ?i = "length (sent s)" and ?d = "se_packet e"
  assume e: "send_buf k = e # es \<and> length (se_packet e) \<le> 65495"
  note m = put_data [OF assms(1) refl, of ?d ?i]
  have "received_as (data_packet L ?i k (se_seq e) (put 54 ?d (l_malloc L ?i (54 + length ?d)))) (own_cb k (se_seq e) (TCP_PSH OR TCP_ACK) ?d)"
    using e m by (intro data_received [OF assms(1)]) simp_all
  then show "\<exists>p. tcp_retrans_send_buffer L a s = Inr (s\<lparr>sent := sent s @ [Ip_Send p]\<rparr>) \<and>
      received_as p (own_cb k (se_seq e) (TCP_PSH OR TCP_ACK) ?d)"
    using assms(2) e by (auto simp: tcp_retrans_send_buffer_def ip_send_def Let_def add.commute)
next
  let ?i = "length (sent s)"
  note m = put_data [OF assms(1), of 55 "[probe_byte]" ?i, simplified]
  have "received_as (data_packet L ?i k (snd_una k - 1) (put 54 [probe_byte] (l_malloc L ?i 55))) (own_cb k (snd_una k - 1) (TCP_PSH OR TCP_ACK) [probe_byte])"
    using m by (intro data_received [OF assms(1)]) simp_all
  then show "\<exists>p. tcp_send_probe_packet L a s = Inr (s\<lparr>sent := sent s @ [Ip_Send p]\<rparr>) \<and>
      received_as p (own_cb k (snd_una k - 1) (TCP_PSH OR TCP_ACK) [probe_byte])"
    using assms(2) by (auto simp: tcp_send_probe_packet_def ip_send_def Let_def)
next
  let ?p = "control_packet L (length (sent s)) (sk_sip k) (sk_dip k) (sk_sport k) (sk_dport k) (snd_nxt k) (rcv_nxt k) flags (rcv_wnd k)
     (l_malloc L (length (sent s)) 54)"
  have "received_as ?p (own_cb k (snd_nxt k) flags [])"
    unfolding own_cb_def using libnet.malloc_size [OF assms(1)] by (intro carries_received libnet.control_carries [OF assms(1)])
  then show "\<exists>p. tcp_send_control_packet L a flags s =
      Inr ((put_sk a (if has flags (TCP_SYN OR TCP_FIN) then k\<lparr>snd_nxt := snd_nxt k + 1\<rparr> else k) s)\<lparr>sent := sent s @ [Ip_Send p]\<rparr>) \<and>
      received_as p (own_cb k (snd_nxt k) flags [])"
    using assms(2) by (intro exI [of _ ?p]) (simp add: tcp_send_control_packet_def ip_send_def Let_def)
next
  have "received_as (control_packet L (length (sent s)) (cb_daddr cb) (cb_saddr cb) (cb_dport cb) (cb_sport cb) 0 (cb_seq_end cb)
      (TCP_RST OR TCP_ACK) 0 (l_malloc L (length (sent s)) 54))
     (seg_cb (cb_daddr cb) (cb_saddr cb) (cb_dport cb) (cb_sport cb) 0 (cb_seq_end cb) (TCP_RST OR TCP_ACK) 0 [])"
    using libnet.malloc_size [OF assms(1)] by (intro carries_received libnet.control_carries [OF assms(1)])
  then show "\<exists>p. tcp_send_reset L cb s = Inr (s\<lparr>sent := sent s @ [Ip_Send p]\<rparr>) \<and>
      received_as p (seg_cb (cb_daddr cb) (cb_saddr cb) (cb_dport cb) (cb_sport cb) 0 (cb_seq_end cb) (TCP_RST OR TCP_ACK) 0 [])"
    by (auto simp: tcp_send_reset_def ip_send_def Let_def)
qed

theorem tcp_wire_roundtrip_witness:
  "\<exists>p q. tcp_send_packet (router_env example_router (\<lambda>_. None) 0) 0 (replicate 54 0 @ [1, 2, 3])
       \<lparr>lh = \<lparr>nxt = \<lambda>_. None, prv = \<lambda>_. None\<rparr>, socks = [0 \<mapsto> new_sock], nsock = 1, sent = []\<rparr> =
     Inr (\<lparr>lh = \<lparr>nxt = \<lambda>_. None, prv = \<lambda>_. None\<rparr>, socks = [0 \<mapsto> new_sock\<lparr>snd_nxt := 3\<rparr>], nsock = 1, sent = [Ip_Send p]\<rparr>) \<and>
     received_as p (own_cb new_sock 0 (TCP_PSH OR TCP_ACK) [1, 2, 3]) \<and> received_as q (own_cb new_sock 0 TCP_SYN [])"
proof -
  let ?s = "\<lparr>lh = \<lparr>nxt = \<lambda>_. None, prv = \<lambda>_. None\<rparr>, socks = [0 \<mapsto> new_sock], nsock = 1, sent = []\<rparr>"
  have k: "socks ?s 0 = Some new_sock" by simp
  show ?thesis
    using tcp_wire_roundtrip [OF ln.libnet_axioms [of example_router "\<lambda>_. None" 0] k, of "replicate 54 0" "[1, 2, 3]"
        "\<lparr>se_seq = 0, se_packet = []\<rparr>" "[]" TCP_SYN "seg_cb 1 2 3 4 5 6 TCP_SYN 7 []"]
    by (auto simp: put_sk_def new_sock_def)
qed

end
