(* ===== verification/Tcp_Write.thy ===== *)
theory Tcp_Write
  imports Tcp_Wire Tcp_Recv
begin

text \<open>
  Sending data: \<^verbatim>\<open>tcp_sock_write\<close> cuts its buffer into segments that fit the send window, and what
  it sends is reassembled by the receiver of \<open>Tcp_Recv\<close>.
\<close>

section \<open>The window\<close>

definition inflight :: "tcp_sock \<Rightarrow> nat" where
  "inflight k = unat (snd_nxt k - snd_una k)"

definition in_window :: "tcp_sock \<Rightarrow> bool" where
  "in_window k \<longleftrightarrow> inflight k \<le> unat (snd_wnd k) \<and> unat (snd_wnd k) < 2 ^ 31"

lemma sint_of_small:
  fixes w :: u32
  assumes "unat w < 2 ^ 31"
  shows "sint w = int (unat w)"
proof -
  have "int (unat w) < int (2 ^ 31)" using assms by (simp only: of_nat_less_iff)
  then have "signed_take_bit 31 (uint w) = uint w" by (intro signed_take_bit_int_eq_self) (auto intro: order_trans [of _ 0])
  then show ?thesis by (simp add: sint_uint)
qed

lemma window_test:
  assumes "in_window k"
  shows "tcp_tx_window_test k \<longleftrightarrow> inflight k + 1460 \<le> unat (snd_wnd k)"
proof -
  let ?d = "snd_wnd k - (snd_nxt k - snd_una k)"
  have "unat ?d = unat (snd_wnd k) - inflight k"
    using assms unat_sub [of "snd_nxt k - snd_una k" "snd_wnd k"] by (simp add: in_window_def inflight_def word_le_nat_alt)
  moreover have e: "snd_wnd k - snd_nxt k + snd_una k = ?d" by simp
  moreover have "sint ?d = int (unat ?d)" using calculation(1) assms by (intro sint_of_small) (auto simp: in_window_def)
  ultimately have "sint ?d = int (unat (snd_wnd k) - inflight k)" by metis
  moreover have "sint (of_nat TCP_MSS :: u32) = 1460" by simp
  ultimately show ?thesis
    using assms [unfolded in_window_def] unfolding tcp_tx_window_test_def e less_than_32b_def seq_diff_def by linarith
qed

lemma inflight_advance:
  assumes "in_window k" "inflight k + n \<le> unat (snd_wnd k)" "snd_nxt k' = snd_nxt k + of_nat n"
    "snd_una k' = snd_una k" "snd_wnd k' = snd_wnd k"
  shows "inflight k' = inflight k + n" "in_window k'"
proof -
  have "snd_nxt k' - snd_una k' = of_nat (inflight k + n)" using assms(3,4) by (simp add: inflight_def algebra_simps)
  then show "inflight k' = inflight k + n"
    using assms(1,2) unat_of_nat_u32 [of "inflight k + n"] unfolding inflight_def [of k'] by (simp add: in_window_def)
  then show "in_window k'" using assms(1,2,5) by (simp add: in_window_def)
qed

section \<open>One segment\<close>

lemma bind_no_steps [simp]: "res_bind r (steps []) = r"
  by (cases r) simp_all

definition conn_of :: "tcp_sock \<Rightarrow> (u32 \<times> u32 \<times> u16 \<times> u16) \<times> (u32 \<times> u16) \<times> (u32 \<times> u32) \<times> tcp_state" where
  "conn_of k = ((sk_sip k, sk_dip k, sk_sport k, sk_dport k), (rcv_nxt k, rcv_wnd k), (snd_una k, snd_wnd k), state k)"

text \<open>The control block of a data segment of a socket.\<close>

definition out_cb :: "tcp_sock \<Rightarrow> u32 \<Rightarrow> bytes \<Rightarrow> tcp_cb" where
  "out_cb k seq d = seg_cb (sk_sip k) (sk_dip k) (sk_sport k) (sk_dport k) seq (rcv_nxt k) (TCP_PSH OR TCP_ACK) (rcv_wnd k) d"

lemma out_cb_conn: "conn_of k' = conn_of k \<Longrightarrow> out_cb k' = out_cb k"
  by (simp add: conn_of_def out_cb_def fun_eq_iff)

lemma set_retrans_timer:
  assumes "socks s a = Some k" "prv (lh s) Timer_List \<noteq> None"
  shows "\<exists>s' k'. tcp_set_retrans_timer a s = Inr s' \<and> socks s' a = Some k' \<and> conn_of k' = conn_of k \<and>
    snd_nxt k' = snd_nxt k \<and> send_buf k' = send_buf k \<and> sent s' = sent s \<and> prv (lh s') Timer_List \<noteq> None"
  using assms by (auto simp: tcp_set_retrans_timer_def upd_lh_def list_add_tail_def list_insert_def put_sk_def conn_of_def)

lemma segment_sent:
  assumes "libnet L" "socks s a = Some k" "prv (lh s) Timer_List \<noteq> None" "n + m \<le> length buf" "m \<le> 1460"
  shows "\<exists>s' k' p. send_segment L a buf n m s = Inr s' \<and> socks s' a = Some k' \<and> conn_of k' = conn_of k \<and>
    snd_nxt k' = snd_nxt k + of_nat m \<and> send_buf k' = send_buf k @ [\<lparr>se_seq = snd_nxt k, se_packet = buf\<rparr>] \<and>
    sent s' = sent s @ [Ip_Send p] \<and> carries p (out_cb k (snd_nxt k) (sub n m buf)) \<and> prv (lh s') Timer_List \<noteq> None"
proof -
  let ?k = "k\<lparr>send_buf := send_buf k @ [\<lparr>se_seq = snd_nxt k, se_packet = buf\<rparr>]\<rparr>"
  let ?f = "l_malloc L (length (sent s)) (54 + m)"
  let ?strs = "put 54 (sub n m buf) ?f"
  obtain s1 k1 where s1: "tcp_set_retrans_timer a (put_sk a ?k s) = Inr s1" "socks s1 a = Some k1" "conn_of k1 = conn_of ?k"
    "snd_nxt k1 = snd_nxt k" "send_buf k1 = send_buf ?k" "sent s1 = sent s" "prv (lh s1) Timer_List \<noteq> None"
    using set_retrans_timer [of "put_sk a ?k s" a ?k] assms(3) by auto
  have f: "length ?f = 54 + m" by (rule libnet.malloc_size [OF assms(1)])
  have b: "length (sub n m buf) = m" using assms(4) by (simp add: sub_def)
  have l: "length ?strs = 54 + m" using f b by simp
  have d: "drop 54 ?strs = sub n m buf" using f b by (simp add: put_def)
  define p where "p = data_packet L (length (sent s)) k1 (snd_nxt k) ?strs"
  have k1: "conn_of k1 = conn_of k" using s1(3) by (simp add: conn_of_def)
  have "carries p (out_cb k1 (snd_nxt k) (sub n m buf))"
    using libnet.data_carries [OF assms(1) l, of "length (sent s)" k1 "snd_nxt k", unfolded d] assms(5)
    by (simp add: p_def out_cb_def)
  moreover have "send_segment L a buf n m s = tcp_send_packet L a ?strs s1"
    using assms(2) s1(1) by (simp add: send_segment_def tcp_send_buffer_add_packet_def Let_def)
  moreover have "\<exists>s'. tcp_send_packet L a ?strs s1 = Inr s' \<and> socks s' a = Some (k1\<lparr>snd_nxt := snd_nxt k + of_nat m\<rparr>) \<and>
      sent s' = sent s @ [Ip_Send p] \<and> prv (lh s') Timer_List \<noteq> None"
    using s1 l by (simp add: tcp_send_packet_def ip_send_def p_def Let_def)
  moreover have "conn_of (k1\<lparr>snd_nxt := snd_nxt k + of_nat m\<rparr>) = conn_of k" using k1 by (simp add: conn_of_def)
  ultimately show ?thesis using out_cb_conn [OF k1] s1(5) by fastforce
qed

section \<open>The loop\<close>

lemma write_from_step:
  "write_from L a buf n s = (case write_round L a buf n s of
     Inl e \<Rightarrow> Inl e | Inr (r, s') \<Rightarrow> (case r of Write_More m \<Rightarrow> write_from L a buf m s' | _ \<Rightarrow> Inr (r, s')))"
  unfolding write_from_def
  by (subst write_loop.simps) (simp split: sum.split prod.split write_outcome.split option.split)

text \<open>The packets \<open>ps\<close> carry the pieces \<open>segs\<close> of \<open>buf\<close>; \<open>base\<close> is the sequence number of the start of \<open>buf\<close>.\<close>

definition carry_segs :: "tcp_sock \<Rightarrow> u32 \<Rightarrow> bytes \<Rightarrow> bytes list \<Rightarrow> (nat \<times> nat) list \<Rightarrow> bool" where
  "carry_segs k base buf ps segs \<longleftrightarrow> list_all2 (\<lambda>p (j, m). carries p (out_cb k (sq base j) (sub j m buf))) ps segs"

definition write_ends :: "bytes \<Rightarrow> nat \<Rightarrow> tcp_sock \<Rightarrow> write_outcome \<Rightarrow> bool" where
  "write_ends buf n k r \<longleftrightarrow> (r = Write_Ret (int n) \<and> n = length buf) \<or>
     ((\<exists>b. r = Write_Wait b n) \<and> n < length buf \<and> unat (snd_wnd k) < inflight k + 1460)"

lemma write_from_sends:
  assumes "libnet L" "socks s a = Some k" "prv (lh s) Timer_List \<noteq> None" "in_window k" "n \<le> length buf"
    "snd_nxt k = sq base n"
  shows "\<exists>r s' k' ps ns. write_from L a buf n s = Inr (r, s') \<and> socks s' a = Some k' \<and> conn_of k' = conn_of k \<and>
    sent s' = sent s @ map Ip_Send ps \<and> carry_segs k base buf ps (segs_from n ns) \<and> (\<forall>m\<in>set ns. 0 < m \<and> m \<le> 1460) \<and>
    snd_nxt k' = sq base (n + sum_list ns) \<and> inflight k' = inflight k + sum_list ns \<and> in_window k' \<and>
    write_ends buf (n + sum_list ns) k' r"
  using assms(2-)
proof (induction "length buf - n" arbitrary: n s k rule: less_induct)
  case less
  note st = less.prems
  consider (finished) "n = length buf" | (wait) "n < length buf" "\<not> tcp_tx_window_test k"
    | (more) "n < length buf" "tcp_tx_window_test k" using st(4) by linarith
  then show ?case
  proof cases
    case finished
    then have "write_from L a buf n s = Inr (Write_Ret (int n), s)"
      using st(1) by (subst write_from_step) (simp add: write_round_def)
    then show ?thesis using st finished
      by (intro exI [of _ "Write_Ret (int n)"] exI [of _ s] exI [of _ k] exI [of _ "[]"]) (simp add: carry_segs_def write_ends_def)
  next
    case wait
    obtain o' w where w: "sleep_on_enter (wait_send k) = (o', w)" by force
    have "write_from L a buf n s = Inr (Write_Wait (o' = Blocks) n, put_sk a (k\<lparr>wait_send := w\<rparr>) s)"
      using st(1) wait w by (subst write_from_step) (simp add: write_round_def tcp_tx_window_test_def)
    moreover have "in_window (k\<lparr>wait_send := w\<rparr>)" "inflight (k\<lparr>wait_send := w\<rparr>) = inflight k"
      using st(3) by (simp_all add: in_window_def inflight_def)
    ultimately show ?thesis using st wait window_test [OF st(3)]
      by (intro exI [of _ "Write_Wait (o' = Blocks) n"] exI [of _ "put_sk a (k\<lparr>wait_send := w\<rparr>) s"]
          exI [of _ "k\<lparr>wait_send := w\<rparr>"] exI [of _ "[]"]) (simp add: carry_segs_def write_ends_def conn_of_def)
  next
    case more
    define m where "m = min (length buf - n) (min (unat (snd_wnd k)) 1460)"
    have m: "0 < m" "m \<le> 1460" "n + m \<le> length buf" "inflight k + m \<le> unat (snd_wnd k)"
      using more window_test [OF st(3)] by (auto simp: m_def)
    obtain s1 k1 p where 1: "send_segment L a buf n m s = Inr s1" "socks s1 a = Some k1" "conn_of k1 = conn_of k"
      "snd_nxt k1 = snd_nxt k + of_nat m" "sent s1 = sent s @ [Ip_Send p]"
      "carries p (out_cb k (snd_nxt k) (sub n m buf))" "prv (lh s1) Timer_List \<noteq> None"
      using segment_sent [OF assms(1) st(1,2) m(3,2)] by blast
    have w: "snd_una k1 = snd_una k" "snd_wnd k1 = snd_wnd k" using 1(3) by (simp_all add: conn_of_def)
    note adv = inflight_advance [OF st(3) m(4) 1(4) w]
    have "write_from L a buf n s = write_from L a buf (n + m) s1"
      using st(1) more 1(1) by (subst write_from_step) (simp add: write_round_def tcp_tx_window_test_def m_def Let_def)
    moreover have "snd_nxt k1 = sq base (n + m)" using 1(4) st(5) by (simp add: sq_def)
    from less.hyps [OF _ 1(2,7) adv(2) m(3) this] diff_less_mono2 [of n "n + m" "length buf"] m(1) more(1) obtain r s' k' ps ns where
      2: "write_from L a buf (n + m) s1 = Inr (r, s')" "socks s' a = Some k'" "conn_of k' = conn_of k1"
      "sent s' = sent s1 @ map Ip_Send ps" "carry_segs k1 base buf ps (segs_from (n + m) ns)"
      "\<forall>m\<in>set ns. 0 < m \<and> m \<le> 1460" "snd_nxt k' = sq base (n + m + sum_list ns)"
      "inflight k' = inflight k1 + sum_list ns" "in_window k'" "write_ends buf (n + m + sum_list ns) k' r" by auto
    moreover have "carry_segs k base buf (p # ps) (segs_from n (m # ns))"
      using 2(5) 1(6) st(5) out_cb_conn [OF 1(3)] by (simp add: carry_segs_def)
    ultimately show ?thesis using 1 adv(1) m
      by (intro exI [of _ r] exI [of _ s'] exI [of _ k'] exI [of _ "p # ps"] exI [of _ "m # ns"]) (simp add: add.assoc)
  qed
qed

section \<open>From sender to receiver\<close>

lemma carries_unique: "carries p cb \<Longrightarrow> carries p cb' \<Longrightarrow> cb = cb'"
  by (simp add: carries_def)

lemma out_cb_seg:
  assumes "pair_ok S p"
  shows "data_seg base S p (out_cb k (sq base (fst p)) (sub (fst p) (snd p) S))"
proof -
  have "length (sub (fst p) (snd p) S) = snd p" using assms by (auto simp: pair_ok_def sub_def)
  then show ?thesis using assms by (simp add: data_seg_def out_cb_def seg_cb_def sq_add)
qed

lemma list_all2_members:
  "list_all2 R xs ys \<Longrightarrow> x \<in> set xs \<Longrightarrow> \<exists>y\<in>set ys. R x y"
  "list_all2 R xs ys \<Longrightarrow> y \<in> set ys \<Longrightarrow> \<exists>x\<in>set xs. R x y"
  by (induction rule: list_all2_induct) auto

text \<open>The control blocks that the packets carry are the segments of the buffer.\<close>

lemma carried_segments:
  assumes "carry_segs k base buf ps segs" "\<forall>q\<in>set segs. pair_ok buf q"
  shows "p \<in> set ps \<Longrightarrow> carries p cb \<Longrightarrow> \<exists>q\<in>set segs. data_seg base buf q cb"
    "q \<in> set segs \<Longrightarrow> \<exists>p\<in>set ps. \<exists>cb. carries p cb \<and> data_seg base buf q cb"
proof -
  note all = assms(1) [unfolded carry_segs_def]
  show "\<exists>q\<in>set segs. data_seg base buf q cb" if p: "p \<in> set ps" "carries p cb"
  proof -
    obtain q where "q \<in> set segs" "carries p (out_cb k (sq base (fst q)) (sub (fst q) (snd q) buf))"
      using list_all2_members(1) [OF all p(1)] by (auto simp: split_beta)
    then show ?thesis using carries_unique [OF p(2)] out_cb_seg [of buf q base k] assms(2) by auto
  qed
  show "\<exists>p\<in>set ps. \<exists>cb. carries p cb \<and> data_seg base buf q cb" if "q \<in> set segs"
    using list_all2_members(2) [OF all that] out_cb_seg [of buf q base k] assms(2) that by (auto simp: split_beta)
qed

section \<open>Properties\<close>

definition can_send :: "nat \<Rightarrow> tcp_stack \<Rightarrow> tcp_sock \<Rightarrow> bool" where
  "can_send a s k \<longleftrightarrow> socks s a = Some k \<and> (state k = TCP_ESTABLISHED \<or> state k = TCP_CLOSE_WAIT) \<and> in_window k \<and>
     prv (lh s) Timer_List \<noteq> None"

lemma write_sends:
  assumes "libnet L" "can_send a s k"
  shows "\<exists>r s' k' ps ns. tcp_sock_write L a buf s = Inr (r, s') \<and> socks s' a = Some k' \<and>
    sent s' = sent s @ map Ip_Send ps \<and> carry_segs k (snd_nxt k) buf ps (segs_from 0 ns) \<and>
    (\<forall>m\<in>set ns. 0 < m \<and> m \<le> 1460) \<and> snd_nxt k' = sq (snd_nxt k) (sum_list ns) \<and>
    inflight k' = inflight k + sum_list ns \<and> snd_wnd k' = snd_wnd k \<and> inflight k' \<le> unat (snd_wnd k) \<and>
    write_ends buf (sum_list ns) k' r"
proof -
  from assms(2) have k: "socks s a = Some k" "prv (lh s) Timer_List \<noteq> None" "in_window k"
    "tcp_sock_write L a buf s = write_from L a buf 0 s" by (auto simp: can_send_def tcp_sock_write_def)
  from write_from_sends [OF assms(1) k(1-3), of 0 buf "snd_nxt k"] obtain r s' k' ps ns where
    "write_from L a buf 0 s = Inr (r, s')" "socks s' a = Some k'" "conn_of k' = conn_of k" "sent s' = sent s @ map Ip_Send ps"
    "carry_segs k (snd_nxt k) buf ps (segs_from 0 ns)" "\<forall>m\<in>set ns. 0 < m \<and> m \<le> 1460"
    "snd_nxt k' = sq (snd_nxt k) (sum_list ns)" "inflight k' = inflight k + sum_list ns" "in_window k'"
    "write_ends buf (sum_list ns) k' r" by (auto simp: sq_def)
  moreover from this(3,9) have "snd_wnd k' = snd_wnd k" "inflight k' \<le> unat (snd_wnd k)"
    by (simp_all add: conn_of_def in_window_def)
  ultimately show ?thesis using k(4)
    by (intro exI [of _ r] exI [of _ s'] exI [of _ k'] exI [of _ ps] exI [of _ ns]) simp
qed

text \<open>
  Property C6: Writing respects the send window. On an established socket \<^verbatim>\<open>tcp_sock_write\<close> always returns or
  sleeps. What it has sent by then are packets that carry consecutive pieces of the buffer, none
  empty and none longer than the maximum segment size, with consecutive sequence numbers; the
  bytes in flight have grown by their lengths and still fit the send window. It returns
  the length of the buffer when all of it was sent, and it sleeps only when the window has
  less than one segment left.
\<close>
theorem tcp_write_in_window:
  assumes "libnet L" "can_send a s k"
  shows "\<exists>r s' k' ps ns. tcp_sock_write L a buf s = Inr (r, s') \<and> socks s' a = Some k' \<and>
    sent s' = sent s @ map Ip_Send ps \<and>
    list_all2 (\<lambda>p (j, m). carries p (out_cb k (snd_nxt k + of_nat j) (sub j m buf))) ps (segs_from 0 ns) \<and>
    (\<forall>m\<in>set ns. 0 < m \<and> m \<le> TCP_MSS) \<and> inflight k' = inflight k + sum_list ns \<and>
    inflight k' \<le> unat (snd_wnd k') \<and>
    ((r = Write_Ret (int (length buf)) \<and> sum_list ns = length buf) \<or>
     (\<exists>b. r = Write_Wait b (sum_list ns)) \<and> sum_list ns < length buf \<and> unat (snd_wnd k') < inflight k' + TCP_MSS)"
proof -
  from write_sends [OF assms, of buf] obtain r s' k' ps ns where "tcp_sock_write L a buf s = Inr (r, s')" "socks s' a = Some k'"
    "sent s' = sent s @ map Ip_Send ps" "carry_segs k (snd_nxt k) buf ps (segs_from 0 ns)" "\<forall>m\<in>set ns. 0 < m \<and> m \<le> 1460"
    "inflight k' = inflight k + sum_list ns" "snd_wnd k' = snd_wnd k" "inflight k' \<le> unat (snd_wnd k)"
    "write_ends buf (sum_list ns) k' r" by blast
  then show ?thesis
    by (intro exI [of _ r] exI [of _ s'] exI [of _ k'] exI [of _ ps] exI [of _ ns])
      (auto simp: carry_segs_def write_ends_def sq_def)
qed

definition example_sender :: tcp_sock where
  "example_sender = new_sock\<lparr>state := TCP_ESTABLISHED, snd_nxt := 1, snd_una := 1, snd_wnd := 2920\<rparr>"

definition sender_stack :: tcp_stack where
  "sender_stack = example_stack\<lparr>socks := [0 \<mapsto> example_sender]\<rparr>"

lemma example_can_send: "can_send 0 sender_stack example_sender" "snd_nxt example_sender = 1" "inflight example_sender = 0"
  "unat (snd_wnd example_sender) = 2920"
  by (simp_all add: can_send_def sender_stack_def example_sender_def example_stack_def in_window_def inflight_def init_list_head_def)

theorem tcp_write_in_window_witness:
  "\<exists>r s' k' ps ns. tcp_sock_write (router_env example_router (\<lambda>_. None) 0) 0 [1, 2, 3] sender_stack = Inr (r, s') \<and> socks s' 0 = Some k' \<and>
    sent s' = sent sender_stack @ map Ip_Send ps \<and>
    list_all2 (\<lambda>p (j, m). carries p (out_cb example_sender (snd_nxt example_sender + of_nat j) (sub j m [1, 2, 3]))) ps (segs_from 0 ns) \<and>
    (\<forall>m\<in>set ns. 0 < m \<and> m \<le> TCP_MSS) \<and> inflight k' = inflight example_sender + sum_list ns \<and>
    inflight k' \<le> unat (snd_wnd k') \<and>
    ((r = Write_Ret (int (length [1, 2, 3 :: u8])) \<and> sum_list ns = length [1, 2, 3 :: u8]) \<or>
     (\<exists>b. r = Write_Wait b (sum_list ns)) \<and> sum_list ns < length [1, 2, 3 :: u8] \<and> unat (snd_wnd k') < inflight k' + TCP_MSS)"
  by (rule tcp_write_in_window [OF ln.libnet_axioms example_can_send(1)])

text \<open>
  Property C1: A buffer written on one side is read on the other. A socket whose window has room writes a
  buffer, and an established socket of the other side expects its first byte. The write
  returns the length of the buffer. If the packets it sent arrive in any order, each at
  least once, and the other application reads whenever it likes, then the bytes it has read
  followed by those in its receive buffer are exactly the buffer.
\<close>
theorem tcp_transfer:
  assumes "libnet L" "can_send a s k" "fits (snd_nxt k) buf" "length buf \<le> 65535"
    "inflight k + length buf + TCP_MSS \<le> unat (snd_wnd k)" "socks t b = Some c" "fresh_receiver (snd_nxt k) c"
  shows "\<exists>s' ps. tcp_sock_write L a buf s = Inr (Write_Ret (int (length buf)), s') \<and> sent s' = sent s @ map Ip_Send ps \<and>
    (\<forall>ops. (\<forall>cb. Arrive cb \<in> set ops \<longleftrightarrow> (\<exists>p\<in>set ps. carries p cb)) \<longrightarrow>
      (\<exists>d t' c'. rx_run L' b ops t = Inr (d, t') \<and> socks t' b = Some c' \<and> d @ rb_list (rcv_buf c') = buf))"
proof -
  from write_sends [OF assms(1,2), of buf] obtain r s' k' ps ns where w: "tcp_sock_write L a buf s = Inr (r, s')"
    "sent s' = sent s @ map Ip_Send ps" "carry_segs k (snd_nxt k) buf ps (segs_from 0 ns)" "\<forall>m\<in>set ns. 0 < m \<and> m \<le> 1460"
    "inflight k' = inflight k + sum_list ns" "snd_wnd k' = snd_wnd k" "write_ends buf (sum_list ns) k' r" by blast
  then have r: "r = Write_Ret (int (length buf))" "sum_list ns = length buf" using assms(5) by (auto simp: write_ends_def)
  have ns: "\<forall>m\<in>set ns. 0 < m" using w(4) by blast
  have "\<forall>q\<in>set (segs_from 0 ns). pair_ok buf q"
    using segs_from_bounds [OF _ ns, of _ 0] r(2) by (auto simp: pair_ok_def)
  note segs = carried_segments [OF w(3) this]
  have "\<exists>d t' c'. rx_run L' b ops t = Inr (d, t') \<and> socks t' b = Some c' \<and> d @ rb_list (rcv_buf c') = buf"
    if ops: "\<forall>cb. Arrive cb \<in> set ops \<longleftrightarrow> (\<exists>p\<in>set ps. carries p cb)" for ops
  proof -
    have "\<forall>cb. Arrive cb \<in> set ops \<longrightarrow> (\<exists>q\<in>set (segs_from 0 ns). data_seg (snd_nxt k) buf q cb)"
      using ops segs(1) by blast
    moreover have "\<forall>q\<in>set (segs_from 0 ns). \<exists>cb. Arrive cb \<in> set ops \<and> data_seg (snd_nxt k) buf q cb"
      using ops segs(2) by blast
    ultimately show ?thesis using reassembled [OF assms(3,4) ns r(2) assms(6,7), of ops L'] by blast
  qed
  then show ?thesis using w(1,2) r(1) by (intro exI [of _ s'] exI [of _ ps]) simp
qed

theorem tcp_transfer_witness:
  "\<exists>s' ps. tcp_sock_write (router_env example_router (\<lambda>_. None) 0) 0 [1, 2, 3] sender_stack =
      Inr (Write_Ret (int (length [1, 2, 3 :: u8])), s') \<and> sent s' = sent sender_stack @ map Ip_Send ps \<and>
    (\<forall>ops. (\<forall>cb. Arrive cb \<in> set ops \<longleftrightarrow> (\<exists>p\<in>set ps. carries p cb)) \<longrightarrow>
      (\<exists>d t' c'. rx_run example_env 0 ops example_stack = Inr (d, t') \<and> socks t' 0 = Some c' \<and>
         d @ rb_list (rcv_buf c') = [1, 2, 3]))"
  by (rule tcp_transfer [OF ln.libnet_axioms example_can_send(1) _ _ _ example_receiver(2)])
    (simp_all add: example_can_send(2-4) example_receiver(1) fits_def)

end
