(* ===== verification/Tcp_States.thy ===== *)
theory Tcp_States
  imports Tcp_Recv
begin

text \<open>
  The state machine of \<^verbatim>\<open>tcp_process\<close>: which states the sockets have after a segment. The lemmas
  follow the structure of the code: an operation \<open>keeps\<close> the states of all sockets, or it
  \<open>moves\<close> one socket into a state.
\<close>

section \<open>Operations and states\<close>

definition states :: "tcp_stack \<Rightarrow> nat \<Rightarrow> tcp_state option" where
  "states s b = map_option state (socks s b)"

definition keeps :: "(tcp_stack \<Rightarrow> tcp_stack res) \<Rightarrow> bool" where
  "keeps f \<longleftrightarrow> (\<forall>s s'. f s = Inr s' \<longrightarrow> states s' = states s)"

definition moves :: "nat \<Rightarrow> tcp_state \<Rightarrow> (tcp_stack \<Rightarrow> tcp_stack res) \<Rightarrow> bool" where
  "moves a x f \<longleftrightarrow> (\<forall>s s'. f s = Inr s' \<longrightarrow> states s' = (states s)(a \<mapsto> x))"

named_theorems keep

lemma keeps_Inr [keep]: "keeps Inr"
  by (simp add: keeps_def)

lemma keeps_Inl [keep]: "keeps (\<lambda>s. Inl e)"
  by (simp add: keeps_def)

lemma keeps_if [keep]: "keeps f \<Longrightarrow> keeps g \<Longrightarrow> keeps (\<lambda>s. if P s then f s else g s)"
  by (simp add: keeps_def)

lemma keeps_if' [keep]: "keeps f \<Longrightarrow> keeps g \<Longrightarrow> keeps (if P then f else g)"
  by simp

lemma keeps_Nil [keep]: "keeps (steps [])"
  by (simp add: keeps_def)

lemma keeps_Cons [keep]: "keeps f \<Longrightarrow> keeps (steps fs) \<Longrightarrow> keeps (steps (f # fs))"
  by (fastforce simp: keeps_def res_bind_Inr_iff)

lemma keeps_with_sk [keep]: "(\<And>k. keeps (f k)) \<Longrightarrow> keeps (with_sk a f)"
  by (auto simp: keeps_def with_sk_def split: option.splits)

lemma states_put: "socks s a = Some k \<Longrightarrow> states (put_sk a k' s) = (states s)(a \<mapsto> state k')"
  by (auto simp: states_def put_sk_def)

lemma states_same: "socks s a = Some k \<Longrightarrow> (states s)(a \<mapsto> state k) = states s"
  by (auto simp: states_def)

lemma keeps_upd_sk [keep]: "(\<And>k. state (f k) = state k) \<Longrightarrow> keeps (upd_sk a f)"
  by (auto simp: keeps_def upd_sk_def with_sk_def states_put states_same split: option.splits)

lemma keeps_upd_lh [keep]: "keeps (upd_lh f)"
  unfolding keeps_def
proof (intro allI impI)
  fix s s' assume "upd_lh f s = Inr s'"
  then show "states s' = states s" by (cases "f (lh s)") (auto simp: upd_lh_def states_def)
qed

lemma keeps_ip_send [keep]: "keeps (ip_send p)"
  by (auto simp: keeps_def ip_send_def states_def)

lemma keeps_diag: "(\<And>t. keeps (f t)) \<Longrightarrow> keeps (\<lambda>s. f s s)"
  by (auto simp: keeps_def)

lemma keeps_control [keep]: "keeps (tcp_send_control_packet L a fl)"
  unfolding tcp_send_control_packet_def Let_def
  by (rule keeps_with_sk, rule keeps_diag [where f = "\<lambda>t. steps [_, ip_send (control_packet _ (length (sent t)) _ _ _ _ _ _ _ _ (fresh _ t _))]"])
    (intro keep; simp)

lemma keeps_reset [keep]: "keeps (tcp_send_reset L cb)"
  unfolding tcp_send_reset_def Let_def
  by (rule keeps_diag [where f = "\<lambda>t. ip_send (control_packet _ (length (sent t)) _ _ _ _ _ _ _ _ (fresh _ t _))"]) (rule keep)

lemma keeps_wakes [keep]: "keeps (wake_send a)" "keeps (wake_recv a)"
  unfolding wake_send_def wake_recv_def by (intro keep; simp)+

lemma keeps_timers [keep]:
  "keeps (tcp_set_timewait_timer a)" "keeps (tcp_set_persist_timer a)" "keeps (tcp_unset_persist_timer a)"
  "keeps (tcp_set_retrans_timer a)" "keeps (tcp_unset_retrans_timer a)" "keeps (tcp_update_retrans_timer a)"
  unfolding tcp_set_timewait_timer_def tcp_set_persist_timer_def tcp_unset_persist_timer_def
    tcp_set_retrans_timer_def tcp_unset_retrans_timer_def tcp_update_retrans_timer_def
  by (intro keep; simp)+

lemma keeps_send_buffer [keep]: "keeps (tcp_update_send_buffer a ack)"
  unfolding tcp_update_send_buffer_def by (intro keep; simp)

lemma keeps_window [keep]: "keeps (tcp_update_window a cb)" "keeps (tcp_update_window_safe a cb)"
proof -
  show "keeps (tcp_update_window a cb)" unfolding tcp_update_window_def by (intro keep; simp)
  then show "keeps (tcp_update_window_safe a cb)" unfolding tcp_update_window_safe_def by (intro keep; simp)
qed

lemma keeps_retrans [keep]: "keeps (tcp_retrans_send_buffer L a)"
  unfolding keeps_def
proof (intro allI impI)
  fix s s' assume h: "tcp_retrans_send_buffer L a s = Inr s'"
  then obtain k where k: "socks s a = Some k" by (auto simp: tcp_retrans_send_buffer_def with_sk_def split: option.splits)
  with h show "states s' = states s"
    by (auto simp: tcp_retrans_send_buffer_def ip_send_def states_def put_sk_def Let_def split: list.splits)
qed

lemma cc_state_only: "state (cc_ack ack k) = state k" "state (fast_retransmit k) = state k"
  by (simp_all add: cc_ack_def fast_retransmit_def Let_def split: tcp_cc_state.split)

lemma keeps_cc [keep]: "keeps (tcp_congestion_control L a cb)"
  unfolding tcp_congestion_control_def by (intro keep; simp add: cc_state_only)

lemma keeps_hash [keep]: "keeps (\<lambda>s. res_map snd (tcp_hash a s))"
  unfolding keeps_def
proof (intro allI impI)
  fix s s' assume h: "res_map snd (tcp_hash a s) = Inr s'"
  then obtain k where k: "socks s a = Some k" by (auto simp: tcp_hash_def with_sk_def split: option.splits)
  have i: "states t = states s" if "steps [upd_lh (\<lambda>h. list_add_head h (Hash_List a) l), upd_sk a (\<lambda>k. k\<lparr>ref_cnt := ref_cnt k + 1\<rparr>)] s = Inr t" for l t
  proof -
    have "keeps (steps [upd_lh (\<lambda>h. list_add_head h (Hash_List a) l), upd_sk a (\<lambda>k. k\<lparr>ref_cnt := ref_cnt k + 1\<rparr>)])"
      by (intro keep) simp
    then show ?thesis using that unfolding keeps_def by blast
  qed
  show "states s' = states s"
    using h k i
    by (auto simp: tcp_hash_def Let_def res_map_def res_bind_Inr_iff simp del: steps.simps split: if_splits)
qed

lemma keeps_lock [keep]: "keeps (lock_rcv_buf a)" "keeps (unlock_rcv_buf a)"
  unfolding lock_rcv_buf_def unlock_rcv_buf_def keeps_def
  by (auto simp: with_sk_def upd_sk_def states_put states_same split: option.splits if_splits)

lemma keeps_add_packet [keep]: "keeps (\<lambda>s. res_map snd (tcp_recv_ofo_buffer_add_packet a cb s))"
  unfolding keeps_def tcp_recv_ofo_buffer_add_packet_def with_sk_def
  by (auto simp: Let_def states_put states_same split: option.splits if_splits)

lemma move_loop_state: "move_loop es k m = Inr (n, k') \<Longrightarrow> state k' = state k"
  by (induction es k m rule: move_loop.induct) (auto simp: res_bind_Inr_iff Let_def split: if_splits)

lemma keeps_move [keep]: "keeps (tcp_move_recv_ofo_buffer L a)"
  unfolding keeps_def
proof (intro allI impI)
  fix s s' assume h: "tcp_move_recv_ofo_buffer L a s = Inr s'"
  then obtain k where k: "socks s a = Some k" by (auto simp: tcp_move_recv_ofo_buffer_def with_sk_def split: option.splits)
  with h obtain n k' where l: "move_loop (rcv_ofo_buf k) k 0 = Inr (n, k')"
    "steps [tcp_send_control_packet L a TCP_ACK, \<lambda>s. if n \<noteq> 0 then wake_recv a s else Inr s] (put_sk a k' s) = Inr s'"
    by (auto simp: tcp_move_recv_ofo_buffer_def res_bind_Inr_iff simp del: steps.simps)
  have "keeps (steps [tcp_send_control_packet L a TCP_ACK, \<lambda>s. if n \<noteq> 0 then wake_recv a s else Inr s])" by (intro keep)
  then have "states s' = states (put_sk a k' s)" using l(2) unfolding keeps_def by blast
  then show "states s' = states s" using k move_loop_state [OF l(1)] by (simp add: states_put states_same)
qed

lemma keeps_established_ack [keep]: "keeps (established_ack L a cb)"
  unfolding established_ack_def by (intro keep)

section \<open>Moves\<close>

lemma moves_set_state: "moves a x (tcp_set_state a x)"
  by (auto simp: moves_def tcp_set_state_def upd_sk_def with_sk_def states_put split: option.splits)

lemma moves_later: "keeps f \<Longrightarrow> moves a x (steps fs) \<Longrightarrow> moves a x (steps (f # fs))"
  unfolding keeps_def moves_def by (fastforce simp: res_bind_Inr_iff)

lemma moves_now: "moves a x f \<Longrightarrow> keeps (steps fs) \<Longrightarrow> moves a x (steps (f # fs))"
  unfolding keeps_def moves_def by (fastforce simp: res_bind_Inr_iff)

lemma moves_again: "moves a y f \<Longrightarrow> moves a x (steps fs) \<Longrightarrow> moves a x (steps (f # fs))"
  unfolding moves_def by (fastforce simp: res_bind_Inr_iff)

lemmas move = moves_set_state moves_now moves_later

lemma moves_syn_recv: "moves a TCP_ESTABLISHED (syn_recv_ack a cb)"
  unfolding syn_recv_ack_def by (rule moves_now [OF moves_set_state]) (intro keep)

lemma moves_syn_sent: "moves a TCP_ESTABLISHED (syn_sent_synack L a cb)"
  unfolding syn_sent_synack_def
  by (rule moves_later, intro keep, simp, rule moves_now [OF moves_set_state]) (intro keep; simp)

lemma moves_established_fin: "moves a TCP_CLOSE_WAIT (established_fin L a cb)"
  unfolding established_fin_def
  by (rule moves_later, intro keep, simp, rule moves_now [OF moves_set_state]) (intro keep)

lemma keeps_enqueue [keep]: "keeps (tcp_sock_accept_enqueue a)"
  unfolding tcp_sock_accept_enqueue_def
proof (rule keeps_with_sk)
  fix k
  show "keeps (\<lambda>s. case parent k of None \<Rightarrow> Inl Null_Deref
     | Some q \<Rightarrow> steps [
         \<lambda>s. if \<not> list_empty (lh s) (Sk_List a) then upd_lh (\<lambda>h. list_delete_entry h (Sk_List a)) s else Inr s,
         upd_lh (\<lambda>h. list_add_tail h (Sk_List a) (Accept_Queue q)),
         upd_sk q (\<lambda>k. k\<lparr>accept_backlog := accept_backlog k + 1\<rparr>)] s)"
    by (cases "parent k"; simp only: option.case; intro keep; simp)
qed

lemma listen_syn_states:
  assumes "listen_syn L a cb s = Inr s'"
  shows "states s' = (states s)(nsock s \<mapsto> TCP_SYN_RECV)"
proof -
  obtain s1 where s1: "alloc_tcp_sock s = (nsock s, s1)" "states s1 = (states s)(nsock s \<mapsto> TCP_CLOSED)"
    by (auto simp: alloc_tcp_sock_def Let_def states_def new_sock_def fun_eq_iff)
  have "moves (nsock s) TCP_SYN_RECV (steps [upd_sk (nsock s) f, tcp_set_state (nsock s) TCP_SYN_RECV,
      \<lambda>s. res_map snd (tcp_hash (nsock s0) s), tcp_send_control_packet L c fl, tcp_sock_accept_enqueue c, upd_sk a g])"
    if "\<And>k. state (f k) = state k" "\<And>k. state (g k) = state k" for f g s0 c fl
    by (rule moves_later, intro keep, simp add: that, rule moves_now [OF moves_set_state]) (intro keep; simp add: that)
  from this [of "\<lambda>k. k\<lparr>sk_sip := cb_daddr cb, sk_sport := cb_dport cb, sk_dip := cb_saddr cb, sk_dport := cb_sport cb,
      iss := l_rand L (nsock s), snd_nxt := l_rand L (nsock s), rcv_nxt := cb_seq cb + 1, parent := Some a\<rparr>"
      "\<lambda>k. k\<lparr>wait_accept := wake (wait_accept k)\<rparr>" s "nsock s" "TCP_SYN OR TCP_ACK"] assms s1
  show ?thesis unfolding moves_def listen_syn_def by (simp add: Let_def del: steps.simps)
qed

lemma bind_unhash_states:
  "tcp_bind_unhash a s = Inr s' \<Longrightarrow> states s' = states s \<or> states s' = (states s)(a := None)"
proof -
  assume h: "tcp_bind_unhash a s = Inr s'"
  have u: "states t = states s" if "upd_lh f s = Inr t" for f t using keeps_upd_lh [of f] that by (auto simp: keeps_def)
  have f: "states t' = states t \<or> states t' = (states t)(a := None)" if "free_tcp_sock a t = Inr t'" for t t'
    using that by (auto simp: free_tcp_sock_def with_sk_def Let_def states_put states_same release_def states_def fun_eq_iff
        split: option.splits if_splits)
  show ?thesis using h by (auto simp: tcp_bind_unhash_def with_sk_def res_bind_Inr_iff split: option.splits if_splits dest!: u f)
qed

lemma last_ack_states:
  assumes "steps [tcp_update_send_buffer a ack, tcp_set_state a TCP_CLOSED, tcp_bind_unhash a] s = Inr s'"
  shows "states s' = (states s)(a \<mapsto> TCP_CLOSED) \<or> states s' = (states s)(a := None)"
proof -
  from assms obtain s1 s2 where "tcp_update_send_buffer a ack s = Inr s1" "tcp_set_state a TCP_CLOSED s1 = Inr s2"
    "tcp_bind_unhash a s2 = Inr s'" by (auto simp: res_bind_Inr_iff)
  then show ?thesis
    using keeps_send_buffer [of a ack] moves_set_state [of a TCP_CLOSED] bind_unhash_states [of a s2 s']
    by (force simp: keeps_def moves_def)
qed

text \<open>The state a segment with the given flags leads to.\<close>

fun next_state :: "tcp_state \<Rightarrow> u8 \<Rightarrow> tcp_state" where
  "next_state TCP_SYN_RECV fl = (if has fl TCP_ACK then TCP_ESTABLISHED else TCP_SYN_RECV)"
| "next_state TCP_SYN_SENT fl = (if has fl (TCP_SYN OR TCP_ACK) then TCP_ESTABLISHED else TCP_SYN_SENT)"
| "next_state TCP_ESTABLISHED fl = (if has fl TCP_FIN then TCP_CLOSE_WAIT else TCP_ESTABLISHED)"
| "next_state TCP_CLOSE_WAIT fl = TCP_LAST_ACK"
| "next_state TCP_LAST_ACK fl = (if has fl (TCP_ACK OR TCP_FIN) then TCP_CLOSED else TCP_LAST_ACK)"
| "next_state TCP_FIN_WAIT_1 fl =
     (if has fl TCP_FIN then TCP_CLOSING else if has fl TCP_ACK then TCP_FIN_WAIT_2 else TCP_FIN_WAIT_1)"
| "next_state TCP_FIN_WAIT_2 fl = (if has fl TCP_FIN then TCP_TIME_WAIT else TCP_FIN_WAIT_2)"
| "next_state st fl = st"

lemma fin_wait_1_states:
  "moves a (next_state TCP_FIN_WAIT_1 (cb_flags cb)) (fin_wait_1 L a cb) \<or>
   keeps (fin_wait_1 L a cb) \<and> next_state TCP_FIN_WAIT_1 (cb_flags cb) = TCP_FIN_WAIT_1"
proof -
  let ?F = "has (cb_flags cb) TCP_FIN" and ?A = "has (cb_flags cb) TCP_ACK"
  consider (both) ?F ?A | (fin) ?F "\<not> ?A" | (ack) "\<not> ?F" ?A | (none) "\<not> ?F" "\<not> ?A" by blast
  then show ?thesis
  proof cases
    case both
    have "moves a TCP_TIME_WAIT (steps [upd_sk a (\<lambda>k. k\<lparr>rcv_nxt := cb_seq cb + 1\<rparr>), tcp_update_send_buffer a (cb_ack cb),
        tcp_send_control_packet L a TCP_ACK, tcp_set_state a TCP_TIME_WAIT, tcp_set_timewait_timer a])"
      by (rule moves_later, intro keep, simp, rule moves_later, rule keep, rule moves_later, rule keep,
          rule moves_now [OF moves_set_state]) (intro keep)
    moreover have "moves a TCP_CLOSING (steps [steps [tcp_set_state a TCP_CLOSING, tcp_send_control_packet L a TCP_ACK]])"
      by (rule moves_now, rule moves_now [OF moves_set_state]) (intro keep)+
    ultimately have "moves a TCP_CLOSING (fin_wait_1 L a cb)"
      unfolding fin_wait_1_def using both by (simp only: if_True simp_thms if_False) (rule moves_again)
    then show ?thesis using both by simp
  next
    case fin
    have "moves a TCP_CLOSING (steps [steps [tcp_set_state a TCP_CLOSING, tcp_send_control_packet L a TCP_ACK]])"
      by (rule moves_now, rule moves_now [OF moves_set_state]) (intro keep)+
    then have "moves a TCP_CLOSING (fin_wait_1 L a cb)"
      unfolding fin_wait_1_def using fin by (simp only: if_True simp_thms if_False) (rule moves_later, rule keep)
    then show ?thesis using fin by simp
  next
    case ack
    have "moves a TCP_FIN_WAIT_2 (fin_wait_1 L a cb)"
      unfolding fin_wait_1_def using ack
      by (simp only: if_True simp_thms if_False) (rule moves_later, rule keep, rule moves_now [OF moves_set_state], rule keep)
    then show ?thesis using ack by simp
  next
    case none
    then have "keeps (fin_wait_1 L a cb)"
      unfolding fin_wait_1_def by (simp only: if_True simp_thms if_False) (intro keep)
    then show ?thesis using none by simp
  qed
qed

lemma keeps_states: "keeps f \<Longrightarrow> f s = Inr s' \<Longrightarrow> states s' = states s"
  by (simp add: keeps_def)

lemma moves_states: "moves a x f \<Longrightarrow> f s = Inr s' \<Longrightarrow> states s' = (states s)(a \<mapsto> x)"
  by (simp add: moves_def)

lemma moves_close_wait:
  "moves a TCP_LAST_ACK (steps [tcp_set_state a TCP_LAST_ACK, upd_sk a (\<lambda>k. k\<lparr>rcv_nxt := n\<rparr>), tcp_send_control_packet L a fl])"
  by (rule moves_now [OF moves_set_state]) (intro keep; simp)

lemma moves_fin_wait_2:
  "moves a TCP_TIME_WAIT (steps [upd_sk a (\<lambda>k. k\<lparr>rcv_nxt := n\<rparr>), tcp_send_control_packet L a fl,
     tcp_set_state a TCP_TIME_WAIT, tcp_set_timewait_timer a])"
  by (rule moves_later, intro keep, simp, rule moves_later, rule keep, rule moves_now [OF moves_set_state]) (intro keep)

lemma process_states:
  assumes "tcp_process L (Some a) cb s = Inr s'" "socks s a = Some k"
  shows "states s' =
      (if state k = TCP_LISTEN \<and> has (cb_flags cb) TCP_SYN then (states s)(nsock s \<mapsto> TCP_SYN_RECV)
       else (states s)(a \<mapsto> next_state (state k) (cb_flags cb))) \<or>
    state k = TCP_LAST_ACK \<and> states s' = (states s)(a := None)"
proof -
  let ?fl = "cb_flags cb"
  have same: "(states s)(a \<mapsto> state k) = states s" using assms(2) by (rule states_same)
  note p = assms(1) [unfolded tcp_process_def option.case with_sk_Some [OF assms(2)]]
  show ?thesis
  proof (cases "state k")
    case TCP_CLOSED
    then show ?thesis using p same by simp
  next
    case TCP_LISTEN
    then show ?thesis using p same listen_syn_states [of L a cb s s'] by (auto split: if_splits)
  next
    case TCP_SYN_RECV
    then show ?thesis using p same moves_states [OF moves_syn_recv [of a cb], of s s'] by (auto split: if_splits)
  next
    case TCP_SYN_SENT
    then show ?thesis
      using p same moves_states [OF moves_syn_sent [of a L cb], of s s'] keeps_states [OF keeps_reset [of L cb], of s s']
      by (auto split: if_splits)
  next
    case TCP_ESTABLISHED
    then show ?thesis
      using p same moves_states [OF moves_established_fin [of a L cb], of s s'] keeps_states [OF keeps_established_ack [of L a cb], of s s']
      by (auto split: if_splits)
  next
    case TCP_CLOSE_WAIT
    then show ?thesis
      using p moves_states [OF moves_close_wait [of a "cb_seq cb + 1" L "TCP_ACK OR TCP_FIN"], of s s'] by (simp del: steps.simps)
  next
    case TCP_LAST_ACK
    then show ?thesis using p same last_ack_states [of a "cb_ack cb" s s'] by (auto simp del: steps.simps split: if_splits)
  next
    case TCP_FIN_WAIT_1
    with p have f: "fin_wait_1 L a cb s = Inr s'" by simp
    from fin_wait_1_states [of a cb L] TCP_FIN_WAIT_1 show ?thesis
      using same f moves_states [of a _ "fin_wait_1 L a cb" s s'] keeps_states [of "fin_wait_1 L a cb" s s'] by auto
  next
    case TCP_FIN_WAIT_2
    then show ?thesis
      using p same moves_states [OF moves_fin_wait_2 [of a "cb_seq cb + 1" L TCP_ACK], of s s']
      by (auto simp del: steps.simps split: if_splits)
  next
    case TCP_CLOSING
    then show ?thesis using p same by simp
  next
    case TCP_TIME_WAIT
    then show ?thesis using p same by simp
  qed
qed

section \<open>Properties\<close>

text \<open>
  Property C5: The state machine. A segment processed for a socket in state \<open>x\<close> with flags \<open>fl\<close> leaves that
  socket in the state \<open>next_state x fl\<close> and every other socket in the state it was in, with
  two exceptions: a \<^verbatim>\<open>SYN\<close> for a listening socket leaves it listening and adds one socket in state
  \<^verbatim>\<open>SYN_RECV\<close>, and the last segment of a passive close may release the socket. In particular no
  segment leads from \<^verbatim>\<open>CLOSING\<close> to another state, and a socket that gets the other side's \<^verbatim>\<open>FIN\<close>
  together with the acknowledgement of its own ends in \<^verbatim>\<open>CLOSING\<close>, not in \<^verbatim>\<open>TIME_WAIT\<close>.
\<close>
theorem tcp_process_transitions:
  assumes "tcp_process L (Some a) cb s = Inr s'" "socks s a = Some k"
  shows "states s' =
      (if state k = TCP_LISTEN \<and> has (cb_flags cb) TCP_SYN then (states s)(nsock s \<mapsto> TCP_SYN_RECV)
       else (states s)(a \<mapsto> next_state (state k) (cb_flags cb))) \<or>
    state k = TCP_LAST_ACK \<and> states s' = (states s)(a := None)"
  using assms by (rule process_states)

theorem tcp_process_transitions_witness:
  "\<exists>s'. tcp_process example_env (Some 0) ((example_cb 1 [])\<lparr>cb_flags := TCP_FIN OR TCP_ACK\<rparr>) example_stack = Inr s' \<and>
     states s' = (states example_stack)(0 \<mapsto> TCP_CLOSE_WAIT)"
proof -
  let ?cb = "(example_cb 1 [])\<lparr>cb_flags := TCP_FIN OR TCP_ACK\<rparr>"
  have k: "state example_established = TCP_ESTABLISHED" by (simp add: example_established_def)
  obtain s' where s': "tcp_process example_env (Some 0) ?cb example_stack = Inr s'"
    using example_receiver(2) k
    by (simp add: tcp_process_def established_fin_def tcp_set_state_def wake_recv_def tcp_send_control_packet_def ip_send_def Let_def)
  from tcp_process_transitions [OF s' example_receiver(2)] k show ?thesis
    by (intro exI [of _ s'] conjI [OF s']) simp
qed

section \<open>The order of the states\<close>

text \<open>
  The states are an \<^verbatim>\<open>enum\<close>, so they have numbers, and these order them along the life of a
  connection.
\<close>

fun enum_value :: "tcp_state \<Rightarrow> nat" where
  "enum_value TCP_CLOSED = 0"
| "enum_value TCP_LISTEN = 1"
| "enum_value TCP_SYN_RECV = 2"
| "enum_value TCP_SYN_SENT = 3"
| "enum_value TCP_ESTABLISHED = 4"
| "enum_value TCP_CLOSE_WAIT = 5"
| "enum_value TCP_LAST_ACK = 6"
| "enum_value TCP_FIN_WAIT_1 = 7"
| "enum_value TCP_FIN_WAIT_2 = 8"
| "enum_value TCP_CLOSING = 9"
| "enum_value TCP_TIME_WAIT = 10"

lemma enum_value_inject: "enum_value x = enum_value y \<longleftrightarrow> x = y"
  by (cases x; cases y) simp_all

instantiation tcp_state :: linorder
begin

definition less_eq_tcp_state :: "tcp_state \<Rightarrow> tcp_state \<Rightarrow> bool" where
  "less_eq_tcp_state x y \<longleftrightarrow> enum_value x \<le> enum_value y"

definition less_tcp_state :: "tcp_state \<Rightarrow> tcp_state \<Rightarrow> bool" where
  "less_tcp_state x y \<longleftrightarrow> enum_value x < enum_value y"

instance
  by standard (auto simp: less_eq_tcp_state_def less_tcp_state_def enum_value_inject)

end

lemma next_state_advances: "x \<le> next_state x fl \<or> x = TCP_LAST_ACK \<and> next_state x fl = TCP_CLOSED"
  by (cases x) (simp_all add: less_eq_tcp_state_def)

text \<open>
  Connections only advance. Whatever segments arrive, no socket ever goes back to an earlier state, with
  the exception of a socket in \<^verbatim>\<open>LAST_ACK\<close> that is closed or released.
\<close>

theorem states_advance:
  assumes "tcp_process L (Some a) cb s = Inr s'" "socks s a = Some k" "socks s (nsock s) = None" "states s b = Some x"
  shows "(\<exists>y. states s' b = Some y \<and> (x \<le> y \<or> b = a \<and> x = TCP_LAST_ACK \<and> y = TCP_CLOSED)) \<or>
    b = a \<and> x = TCP_LAST_ACK \<and> states s' b = None"
proof -
  have "states s a = Some (state k)" "b \<noteq> nsock s" using assms(2-4) by (auto simp: states_def)
  then show ?thesis
    using process_states [OF assms(1,2)] assms(4) next_state_advances [of x "cb_flags cb"]
    by (cases "b = a") (auto split: if_splits)
qed

end
