(* ===== verification/Tcp_Conn.thy ===== *)
theory Tcp_Conn
  imports Tcp_Wire
begin

text \<open>
  Connections: how a server starts to listen, how a client connects, and what the socket
  tables look like afterwards. The three packets of the handshake are those the stacks really
  send, parsed back with \<open>Tcp_Wire\<close>.
\<close>

section \<open>The initial stack\<close>

fun is_head :: "node \<Rightarrow> bool" where
  "is_head (Est h) \<longleftrightarrow> h < 256"
| "is_head (Lis h) \<longleftrightarrow> h < 256"
| "is_head (Bnd h) \<longleftrightarrow> h < 256"
| "is_head Timer_List \<longleftrightarrow> True"
| "is_head _ \<longleftrightarrow> False"

lemma fold_init_list_head:
  "nxt (fold (\<lambda>n h. init_list_head h n) ns h) n = (if n \<in> set ns then Some n else nxt h n)"
  "prv (fold (\<lambda>n h. init_list_head h n) ns h) n = (if n \<in> set ns then Some n else prv h n)"
  by (induction ns arbitrary: h) (auto simp: init_list_head_def)

lemma init_heads:
  "n \<in> set (Timer_List # map Est [0..<256] @ map Lis [0..<256] @ map Bnd [0..<256]) \<longleftrightarrow> is_head n"
  by (cases n) (auto simp del: upt_rec_numeral)

lemma init_stack:
  "nxt (lh init_tcp_stack) n = (if is_head n then Some n else None)"
  "prv (lh init_tcp_stack) n = (if is_head n then Some n else None)"
  "socks init_tcp_stack = (\<lambda>_. None)" "nsock init_tcp_stack = 0" "sent init_tcp_stack = []"
  unfolding init_tcp_stack_def Let_def TCP_HASH_SIZE_def tcp_stack.simps fold_init_list_head init_heads by simp_all

lemma tcp_hash_function_less [simp]: "tcp_hash_function a b c d < 256"
  by (simp add: tcp_hash_function_def TCP_HASH_SIZE_def)

section \<open>Searching\<close>

lemma find_sk_empty: "nxt (lh s) l = Some l \<Longrightarrow> find_sk s test l = Inr None"
  by (simp add: find_sk_def list_for_each_find_def list_find.simps)

lemma find_sk_first:
  "nxt (lh s) l = Some n \<Longrightarrow> n \<noteq> l \<Longrightarrow> node_sock n = Some a \<Longrightarrow> socks s a = Some k \<Longrightarrow> test k \<Longrightarrow>
   find_sk s test l = Inr (Some a)"
  by (simp add: find_sk_def list_for_each_find_def list_find.simps sk_test_def)

lemma find_sk_loop:
  "nxt (lh s) l = Some n \<Longrightarrow> n \<noteq> l \<Longrightarrow> nxt (lh s) n = Some n \<Longrightarrow> node_sock n = Some a \<Longrightarrow> socks s a = Some k \<Longrightarrow>
   \<not> test k \<Longrightarrow> find_sk s test l = Inl Diverges"
  using list_find_self_loop [of "lh s" n l "sk_test s test"]
  by (simp add: find_sk_def list_for_each_find_def sk_test_def)

lemma get_port_first:
  assumes "tcp_port_in_use 12345 s = Inr False"
  shows "tcp_get_port s = Inr 12345"
proof -
  have "[PORT_MIN..<PORT_MAX] = PORT_MIN # [Suc PORT_MIN..<PORT_MAX]"
    by (rule upt_conv_Cons) (simp add: PORT_MIN_def PORT_MAX_def)
  moreover have "(of_nat PORT_MIN :: u16) = 12345" by (simp add: PORT_MIN_def)
  ultimately show ?thesis unfolding tcp_get_port_def using assms by (simp only: get_port_loop.simps res_bind_simps) simp
qed

lemma fresh_socket:
  obtains s1 where "alloc_tcp_sock init_tcp_stack = (0, s1)" "socks s1 = [0 \<mapsto> new_sock]" "nsock s1 = 1" "sent s1 = []"
    "\<And>n. nxt (lh s1) n = (if n \<in> {Sk_List 0, Listen_Queue 0, Accept_Queue 0} \<or> is_head n then Some n else None)"
    "\<And>n. prv (lh s1) n = (if n \<in> {Sk_List 0, Listen_Queue 0, Accept_Queue 0} \<or> is_head n then Some n else None)"
proof -
  define s1 where "s1 = snd (alloc_tcp_sock init_tcp_stack)"
  have "alloc_tcp_sock init_tcp_stack = (0, s1)" by (simp add: s1_def alloc_tcp_sock_def init_stack Let_def)
  moreover have "socks s1 = [0 \<mapsto> new_sock]" "nsock s1 = 1" "sent s1 = []"
    "nxt (lh s1) n = (if n \<in> {Sk_List 0, Listen_Queue 0, Accept_Queue 0} \<or> is_head n then Some n else None)"
    "prv (lh s1) n = (if n \<in> {Sk_List 0, Listen_Queue 0, Accept_Queue 0} \<or> is_head n then Some n else None)" for n
    by (cases n; auto simp: s1_def alloc_tcp_sock_def init_stack Let_def clear_nodes_def init_list_head_def)+
  ultimately show ?thesis using that by blast
qed

section \<open>The server starts to listen\<close>

abbreviation port_bucket :: "u16 \<Rightarrow> nat" where
  "port_bucket p \<equiv> tcp_hash_function 0 0 p 0"

text \<open>The tables after the server has started: the bucket of its port is a loop.\<close>

definition listen_sock :: "u16 \<Rightarrow> tcp_sock" where
  "listen_sock port = new_sock\<lparr>sk_sport := port, ref_cnt := 2, backlog := 3, state := TCP_LISTEN\<rparr>"

definition listening :: "u16 \<Rightarrow> tcp_stack \<Rightarrow> bool" where
  "listening port s \<longleftrightarrow> nsock s = 1 \<and> sent s = [] \<and>
     socks s = [0 \<mapsto> listen_sock port] \<and>
     nxt (lh s) (Lis (port_bucket port)) = Some (Hash_List 0) \<and> nxt (lh s) (Hash_List 0) = Some (Hash_List 0) \<and>
     (\<forall>h. h < 256 \<longrightarrow> nxt (lh s) (Est h) = Some (Est h) \<and> prv (lh s) (Est h) = Some (Est h)) \<and>
     (\<forall>h. h < 256 \<longrightarrow> h \<noteq> port_bucket port \<longrightarrow> nxt (lh s) (Lis h) = Some (Lis h)) \<and>
     nxt (lh s) (Accept_Queue 0) = Some (Accept_Queue 0) \<and> prv (lh s) (Accept_Queue 0) = Some (Accept_Queue 0) \<and>
     nxt (lh s) Timer_List = Some Timer_List \<and> prv (lh s) Timer_List = Some Timer_List"

lemmas list_op_defs = list_add_head_def list_add_tail_def list_insert_def list_delete_entry_def init_list_head_def
  list_empty_def upd_lh_def

lemma server_start:
  assumes "port \<noteq> 0"
  shows "\<exists>s. tcp_server_start (htons port) init_tcp_stack = Inr (Some 0, s) \<and> listening port s"
proof -
  obtain s1 where a: "alloc_tcp_sock init_tcp_stack = (0, s1)" and
    s1: "socks s1 = [0 \<mapsto> new_sock]" "nsock s1 = 1" "sent s1 = []"
    "\<And>n. nxt (lh s1) n = (if n \<in> {Sk_List 0, Listen_Queue 0, Accept_Queue 0} \<or> is_head n then Some n else None)"
    "\<And>n. prv (lh s1) n = (if n \<in> {Sk_List 0, Listen_Queue 0, Accept_Queue 0} \<or> is_head n then Some n else None)"
    by (rule fresh_socket) blast
  have "tcp_port_in_use port s1 = Inr False" by (simp add: tcp_port_in_use_def find_sk_empty s1)
  then have "tcp_sock_bind 0 (htons port) s1 = res_map (Pair 0) (steps [upd_sk 0 (\<lambda>k. k\<lparr>sk_sport := port\<rparr>), tcp_bind_hash 0] s1)"
    using assms by (simp add: tcp_sock_bind_def tcp_sock_set_sport_def)
  then show ?thesis
    using s1 assms
    by (simp add: tcp_server_start_def a tcp_bind_hash_def tcp_sock_listen_def tcp_set_state_def tcp_hash_def
        list_op_defs listening_def listen_sock_def new_sock_def put_sk_def Let_def)
qed

lemma listening_lookup:
  assumes "listening port s"
  shows "tcp_sock_lookup cb s =
    (if cb_dport cb = port then Inr (Some 0)
     else if port_bucket (cb_dport cb) = port_bucket port then Inl Diverges else Inr None)"
  using assms
  by (auto simp: tcp_sock_lookup_def tcp_sock_lookup_established_def tcp_sock_lookup_listen_def listening_def find_sk_empty
      find_sk_first [of s _ "Hash_List 0"] find_sk_loop [of s _ "Hash_List 0"] listen_sock_def)

section \<open>The client connects\<close>

definition client_sock :: "u32 \<Rightarrow> u32 \<Rightarrow> u16 \<Rightarrow> tcp_sock" where
  "client_sock sip dip port = new_sock\<lparr>sk_sip := sip, sk_sport := 12345, sk_dip := dip, sk_dport := port, ref_cnt := 3,
     state := TCP_SYN_SENT, snd_nxt := 1, wait_connect := wait_init\<lparr>sleep := True\<rparr>\<rparr>"

definition connecting :: "u32 \<Rightarrow> u32 \<Rightarrow> u16 \<Rightarrow> tcp_stack \<Rightarrow> bool" where
  "connecting sip dip port s \<longleftrightarrow> nsock s = 1 \<and> socks s = [0 \<mapsto> client_sock sip dip port] \<and>
     (\<exists>p. sent s = [Ip_Send p] \<and> carries p (seg_cb sip dip 12345 port 0 0 TCP_SYN 65535 [])) \<and>
     nxt (lh s) (Est (tcp_hash_function sip dip 12345 port)) = Some (Hash_List 0) \<and>
     nxt (lh s) (Bnd (port_bucket 12345)) = Some (Bind_Hash_List 0) \<and>
     nxt (lh s) (Bind_Hash_List 0) = Some (Bind_Hash_List 0) \<and>
     nxt (lh s) Timer_List = Some Timer_List \<and> prv (lh s) Timer_List = Some Timer_List"

lemma client_start:
  assumes "libnet L" "l_route L dip = Some sip"
  shows "\<exists>s. tcp_client_start L (htonl dip) (htons port) init_tcp_stack = Inr (0, Asleep, s) \<and> connecting sip dip port s"
proof -
  obtain s1 where a: "alloc_tcp_sock init_tcp_stack = (0, s1)" "socks s1 = [0 \<mapsto> new_sock]" "nsock s1 = 1" "sent s1 = []"
    "\<And>n. nxt (lh s1) n = (if n \<in> {Sk_List 0, Listen_Queue 0, Accept_Queue 0} \<or> is_head n then Some n else None)"
    "\<And>n. prv (lh s1) n = (if n \<in> {Sk_List 0, Listen_Queue 0, Accept_Queue 0} \<or> is_head n then Some n else None)"
    by (rule fresh_socket) blast
  have "tcp_port_in_use 12345 s1 = Inr False" by (simp add: tcp_port_in_use_def find_sk_empty a)
  from get_port_first [OF this]
  have b: "tcp_sock_set_sport 0 0 s1 = res_map (Pair 0) (steps [upd_sk 0 (\<lambda>k. k\<lparr>sk_sport := 12345\<rparr>), tcp_bind_hash 0] s1)"
    by (simp add: tcp_sock_set_sport_def)
  note c = libnet.control_carries [OF assms(1) libnet.malloc_size [OF assms(1), of 0 54], of 0 sip dip 12345 port 0 0 TCP_SYN 65535]
  show ?thesis
    using a assms(2) c
    by (simp add: tcp_client_start_def tcp_sock_connect_def b tcp_bind_hash_def tcp_set_state_def tcp_hash_def
        tcp_send_control_packet_def ip_send_def sleep_connect_def sleep_on_enter_def
        list_op_defs connecting_def client_sock_def new_sock_def put_sk_def wait_init_def find_sk_empty Let_def)
qed

section \<open>The handshake\<close>

definition child_sock :: "u32 \<Rightarrow> u32 \<Rightarrow> u16 \<Rightarrow> u16 \<Rightarrow> u32 \<Rightarrow> u32 \<Rightarrow> tcp_sock" where
  "child_sock sip dip port cport isn seq = new_sock\<lparr>sk_sip := sip, sk_sport := port, sk_dip := dip, sk_dport := cport,
     parent := Some 0, ref_cnt := 1, state := TCP_SYN_RECV, iss := isn, snd_nxt := isn + 1, rcv_nxt := seq + 1\<rparr>"

definition half_open :: "u32 \<Rightarrow> u32 \<Rightarrow> u16 \<Rightarrow> u16 \<Rightarrow> u32 \<Rightarrow> u32 \<Rightarrow> tcp_stack \<Rightarrow> bool" where
  "half_open sip dip port cport isn seq s \<longleftrightarrow> nsock s = 2 \<and>
     socks s = [0 \<mapsto> (listen_sock port)\<lparr>accept_backlog := 1, wait_accept := wake wait_init\<rparr>,
                1 \<mapsto> child_sock sip dip port cport isn seq] \<and>
     nxt (lh s) (Est (tcp_hash_function sip dip port cport)) = Some (Hash_List 1) \<and>
     nxt (lh s) (Accept_Queue 0) = Some (Sk_List 1) \<and> nxt (lh s) (Sk_List 1) = Some (Accept_Queue 0) \<and>
     prv (lh s) (Sk_List 1) = Some (Accept_Queue 0) \<and> prv (lh s) (Accept_Queue 0) = Some (Sk_List 1) \<and>
     nxt (lh s) (Lis (port_bucket port)) = Some (Hash_List 0) \<and>
     nxt (lh s) (Bind_Hash_List 1) = None \<and>
     nxt (lh s) Timer_List = Some Timer_List \<and> prv (lh s) Timer_List = Some Timer_List"

lemma server_syn:
  assumes "libnet L" "listening port s" "carries p (seg_cb dip sip cport port seq ack TCP_SYN wnd [])"
  defines "isn \<equiv> l_rand L 1"
  shows "\<exists>s' q. handle_tcp_packet L p s = Inr s' \<and> half_open sip dip port cport isn seq s' \<and> sent s' = [Ip_Send q] \<and>
    carries q (seg_cb sip dip port cport isn (seq + 1) (TCP_SYN OR TCP_ACK) 65535 [])"
proof -
  let ?cb = "seg_cb dip sip cport port seq ack TCP_SYN wnd []"
  note c = libnet.control_carries [OF assms(1) libnet.malloc_size [OF assms(1), of 0 54],
      of 0 sip dip port cport isn "seq + 1" "TCP_SYN OR TCP_ACK" 65535]
  have "handle_tcp_packet L p s = listen_syn L 0 ?cb s"
    using assms(2) handle_carries [OF assms(3), of L s] listening_lookup [OF assms(2), of ?cb]
    by (simp add: seg_cb_def tcp_process_def listening_def listen_sock_def)
  moreover have "\<exists>s' q. listen_syn L 0 ?cb s = Inr s' \<and> half_open sip dip port cport isn seq s' \<and> sent s' = [Ip_Send q] \<and>
    carries q (seg_cb sip dip port cport isn (seq + 1) (TCP_SYN OR TCP_ACK) 65535 [])"
    using assms(2) c
    by (simp add: listen_syn_def alloc_tcp_sock_def listening_def clear_nodes_def seg_cb_def [of dip] list_op_defs
        tcp_set_state_def tcp_hash_def find_sk_empty tcp_send_control_packet_def ip_send_def tcp_sock_accept_enqueue_def
        half_open_def child_sock_def new_sock_def listen_sock_def put_sk_def Let_def isn_def fun_upd_twist)
  ultimately show ?thesis by simp
qed

text \<open>
  The client after the second packet: the connection is established, and the send window is
  still 0, because it was computed before the congestion window was set.
\<close>

definition connected_sock :: "u32 \<Rightarrow> u32 \<Rightarrow> u16 \<Rightarrow> u32 \<Rightarrow> tcp_sock" where
  "connected_sock sip dip port isn = (client_sock sip dip port)\<lparr>rcv_nxt := isn + 1, state := TCP_ESTABLISHED,
     snd_una := 1, adv_wnd := 65535, snd_wnd := 0, ref_cnt := 4,
     persist_timer := \<lparr>timeout = TCP_RETRANS_INTERVAL_INITIAL, enable = True, retrans_cnt = 0\<rparr>,
     cwnd := 1460, ssthresh := 65536, wait_connect := \<lparr>notified = True, dead = False, sleep = True\<rparr>\<rparr>"

definition client_ready :: "u32 \<Rightarrow> u32 \<Rightarrow> u16 \<Rightarrow> u32 \<Rightarrow> tcp_stack \<Rightarrow> bool" where
  "client_ready sip dip port isn s \<longleftrightarrow> socks s = [0 \<mapsto> connected_sock sip dip port isn] \<and>
     nxt (lh s) Timer_List = Some (Persist_Timer 0) \<and> nxt (lh s) (Persist_Timer 0) = Some Timer_List \<and>
     prv (lh s) Timer_List = Some (Persist_Timer 0) \<and> prv (lh s) (Persist_Timer 0) = Some Timer_List \<and>
     nxt (lh s) (Est (tcp_hash_function sip dip 12345 port)) = Some (Hash_List 0)"

lemma window_zero: "min_wnd w 0 = 0"
proof -
  have "0 \<le> u32_fl w"
    unfolding u32_fl_def fl32_def Let_def pow2_def round_even_def by (auto intro!: mult_nonneg_nonneg)
  then show ?thesis by (simp add: min_wnd_def fl_u32_def)
qed

lemma client_synack:
  assumes "libnet L" "connecting sip dip port s" "carries q (seg_cb dip sip port 12345 isn 1 (TCP_SYN OR TCP_ACK) 65535 [])"
  shows "\<exists>s' r. handle_tcp_packet L q s = Inr s' \<and> client_ready sip dip port isn s' \<and>
    sent s' = sent s @ [Ip_Send r] \<and> carries r (seg_cb sip dip 12345 port 1 (isn + 1) TCP_ACK 65535 [])"
proof -
  let ?cb = "seg_cb dip sip port 12345 isn 1 (TCP_SYN OR TCP_ACK) 65535 []"
  note c = libnet.control_carries [OF assms(1) libnet.malloc_size [OF assms(1), of 1 54],
      of 1 sip dip 12345 port 1 "isn + 1" TCP_ACK 65535]
  note st = assms(2) [unfolded connecting_def]
  have f: "find_sk t (same_conn sip dip 12345 port) (Est (tcp_hash_function sip dip 12345 port)) = Inr (Some 0)"
    if "nxt (lh t) (Est (tcp_hash_function sip dip 12345 port)) = Some (Hash_List 0)" "socks t 0 = Some k"
      "same_conn sip dip 12345 port k" for t k
    using that by (intro find_sk_first [of t _ "Hash_List 0"]) simp_all
  have "tcp_sock_lookup ?cb s = Inr (Some 0)"
    using st by (simp add: tcp_sock_lookup_def tcp_sock_lookup_established_def seg_cb_def f client_sock_def same_conn_def)
  then have "handle_tcp_packet L q s = syn_sent_synack L 0 ?cb s"
    using handle_carries [OF assms(3), of L s] st by (simp add: seg_cb_def tcp_process_def client_sock_def)
  moreover have "\<exists>s' r. syn_sent_synack L 0 ?cb s = Inr s' \<and> client_ready sip dip port isn s' \<and>
    sent s' = sent s @ [Ip_Send r] \<and> carries r (seg_cb sip dip 12345 port 1 (isn + 1) TCP_ACK 65535 [])"
    using st c
    by (auto simp: client_ready_def syn_sent_synack_def seg_cb_def [of dip] tcp_set_state_def tcp_hash_def f same_conn_def
        tcp_update_send_buffer_def tcp_unset_retrans_timer_def tcp_update_retrans_timer_def tcp_update_window_safe_def
        tcp_update_window_def tcp_tx_window_test_def window_zero tcp_set_persist_timer_def seq_cmp_defs list_op_defs
        tcp_send_control_packet_def ip_send_def connected_sock_def client_sock_def new_sock_def zero_timer_def
        put_sk_def Let_def wake_def wake_up_def wait_init_def fun_upd_twist)
  ultimately show ?thesis by simp
qed

text \<open>What matters of the server's side of a connection, whatever its state.\<close>

definition child_of :: "u32 \<Rightarrow> u32 \<Rightarrow> u16 \<Rightarrow> u16 \<Rightarrow> tcp_stack \<Rightarrow> tcp_sock \<Rightarrow> bool" where
  "child_of sip dip port cport s k \<longleftrightarrow> socks s 1 = Some k \<and> same_conn sip dip port cport k \<and> send_buf k = [] \<and>
     \<not> enable (retrans_timer k) \<and> nxt (lh s) (Est (tcp_hash_function sip dip port cport)) = Some (Hash_List 1) \<and>
     nxt (lh s) (Bind_Hash_List 1) = None"

lemma child_lookup:
  assumes "child_of sip dip port cport s k"
  shows "tcp_sock_lookup (seg_cb dip sip cport port seq ack flags wnd d) s = Inr (Some 1)"
proof -
  have "find_sk s (same_conn sip dip port cport) (Est (tcp_hash_function sip dip port cport)) = Inr (Some 1)"
    using assms by (intro find_sk_first [of s _ "Hash_List 1" 1 k]) (simp_all add: child_of_def)
  then show ?thesis by (simp add: tcp_sock_lookup_def tcp_sock_lookup_established_def seg_cb_def)
qed

lemma child_handle:
  assumes "child_of sip dip port cport s k" "carries p (seg_cb dip sip cport port seq ack flags wnd d)"
  shows "handle_tcp_packet L p s = tcp_process L (Some 1) (seg_cb dip sip cport port seq ack flags wnd d) s"
  using handle_carries [OF assms(2)] child_lookup [OF assms(1)] by simp

definition server_ready :: "u32 \<Rightarrow> u32 \<Rightarrow> u16 \<Rightarrow> u16 \<Rightarrow> u32 \<Rightarrow> u32 \<Rightarrow> tcp_stack \<Rightarrow> tcp_sock \<Rightarrow> bool" where
  "server_ready sip dip port cport isn seq s k \<longleftrightarrow> child_of sip dip port cport s k \<and> state k = TCP_ESTABLISHED \<and>
     rcv_nxt k = seq + 1 \<and> snd_nxt k = isn + 1 \<and> \<not> rcv_buf_lock k \<and> rcv_wnd k = 65535 \<and> rcv_ofo_buf k = [] \<and>
     rcv_buf k = alloc_ring_buffer 65535 \<and> prv (lh s) Timer_List \<noteq> None \<and>
     nxt (lh s) (Accept_Queue 0) = Some (Sk_List 1) \<and> nxt (lh s) (Sk_List 1) = Some (Accept_Queue 0) \<and>
     prv (lh s) (Sk_List 1) = Some (Accept_Queue 0) \<and> nxt (lh s) (Lis (port_bucket port)) = Some (Hash_List 0)"

lemma server_ack:
  assumes "half_open sip dip port cport isn seq s" "carries r (seg_cb dip sip cport port seq' (isn + 1) TCP_ACK wnd [])"
  shows "\<exists>s' k. handle_tcp_packet L r s = Inr s' \<and> server_ready sip dip port cport isn seq s' k \<and>
    sent s' = sent s \<and> socks s' 0 = socks s 0"
proof -
  note st = assms(1) [unfolded half_open_def]
  let ?cb = "seg_cb dip sip cport port seq' (isn + 1) TCP_ACK wnd []"
  let ?k = "child_sock sip dip port cport isn seq"
  have ch: "child_of sip dip port cport s ?k"
    using st by (simp add: child_of_def child_sock_def same_conn_def new_sock_def zero_timer_def)
  have "handle_tcp_packet L r s = syn_recv_ack 1 ?cb s"
    using child_handle [OF ch assms(2), of L] st by (simp add: seg_cb_def tcp_process_def child_sock_def)
  moreover have "\<exists>s' k. syn_recv_ack 1 ?cb s = Inr s' \<and> server_ready sip dip port cport isn seq s' k \<and>
    sent s' = sent s \<and> socks s' 0 = socks s 0"
    using st
    by (cases "less_or_equal_32b 0 (isn + 1)")
      (simp_all add: server_ready_def syn_recv_ack_def seg_cb_def tcp_set_state_def tcp_update_window_safe_def seq_cmp_defs
        tcp_update_window_def tcp_tx_window_test_def window_zero tcp_set_persist_timer_def list_op_defs
        tcp_unset_retrans_timer_def wake_recv_def child_of_def child_sock_def new_sock_def zero_timer_def
        same_conn_def put_sk_def)
  ultimately show ?thesis by simp
qed

lemma accept_child:
  assumes "socks s 0 = Some k" "state k = TCP_LISTEN" "nxt (lh s) (Accept_Queue 0) = Some (Sk_List 1)"
    "nxt (lh s) (Sk_List 1) = Some (Accept_Queue 0)" "prv (lh s) (Sk_List 1) = Some (Accept_Queue 0)"
    "nxt (lh s) (Lis (port_bucket (sk_sport k))) = Some n"
  shows "\<exists>s'. tcp_sock_accept 0 s = Inr (Ret (Some 1), s') \<and> socks s' 1 = socks s 1"
  using assms
  by (simp add: tcp_sock_accept_def accept_finish_def tcp_sock_accept_dequeue_def list_op_defs tcp_hash_def Let_def)

section \<open>Properties\<close>

definition server_run :: "tcp_env \<Rightarrow> u16 \<Rightarrow> bytes list \<Rightarrow> tcp_stack res" where
  "server_run L port pkts =
     res_bind (tcp_server_start (htons port) init_tcp_stack) (\<lambda>(a, s). steps (map (handle_tcp_packet L) pkts) s)"

lemma handshake:
  assumes "libnet Lc" "libnet Ls" "l_route Lc dip = Some sip" "port \<noteq> 0"
  defines "isn \<equiv> l_rand Ls 1"
  shows "\<exists>cl p sv q cl' r sv' c l.
    tcp_client_start Lc (htonl dip) (htons port) init_tcp_stack = Inr (0, Asleep, cl) \<and> sent cl = [Ip_Send p] \<and>
    server_run Ls port [p] = Inr sv \<and> sent sv = [Ip_Send q] \<and>
    handle_tcp_packet Lc q cl = Inr cl' \<and> sent cl' = [Ip_Send p, Ip_Send r] \<and> client_ready sip dip port isn cl' \<and>
    server_run Ls port [p, r] = Inr sv' \<and> sent sv' = [Ip_Send q] \<and> server_ready dip sip port 12345 isn 0 sv' c \<and>
    socks sv' 0 = Some l \<and> state l = TCP_LISTEN \<and> sk_sport l = port"
proof -
  obtain sv0 where sv0: "tcp_server_start (htons port) init_tcp_stack = Inr (Some 0, sv0)" "listening port sv0"
    using server_start [OF assms(4)] by blast
  obtain cl where cl: "tcp_client_start Lc (htonl dip) (htons port) init_tcp_stack = Inr (0, Asleep, cl)"
    "connecting sip dip port cl" using client_start [OF assms(1,3)] by blast
  then obtain p where p: "sent cl = [Ip_Send p]" "carries p (seg_cb sip dip 12345 port 0 0 TCP_SYN 65535 [])"
    by (auto simp: connecting_def)
  obtain sv q where sv: "handle_tcp_packet Ls p sv0 = Inr sv" "half_open dip sip port 12345 isn 0 sv" "sent sv = [Ip_Send q]"
    "carries q (seg_cb dip sip port 12345 isn (0 + 1) (TCP_SYN OR TCP_ACK) 65535 [])"
    using server_syn [OF assms(2) sv0(2) p(2)] isn_def by blast
  obtain cl' r where cl': "handle_tcp_packet Lc q cl = Inr cl'" "client_ready sip dip port isn cl'"
    "sent cl' = sent cl @ [Ip_Send r]" "carries r (seg_cb sip dip 12345 port 1 (isn + 1) TCP_ACK 65535 [])"
    using client_synack [OF assms(1) cl(2), of q isn] sv(4) by auto
  obtain sv' c where sv': "handle_tcp_packet Ls r sv = Inr sv'" "server_ready dip sip port 12345 isn 0 sv' c"
    "sent sv' = sent sv" "socks sv' 0 = socks sv 0"
    using server_ack [OF sv(2) cl'(4), of Ls] by blast
  have "server_run Ls port [p] = Inr sv" "server_run Ls port [p, r] = Inr sv'"
    using sv0(1) sv(1) sv'(1) by (simp_all add: server_run_def)
  moreover obtain l where "socks sv' 0 = Some l" "state l = TCP_LISTEN" "sk_sport l = port"
    using sv(2) sv'(4) by (simp add: half_open_def listen_sock_def)
  ultimately show ?thesis using cl(1) p(1) sv(3) cl'(1-3) sv'(2,3)
    by (intro exI [of _ cl] exI [of _ p] exI [of _ sv] exI [of _ q] exI [of _ cl'] exI [of _ r] exI [of _ sv']
        exI [of _ c] exI [of _ l]) simp
qed

text \<open>
  Property C4: The three-way handshake works. A server starts to listen on a port and a client connects to it,
  each on its own stack; the packets each side sends are given to the other. The client sends
  one packet, the server answers with one, the client with another; then both sockets are
  established with mirrored addresses and ports, each expects the sequence number the other
  will send next, \<^verbatim>\<open>tcp_sock_connect\<close> returns 0 and \<^verbatim>\<open>tcp_sock_accept\<close> returns the new socket.
\<close>
theorem tcp_handshake:
  assumes "libnet Lc" "libnet Ls" "l_route Lc dip = Some sip" "port \<noteq> 0"
  shows "\<exists>cl p sv q cl' r sv' k c.
    tcp_client_start Lc (htonl dip) (htons port) init_tcp_stack = Inr (0, Asleep, cl) \<and> sent cl = [Ip_Send p] \<and>
    server_run Ls port [p] = Inr sv \<and> sent sv = [Ip_Send q] \<and>
    handle_tcp_packet Lc q cl = Inr cl' \<and> sent cl' = [Ip_Send p, Ip_Send r] \<and>
    server_run Ls port [p, r] = Inr sv' \<and>
    socks cl' 0 = Some k \<and> state k = TCP_ESTABLISHED \<and> same_conn sip dip 12345 port k \<and>
    socks sv' 1 = Some c \<and> state c = TCP_ESTABLISHED \<and> same_conn dip sip port 12345 c \<and>
    rcv_nxt c = snd_nxt k \<and> rcv_nxt k = snd_nxt c \<and>
    (\<exists>t. tcp_sock_connect_resume 0 cl' = Inr (0, t)) \<and> (\<exists>t. tcp_sock_accept 0 sv' = Inr (Ret (Some 1), t))"
proof -
  let ?isn = "l_rand Ls 1"
  obtain cl p sv q cl' r sv' c l where h:
    "tcp_client_start Lc (htonl dip) (htons port) init_tcp_stack = Inr (0, Asleep, cl)" "sent cl = [Ip_Send p]"
    "server_run Ls port [p] = Inr sv" "sent sv = [Ip_Send q]" "handle_tcp_packet Lc q cl = Inr cl'"
    "sent cl' = [Ip_Send p, Ip_Send r]" "client_ready sip dip port ?isn cl'" "server_run Ls port [p, r] = Inr sv'"
    "server_ready dip sip port 12345 ?isn 0 sv' c" "socks sv' 0 = Some l" "state l = TCP_LISTEN" "sk_sport l = port"
    using handshake [OF assms] by blast
  let ?k = "connected_sock sip dip port ?isn"
  have k: "socks cl' 0 = Some ?k" "state ?k = TCP_ESTABLISHED" "same_conn sip dip 12345 port ?k" "snd_nxt ?k = 1"
    "rcv_nxt ?k = ?isn + 1" using h(7) by (simp_all add: client_ready_def connected_sock_def client_sock_def same_conn_def)
  then have "\<exists>t. tcp_sock_connect_resume 0 cl' = Inr (0, t)"
    by (simp add: tcp_sock_connect_resume_def connect_result_def)
  moreover have "\<exists>t. tcp_sock_accept 0 sv' = Inr (Ret (Some 1), t)"
    using accept_child [OF h(10,11)] h(9,12) by (auto simp: server_ready_def)
  moreover have "socks sv' 1 = Some c" "same_conn dip sip port 12345 c" "state c = TCP_ESTABLISHED" "rcv_nxt c = 1"
    "snd_nxt c = ?isn + 1" using h(9) by (simp_all add: server_ready_def child_of_def)
  ultimately show ?thesis using h(1-6,8) k
    by (intro exI [of _ cl] exI [of _ p] exI [of _ sv] exI [of _ q] exI [of _ cl'] exI [of _ r] exI [of _ sv']
        exI [of _ ?k] exI [of _ c]) simp
qed

abbreviation lab_env :: tcp_env where
  "lab_env \<equiv> router_env example_router (\<lambda>_. Some 0x0a000001) 42"

theorem tcp_handshake_witness:
  "\<exists>cl p sv q cl' r sv' k c.
    tcp_client_start lab_env (htonl 0x0a000002) (htons 80) init_tcp_stack = Inr (0, Asleep, cl) \<and> sent cl = [Ip_Send p] \<and>
    server_run lab_env 80 [p] = Inr sv \<and> sent sv = [Ip_Send q] \<and>
    handle_tcp_packet lab_env q cl = Inr cl' \<and> sent cl' = [Ip_Send p, Ip_Send r] \<and>
    server_run lab_env 80 [p, r] = Inr sv' \<and>
    socks cl' 0 = Some k \<and> state k = TCP_ESTABLISHED \<and> same_conn 0x0a000001 0x0a000002 12345 80 k \<and>
    socks sv' 1 = Some c \<and> state c = TCP_ESTABLISHED \<and> same_conn 0x0a000002 0x0a000001 80 12345 c \<and>
    rcv_nxt c = snd_nxt k \<and> rcv_nxt k = snd_nxt c \<and>
    (\<exists>t. tcp_sock_connect_resume 0 cl' = Inr (0, t)) \<and> (\<exists>t. tcp_sock_accept 0 sv' = Inr (Ret (Some 1), t))"
  by (rule tcp_handshake [OF ln.libnet_axioms ln.libnet_axioms]) (simp_all add: router_env_def)

text \<open>
  Property C13: A packet for a closed port stops the server. After a server has started to listen on a
  port, every well-formed packet for another port makes it hang, when the port falls into the
  same bucket of the hash table (the listening socket was linked twice and is its own
  successor), or follow a null pointer; the reset the code means to send is never sent.
\<close>
theorem closed_port_stops_server:
  assumes "port \<noteq> 0" "carries p cb" "cb_dport cb \<noteq> port"
  shows "server_run L port [p] =
    Inl (if port_bucket (cb_dport cb) = port_bucket port then Diverges else Null_Deref)"
proof -
  obtain s where "tcp_server_start (htons port) init_tcp_stack = Inr (Some 0, s)" "listening port s"
    using server_start [OF assms(1)] by blast
  then show ?thesis
    using handle_carries [OF assms(2), of L s] listening_lookup [of port s cb] assms(3)
    by (simp add: server_run_def)
qed

theorem closed_port_stops_server_witness:
  "server_run lab_env 80 [control_packet lab_env 0 1 2 12345 0x1141 0 0 TCP_SYN 65535 (replicate 54 0)] = Inl Diverges \<and>
   server_run lab_env 80 [control_packet lab_env 0 1 2 12345 81 0 0 TCP_SYN 65535 (replicate 54 0)] = Inl Null_Deref"
proof -
  have b: "port_bucket 0x1141 = port_bucket 80" "port_bucket 81 \<noteq> port_bucket 80"
    by (simp_all add: tcp_hash_function_def hash8_def bytes32_def bytes16_def lo8_def hi8_def lo16_def hi16_def TCP_HASH_SIZE_def)
  have c: "carries (control_packet lab_env 0 1 2 12345 x 0 0 TCP_SYN 65535 (replicate 54 0)) (seg_cb 1 2 12345 x 0 0 TCP_SYN 65535 [])" for x
    by (rule ln.control_carries) (rule length_replicate)
  show ?thesis
    using closed_port_stops_server [OF _ c [of "0x1141"], where port = 80 and L = lab_env]
      closed_port_stops_server [OF _ c [of 81], where port = 80 and L = lab_env] b
    by (simp add: seg_cb_def)
qed

end
