(* ===== verification/Tcp_Cc.thy ===== *)
theory Tcp_Cc
  imports Tcp_Write
begin

text \<open>
  Congestion control and retransmission: slow start, fast retransmit, and what a retransmitted
  packet carries. The congestion window is a \<^verbatim>\<open>float\<close>, exact for whole numbers below \<open>2\<^sup>2\<^sup>4\<close>.
\<close>

section \<open>Single precision\<close>

lemma round_even_int: "round_even (of_int n) = n"
  by (simp add: round_even_def)

lemma fl32_nat:
  assumes "n < 2 ^ 24"
  shows "fl32 (of_nat n) = of_nat n"
proof (cases "n = 0")
  case True
  then show ?thesis by (simp add: fl32_def)
next
  case False
  define j where "j = 24 - floorlog 2 n"
  have "floorlog 2 n \<le> 24" using assms by (intro floorlog_leI) simp_all
  then have "ilog2 (of_nat n) - 23 = - int j" using False by (simp add: ilog2_def j_def)
  moreover have "pow2 (- int j) = 1 / 2 ^ j" by (cases "j = 0") (simp_all add: pow2_def)
  moreover have "(of_nat n :: rat) / (1 / 2 ^ j) = of_int (int n * 2 ^ j)" by simp
  ultimately show ?thesis using False round_even_int [of "int n * 2 ^ j"] by (simp add: fl32_def)
qed

lemma fl32_numeral [simp]: "numeral n < (2 ^ 24 :: nat) \<Longrightarrow> fl32 (numeral n) = numeral n"
  using fl32_nat [of "numeral n"] by simp

lemma u32_fl_small: "unat w < 2 ^ 24 \<Longrightarrow> u32_fl w = of_nat (unat w)"
  using fl32_nat [of "unat w"] by (simp add: u32_fl_def)

lemma fl_u32_nat: "fl_u32 (of_nat n) = of_nat n"
  by (simp add: fl_u32_def)

lemma fl_u32_half: "fl_u32 (of_nat n / 2) = of_nat (n div 2)"
proof -
  have "\<lfloor>(of_nat n :: rat) / 2\<rfloor> = int (n div 2)" using floor_divide_of_nat_eq [of n 2, where 'a = rat] by simp
  then show ?thesis unfolding fl_u32_def by (metis of_int_of_nat_eq)
qed

section \<open>Slow start\<close>

definition slow_start :: "nat \<Rightarrow> tcp_sock \<Rightarrow> tcp_sock" where
  "slow_start n k = k\<lparr>cwnd := of_nat (1460 * (n + 1)), dup_ack_count := 0,
     cc_state := (if n < 44 then TCP_SLOW_START else TCP_CONGESTION_AVOIDANCE)\<rparr>"

lemma slow_start_ack:
  assumes "n < 44" "ssthresh k = 65536" "snd_una k \<le> ack"
  shows "cc_ack ack (slow_start n k) = slow_start (Suc n) k"
proof -
  have "fl32 (of_nat (1460 * (n + 1)) + of_nat TCP_MSS) = of_nat (1460 * (Suc n + 1))"
    using fl32_nat [of "1460 * (Suc n + 1)"] assms(1) by (simp add: algebra_simps)
  moreover have "u32_fl 65536 = 65536" by (simp add: u32_fl_def)
  moreover have "(65536 :: rat) < of_nat (1460 * (Suc n + 1)) \<longleftrightarrow> \<not> Suc n < 44"
  proof -
    have "(65536 :: rat) < of_nat (1460 * (Suc n + 1)) \<longleftrightarrow> (of_nat 65536 :: rat) < of_nat (1460 * (Suc n + 1))" by simp
    also have "\<dots> \<longleftrightarrow> 65536 < 1460 * (Suc n + 1)" by (simp only: of_nat_less_iff)
    finally show ?thesis by auto
  qed
  ultimately show ?thesis using assms unfolding slow_start_def by (simp add: cc_ack_def Let_def not_less del: of_nat_Suc of_nat_add of_nat_mult)
qed

lemma cc_no_retransmit:
  assumes "socks s a = Some k" "dup_ack_count (cc_ack (cb_ack cb) k) < 3"
  shows "tcp_congestion_control L a cb s = Inr (put_sk a (cc_ack (cb_ack cb) k) s)"
  using assms by (auto simp: tcp_congestion_control_def dest: leD)

lemma slow_start_acks:
  assumes "n + length cbs \<le> 44" "ssthresh k = 65536" "\<forall>cb\<in>set cbs. snd_una k \<le> cb_ack cb" "socks s a = Some k0"
  shows "steps (map (tcp_congestion_control L a) cbs) (put_sk a (slow_start n k) s) = Inr (put_sk a (slow_start (n + length cbs) k) s)"
  using assms
proof (induction cbs arbitrary: n)
  case (Cons cb cbs)
  have "cc_ack (cb_ack cb) (slow_start n k) = slow_start (Suc n) k"
    using Cons.prems by (intro slow_start_ack) simp_all
  moreover have "dup_ack_count (slow_start (Suc n) k) = 0" by (simp add: slow_start_def)
  ultimately have "tcp_congestion_control L a cb (put_sk a (slow_start n k) s) = Inr (put_sk a (slow_start (Suc n) k) s)"
    by (simp add: cc_no_retransmit)
  then show ?case using Cons.IH [of "Suc n"] Cons.prems by simp
qed simp

section \<open>Retransmission\<close>

lemma retrans_carries:
  assumes "libnet L" "socks s a = Some k" "send_buf k = e # es" "length (se_packet e) \<le> 65495"
  shows "\<exists>p. tcp_retrans_send_buffer L a s = Inr (s\<lparr>sent := sent s @ [Ip_Send p]\<rparr>) \<and> carries p (out_cb k (se_seq e) (se_packet e))"
proof -
  let ?n = "length (se_packet e)"
  let ?f = "l_malloc L (length (sent s)) (54 + ?n)"
  have f: "length ?f = 54 + ?n" by (rule libnet.malloc_size [OF assms(1)])
  have l: "length (put 54 (se_packet e) ?f) = 54 + ?n" using f by simp
  have d: "drop 54 (put 54 (se_packet e) ?f) = se_packet e" using f by (simp add: put_def)
  define p where "p = data_packet L (length (sent s)) k (se_seq e) (put 54 (se_packet e) ?f)"
  have "carries p (out_cb k (se_seq e) (se_packet e))"
    using libnet.data_carries [OF assms(1) l assms(4), of "length (sent s)" k "se_seq e", unfolded d] by (simp add: p_def out_cb_def)
  moreover have "tcp_retrans_send_buffer L a s = Inr (s\<lparr>sent := sent s @ [Ip_Send p]\<rparr>)"
    using assms(2,3) by (simp add: tcp_retrans_send_buffer_def ip_send_def p_def Let_def add.commute)
  ultimately show ?thesis by blast
qed

definition avoiding :: "u32 \<Rightarrow> tcp_sock \<Rightarrow> tcp_sock" where
  "avoiding d k = k\<lparr>cc_state := TCP_CONGESTION_AVOIDANCE, dup_ack_count := d\<rparr>"

lemma avoiding_dup: "ack \<le> snd_una k \<Longrightarrow> cc_ack ack (avoiding d k) = avoiding (d + 1) k"
  by (simp add: cc_ack_def avoiding_def not_less)

text \<open>The threshold and the window after the third duplicate; halving is exact in single precision.\<close>

lemma fast_retransmit_window:
  assumes "0 \<le> cwnd k" "cwnd k < 2 ^ 24"
  shows "unat (ssthresh (fast_retransmit k)) = nat \<lfloor>cwnd k / 2\<rfloor>"
    "cwnd (fast_retransmit k) = of_nat (nat \<lfloor>cwnd k / 2\<rfloor> + 3 * TCP_MSS)"
proof -
  define h where "h = nat \<lfloor>cwnd k / 2\<rfloor>"
  have "cwnd k / 2 < of_int (2 ^ 23)" using assms(2) by simp
  then have "\<lfloor>cwnd k / 2\<rfloor> < 2 ^ 23" by (simp only: floor_less_iff)
  then have h: "h < 2 ^ 23" "\<lfloor>cwnd k / 2\<rfloor> = int h" using assms(1) by (auto simp: h_def nat_less_iff)
  have f: "fl_u32 (cwnd k / 2) = of_nat h" by (simp add: fl_u32_def h(2))
  have u: "unat (of_nat h :: u32) = h" using h(1) by (intro unat_of_nat_u32) simp
  have "fl32 (of_nat (h + 3 * TCP_MSS)) = of_nat (h + 3 * TCP_MSS)" using h(1) by (intro fl32_nat) simp
  then show "unat (ssthresh (fast_retransmit k)) = nat \<lfloor>cwnd k / 2\<rfloor>"
    "cwnd (fast_retransmit k) = of_nat (nat \<lfloor>cwnd k / 2\<rfloor> + 3 * TCP_MSS)"
    unfolding h_def [symmetric] fast_retransmit_def Let_def f u by (simp_all add: u)
qed

lemma third_dup:
  assumes "libnet L" "socks s a = Some (avoiding 2 k)" "cb_ack cb \<le> snd_una k" "send_buf k = e # es" "length (se_packet e) \<le> 65495"
    "0 \<le> cwnd k" "cwnd k < 2 ^ 24"
  shows "\<exists>s' k' p. tcp_congestion_control L a cb s = Inr s' \<and> socks s' a = Some k' \<and> cc_state k' = TCP_FAST_RECOVER \<and>
    unat (ssthresh k') = nat \<lfloor>cwnd k / 2\<rfloor> \<and> cwnd k' = of_nat (nat \<lfloor>cwnd k / 2\<rfloor> + 3 * TCP_MSS) \<and>
    recovery_point k' = snd_nxt k \<and> dup_ack_count k' = 0 \<and>
    sent s' = sent s @ [Ip_Send p] \<and> carries p (out_cb k (se_seq e) (se_packet e))"
proof -
  let ?k = "fast_retransmit (avoiding 3 k)"
  have e: "cc_ack (cb_ack cb) (avoiding 2 k) = avoiding 3 k" using avoiding_dup [OF assms(3), of 2] by simp
  have d: "dup_ack_count (avoiding 3 k) = 3" by (simp add: avoiding_def)
  have cc: "tcp_congestion_control L a cb s = tcp_retrans_send_buffer L a (put_sk a ?k s)"
    using assms(2) by (simp add: tcp_congestion_control_def e d)
  have "send_buf ?k = e # es" using assms(4) by (simp add: fast_retransmit_def avoiding_def Let_def)
  from retrans_carries [OF assms(1) _ this assms(5), of "put_sk a ?k s" a] obtain p where
    p: "tcp_retrans_send_buffer L a (put_sk a ?k s) = Inr ((put_sk a ?k s)\<lparr>sent := sent s @ [Ip_Send p]\<rparr>)"
    "carries p (out_cb ?k (se_seq e) (se_packet e))" by auto
  have "conn_of ?k = conn_of k" by (simp add: conn_of_def fast_retransmit_def avoiding_def Let_def)
  moreover have w: "cwnd (avoiding 3 k) = cwnd k" by (simp add: avoiding_def)
  have "unat (ssthresh ?k) = nat \<lfloor>cwnd k / 2\<rfloor>" "cwnd ?k = of_nat (nat \<lfloor>cwnd k / 2\<rfloor> + 3 * TCP_MSS)"
    using fast_retransmit_window [of "avoiding 3 k", unfolded w, OF assms(6,7)] by blast+
  moreover have "recovery_point ?k = snd_nxt k" "dup_ack_count ?k = 0" "cc_state ?k = TCP_FAST_RECOVER"
    by (simp_all add: fast_retransmit_def avoiding_def Let_def)
  ultimately show ?thesis using cc p out_cb_conn [of ?k k]
    by (intro exI [of _ "(put_sk a ?k s)\<lparr>sent := sent s @ [Ip_Send p]\<rparr>"] exI [of _ ?k] exI [of _ p]) simp
qed

section \<open>Properties\<close>

text \<open>
  Slow start. A new connection has a congestion window of one segment and a threshold of 64
  kilobytes. Each of the first 44 acknowledgements adds exactly one segment, in single
  precision without rounding, and with the 44th the window passes the threshold and congestion
  avoidance starts. This holds for acknowledgements that repeat the last acknowledged
  number too: in slow start they count as new, and no number of them causes a retransmission.
\<close>
theorem slow_start_growth:
  assumes "socks s a = Some k" "cc_state k = TCP_SLOW_START" "cwnd k = of_nat TCP_MSS" "ssthresh k = 64 * 1024" "dup_ack_count k = 0"
    "\<forall>cb\<in>set cbs. snd_una k \<le> cb_ack cb" "length cbs \<le> 44"
  shows "steps (map (tcp_congestion_control L a) cbs) s = Inr (put_sk a (k\<lparr>cwnd := of_nat (TCP_MSS * (length cbs + 1)),
     cc_state := (if length cbs < 44 then TCP_SLOW_START else TCP_CONGESTION_AVOIDANCE)\<rparr>) s)"
proof -
  have "slow_start 0 k = k" using assms(2-5) by (simp add: slow_start_def)
  then have "put_sk a (slow_start 0 k) s = s" using assms(1) by (simp add: put_sk_id)
  moreover have "slow_start n k = k\<lparr>cwnd := of_nat (TCP_MSS * (n + 1)),
     cc_state := (if n < 44 then TCP_SLOW_START else TCP_CONGESTION_AVOIDANCE)\<rparr>" for n
    using assms(5) by (simp add: slow_start_def)
  ultimately show ?thesis using slow_start_acks [of 0 cbs k s a k L] assms(1,4,6,7) by simp
qed

definition example_slow :: tcp_sock where
  "example_slow = new_sock\<lparr>state := TCP_ESTABLISHED, cwnd := of_nat TCP_MSS, ssthresh := 64 * 1024, snd_una := 1, snd_nxt := 1\<rparr>"

theorem slow_start_growth_witness:
  "steps (map (tcp_congestion_control example_env 0) (replicate 44 (example_cb 1 []))) (example_stack\<lparr>socks := [0 \<mapsto> example_slow]\<rparr>) =
     Inr (put_sk 0 (example_slow\<lparr>cwnd := of_nat (TCP_MSS * (length (replicate 44 (example_cb 1 [])) + 1)),
       cc_state := (if length (replicate 44 (example_cb 1 [])) < 44 then TCP_SLOW_START else TCP_CONGESTION_AVOIDANCE)\<rparr>)
       (example_stack\<lparr>socks := [0 \<mapsto> example_slow]\<rparr>))"
proof (rule slow_start_growth)
  show "\<forall>cb\<in>set (replicate 44 (example_cb 1 [])). snd_una example_slow \<le> cb_ack cb"
    unfolding set_replicate_conv_if by (simp add: example_cb_def example_slow_def)
qed (simp_all add: example_slow_def new_sock_def)

text \<open>
  Property C12: Fast retransmit. In congestion avoidance the third acknowledgement in a row that does not
  advance makes the stack send the first unacknowledged segment again, with its old sequence
  number and its data, sets the threshold to half the window, rounded down, and the window to the threshold
  plus three segments (more than before when it was below six), and remembers the highest sequence number sent as the point where
  recovery ends. The window is any number below \<open>2\<^sup>2\<^sup>4\<close>, whole or not.
\<close>
theorem third_duplicate_retransmits:
  assumes "libnet L" "socks s a = Some k" "cc_state k = TCP_CONGESTION_AVOIDANCE" "dup_ack_count k = 0"
    "0 \<le> cwnd k" "cwnd k < 2 ^ 24" "send_buf k = e # es" "length (se_packet e) \<le> 65495"
    "cb_ack cb1 \<le> snd_una k" "cb_ack cb2 \<le> snd_una k" "cb_ack cb3 \<le> snd_una k"
  shows "\<exists>s' k' p. steps [tcp_congestion_control L a cb1, tcp_congestion_control L a cb2, tcp_congestion_control L a cb3] s = Inr s' \<and>
    socks s' a = Some k' \<and> cc_state k' = TCP_FAST_RECOVER \<and> unat (ssthresh k') = nat \<lfloor>cwnd k / 2\<rfloor> \<and>
    cwnd k' = of_nat (nat \<lfloor>cwnd k / 2\<rfloor> + 3 * TCP_MSS) \<and> recovery_point k' = snd_nxt k \<and> dup_ack_count k' = 0 \<and>
    sent s' = sent s @ [Ip_Send p] \<and> carries p (out_cb k (se_seq e) (se_packet e))"
proof -
  have k: "avoiding 0 k = k" using assms(3,4) by (simp add: avoiding_def)
  have "cc_ack (cb_ack cb1) k = avoiding 1 k" "cc_ack (cb_ack cb2) (avoiding 1 k) = avoiding 2 k"
    using avoiding_dup [OF assms(9), of 0] avoiding_dup [OF assms(10), of 1] k by simp_all
  then have "tcp_congestion_control L a cb1 s = Inr (put_sk a (avoiding 1 k) s)"
    "tcp_congestion_control L a cb2 (put_sk a (avoiding 1 k) s) = Inr (put_sk a (avoiding 2 k) s)"
    using assms(2) by (simp_all add: cc_no_retransmit avoiding_def)
  then show ?thesis
    using third_dup [OF assms(1) _ assms(11,7,8,5,6), of "put_sk a (avoiding 2 k) s" a] by simp
qed

definition example_avoiding :: tcp_sock where
  "example_avoiding = new_sock\<lparr>state := TCP_ESTABLISHED, cc_state := TCP_CONGESTION_AVOIDANCE, cwnd := 131465 / 2, ssthresh := 65536,
     snd_una := 1, snd_nxt := 4, send_buf := [\<lparr>se_seq = 1, se_packet = [7, 8, 9]\<rparr>]\<rparr>"

theorem third_duplicate_retransmits_witness:
  "\<exists>s' k' p. steps (replicate 3 (tcp_congestion_control (router_env example_router (\<lambda>_. None) 0) 0 (example_cb 1 [])))
      (example_stack\<lparr>socks := [0 \<mapsto> example_avoiding]\<rparr>) = Inr s' \<and>
    socks s' 0 = Some k' \<and> cc_state k' = TCP_FAST_RECOVER \<and> unat (ssthresh k') = 32866 \<and> cwnd k' = 37246 \<and>
    carries p (out_cb example_avoiding 1 [7, 8, 9])"
proof -
  have k: "cwnd example_avoiding = 131465 / 2" by (simp add: example_avoiding_def)
  have f: "\<lfloor>(131465 / 2 :: rat) / 2\<rfloor> = 32866" by (simp add: floor_eq_iff)
  show ?thesis
    using third_duplicate_retransmits [OF ln.libnet_axioms [of example_router "\<lambda>_. None" 0], of
        "example_stack\<lparr>socks := [0 \<mapsto> example_avoiding]\<rparr>" 0 example_avoiding "\<lparr>se_seq = 1, se_packet = [7, 8, 9]\<rparr>" "[]"
        "example_cb 1 []" "example_cb 1 []" "example_cb 1 []", unfolded k f]
    by (fastforce simp: example_avoiding_def example_cb_def new_sock_def numeral_3_eq_3)
qed

end
