(* ===== verification/Tcp_Life.thy ===== *)
theory Tcp_Life
  imports Tcp_Conn Tcp_Cc
begin

text \<open>
  The life of a connection after the handshake: the first write, which finds a closed window and
  is rescued by the persist timer, and the end of a connection.
\<close>

section \<open>The persist timer\<close>

text \<open>The client after the handshake, whoever waits for its window.\<close>

definition client_live :: "u32 \<Rightarrow> u32 \<Rightarrow> u16 \<Rightarrow> u32 \<Rightarrow> int \<Rightarrow> synch_wait \<Rightarrow> tcp_stack \<Rightarrow> bool" where
  "client_live sip dip port isn t w s \<longleftrightarrow>
     socks s = [0 \<mapsto> (connected_sock sip dip port isn)\<lparr>wait_send := w,
       persist_timer := \<lparr>timeout = t, enable = True, retrans_cnt = 0\<rparr>\<rparr>] \<and>
     nxt (lh s) Timer_List = Some (Persist_Timer 0) \<and> nxt (lh s) (Persist_Timer 0) = Some Timer_List \<and>
     prv (lh s) Timer_List = Some (Persist_Timer 0) \<and> prv (lh s) (Persist_Timer 0) = Some Timer_List \<and>
     nxt (lh s) (Est (tcp_hash_function sip dip 12345 port)) = Some (Hash_List 0)"

lemma client_ready_live: "client_ready sip dip port isn s \<Longrightarrow> client_live sip dip port isn 200000 wait_init s"
  by (simp add: client_ready_def client_live_def connected_sock_def client_sock_def new_sock_def)

lemma scan_one_timer:
  assumes "nxt (lh s) Timer_List = Some n" "nxt (lh s) n = Some Timer_List" "n \<noteq> Timer_List"
  shows "tcp_scan_timer_list L s = scan_timer L n s"
proof -
  have "scan_loop L n s = Some (scan_timer L n s)"
    using assms by (subst scan_loop.simps) (simp add: scan_loop.simps [of L Timer_List] split: sum.split)
  then show ?thesis using assms(1) by (simp add: tcp_scan_timer_list_def)
qed

lemma scan_waits:
  assumes "client_live sip dip port isn 200000 w s"
  shows "\<exists>s'. tcp_scan_timer_list L s = Inr s' \<and> client_live sip dip port isn 100000 w s' \<and> sent s' = sent s"
  using assms
  by (simp add: client_live_def scan_one_timer [of s "Persist_Timer 0"] scan_timer_def upd_timer_def connected_sock_def put_sk_def)

lemma scan_probes:
  assumes "libnet L" "client_live sip dip port isn 100000 w s"
  shows "\<exists>s' p. tcp_scan_timer_list L s = Inr s' \<and> client_live sip dip port isn 200000 w s' \<and> sent s' = sent s @ [Ip_Send p] \<and>
    carries p (seg_cb sip dip 12345 port 0 (isn + 1) (TCP_PSH OR TCP_ACK) 65535 [probe_byte])"
proof -
  define k where "k = (connected_sock sip dip port isn)\<lparr>wait_send := w, persist_timer := \<lparr>timeout = 0, enable = True, retrans_cnt = 0\<rparr>\<rparr>"
  define f where "f = l_malloc L (length (sent s)) 55"
  have l: "length (put 54 [probe_byte] f) = 54 + 1" using libnet.malloc_size [OF assms(1), of "length (sent s)" 55] by (simp add: f_def)
  have d: "drop 54 (put 54 [probe_byte] f) = [probe_byte]"
    using libnet.malloc_size [OF assms(1), of "length (sent s)" 55] by (simp add: f_def put_def)
  define p where "p = data_packet L (length (sent s)) k 0 (put 54 [probe_byte] f)"
  have "carries p (seg_cb sip dip 12345 port 0 (isn + 1) (TCP_PSH OR TCP_ACK) 65535 [probe_byte])"
    using libnet.data_carries [OF assms(1) l, of "length (sent s)" k 0, unfolded d]
    by (simp add: p_def k_def connected_sock_def client_sock_def new_sock_def)
  moreover have "\<exists>s'. tcp_scan_timer_list L s = Inr s' \<and> client_live sip dip port isn 200000 w s' \<and> sent s' = sent s @ [Ip_Send p]"
    using assms(2) unfolding p_def k_def f_def
    by (simp add: client_live_def scan_one_timer [of s "Persist_Timer 0"] scan_timer_def upd_timer_def timer_expired_def tcp_send_probe_packet_def ip_send_def
        connected_sock_def client_sock_def put_sk_def Let_def)
  ultimately show ?thesis by blast
qed

lemma server_probed:
  assumes "libnet L" "server_ready sip dip port cport isn 0 s c"
    "carries p (seg_cb dip sip cport port 0 ack (TCP_PSH OR TCP_ACK) wnd [x])"
  shows "\<exists>s' q r. handle_tcp_packet L p s = Inr s' \<and> sent s' = sent s @ [Ip_Send q, Ip_Send r] \<and>
    carries q (seg_cb sip dip port cport (isn + 1) 1 TCP_ACK 65535 [])"
proof -
  let ?cb = "seg_cb dip sip cport port 0 ack (TCP_PSH OR TCP_ACK) wnd [x]"
  note st = assms(2) [unfolded server_ready_def child_of_def same_conn_def]
  have "child_of sip dip port cport s c" using assms(2) by (simp add: server_ready_def)
  from child_handle [OF this assms(3), of L] have h: "handle_tcp_packet L p s = established_ack L 1 ?cb s"
    using st by (simp add: tcp_process_def seg_cb_def)
  define q where "q = control_packet L (length (sent s)) sip dip port cport (isn + 1) 1 TCP_ACK 65535 (fresh L s 54)"
  have c: "carries q (seg_cb sip dip port cport (isn + 1) 1 TCP_ACK 65535 [])"
    unfolding q_def by (rule libnet.control_carries [OF assms(1)]) (rule libnet.malloc_size [OF assms(1)])
  have "c\<lparr>rcv_ofo_buf := []\<rparr> = c" "c\<lparr>rcv_buf_lock := False\<rparr> = c" using st by simp_all
  then have "\<exists>s' r. established_ack L 1 ?cb s = Inr s' \<and> sent s' = sent s @ [Ip_Send q, Ip_Send r]"
    using st unfolding q_def
    by (simp add: established_ack_def seg_cb_def tcp_send_control_packet_def ip_send_def lock_rcv_buf_def unlock_rcv_buf_def
        tcp_recv_ofo_buffer_add_packet_def tcp_move_recv_ofo_buffer_def seq_cmp_defs Let_def)
  then show ?thesis using h c by auto
qed

lemma min_wnd_small:
  assumes "m < 2 ^ 24" "n < 2 ^ 24"
  shows "min_wnd (of_nat m) (of_nat n) = of_nat (min m n)"
proof -
  have "u32_fl (of_nat m) = of_nat m"
    using assms(1) unat_of_nat_u32 [of m] fl32_nat [of m] unfolding u32_fl_def by simp
  then show ?thesis using fl_u32_nat [of m] fl_u32_nat [of n] by (simp add: min_wnd_def min_def)
qed

lemma window_opens:
  assumes "client_live sip dip port isn 200000 w s"
    "carries q (seg_cb dip sip port 12345 (isn + 1) 1 TCP_ACK 65535 [])"
  shows "\<exists>s' k. handle_tcp_packet L q s = Inr s' \<and> can_send 0 s' k \<and> snd_nxt k = 1 \<and> inflight k = 0 \<and> snd_wnd k = 2920 \<and>
    sent s' = sent s \<and> wait_send k = wake w \<and> rcv_nxt k = isn + 1 \<and> rcv_wnd k = 65535 \<and> same_conn sip dip 12345 port k"
proof -
  let ?cb = "seg_cb dip sip port 12345 (isn + 1) 1 TCP_ACK 65535 []"
  note st = assms(1) [unfolded client_live_def]
  let ?k = "(connected_sock sip dip port isn)\<lparr>wait_send := w, persist_timer := \<lparr>timeout = 200000, enable = True, retrans_cnt = 0\<rparr>\<rparr>"
  have "same_conn sip dip 12345 port ?k" by (simp add: same_conn_def connected_sock_def client_sock_def)
  then have f: "find_sk s (same_conn sip dip 12345 port) (Est (tcp_hash_function sip dip 12345 port)) = Inr (Some 0)"
    using st by (intro find_sk_first [of s _ "Hash_List 0" 0 ?k]) simp_all
  then have "tcp_sock_lookup ?cb s = Inr (Some 0)"
    by (simp add: tcp_sock_lookup_def tcp_sock_lookup_established_def seg_cb_def)
  then have h: "handle_tcp_packet L q s = established_ack L 0 ?cb s"
    using handle_carries [OF assms(2), of L s] st by (simp add: seg_cb_def tcp_process_def connected_sock_def)
  have fl: "fl32 2920 = 2920" "u32_fl 65536 = 65536" using fl32_nat [of 2920] fl32_nat [of 65536] by (simp_all add: u32_fl_def)
  have mw: "min_wnd 65535 2920 = 2920" using min_wnd_small [of 65535 2920] by simp
  have "\<exists>s' k. established_ack L 0 ?cb s = Inr s' \<and> can_send 0 s' k \<and> snd_nxt k = 1 \<and> inflight k = 0 \<and> snd_wnd k = 2920 \<and>
    sent s' = sent s \<and> wait_send k = wake w \<and> rcv_nxt k = isn + 1 \<and> rcv_wnd k = 65535 \<and> same_conn sip dip 12345 port k"
    using st
    by (simp add: established_ack_def seg_cb_def tcp_update_send_buffer_def tcp_unset_retrans_timer_def tcp_update_retrans_timer_def
        tcp_congestion_control_def cc_ack_def fl tcp_update_window_safe_def tcp_update_window_def tcp_tx_window_test_def mw
        seq_cmp_defs tcp_unset_persist_timer_def list_op_defs wake_send_def connected_sock_def client_sock_def new_sock_def
        zero_timer_def can_send_def in_window_def inflight_def same_conn_def put_sk_def Let_def)
  then show ?thesis using h by simp
qed

lemma first_write_sleeps:
  assumes "client_ready sip dip port isn s" "buf \<noteq> []"
  shows "\<exists>s'. tcp_sock_write L 0 buf s = Inr (Write_Wait True 0, s') \<and> sent s' = sent s \<and>
    client_live sip dip port isn 200000 (wait_init\<lparr>sleep := True\<rparr>) s'"
proof -
  note st = assms(1) [unfolded client_ready_def]
  have "\<not> tcp_tx_window_test (connected_sock sip dip port isn)"
    by (simp add: tcp_tx_window_test_def seq_cmp_defs connected_sock_def client_sock_def)
  moreover have "state (connected_sock sip dip port isn) = TCP_ESTABLISHED" "wait_send (connected_sock sip dip port isn) = wait_init"
    by (simp_all add: connected_sock_def client_sock_def new_sock_def)
  ultimately have "tcp_sock_write L 0 buf s = Inr (Write_Wait True 0, put_sk 0 ((connected_sock sip dip port isn)\<lparr>wait_send := wait_init\<lparr>sleep := True\<rparr>\<rparr>) s)"
    using st assms(2) by (simp add: tcp_sock_write_def write_from_step write_round_def sleep_on_enter_def wait_init_def)
  then show ?thesis using st by (simp add: client_live_def put_sk_def connected_sock_def client_sock_def new_sock_def)
qed

lemma write_resumes:
  assumes "libnet L" "can_send 0 s k" "inflight k = 0" "snd_wnd k = 2920" "buf \<noteq> []" "length buf \<le> 1460"
  shows "\<exists>s' p. tcp_sock_write_resume L 0 buf 0 s = Inr (Write_Ret (int (length buf)), s') \<and> sent s' = sent s @ [Ip_Send p] \<and>
    carries p (out_cb k (snd_nxt k) buf)"
proof -
  let ?k = "k\<lparr>wait_send := snd (sleep_on_resume (wait_send k))\<rparr>"
  have k: "socks (put_sk 0 ?k s) 0 = Some ?k" "prv (lh (put_sk 0 ?k s)) Timer_List \<noteq> None" "in_window ?k" "inflight ?k = 0"
    using assms(2,3) by (simp_all add: can_send_def in_window_def inflight_def)
  have r: "tcp_sock_write_resume L 0 buf 0 s = write_from L 0 buf 0 (put_sk 0 ?k s)"
    using assms(2) by (simp add: tcp_sock_write_resume_def can_send_def)
  obtain s1 k1 p where 1: "send_segment L 0 buf 0 (length buf) (put_sk 0 ?k s) = Inr s1" "socks s1 0 = Some k1"
    "sent s1 = sent s @ [Ip_Send p]" "carries p (out_cb ?k (snd_nxt k) (sub 0 (length buf) buf))"
    using segment_sent [OF assms(1) k(1,2), of 0 "length buf" buf] assms(6) by auto
  have "tcp_tx_window_test ?k" using window_test [OF k(3)] k(4) assms(4) by simp
  then have "write_round L 0 buf 0 (put_sk 0 ?k s) = Inr (Write_More (length buf), s1)"
    using 1(1) assms(4-6) by (simp add: write_round_def Let_def min_def)
  moreover have "write_from L 0 buf (length buf) s1 = Inr (Write_Ret (int (length buf)), s1)"
    using 1(2) by (subst write_from_step) (simp add: write_round_def)
  ultimately have "write_from L 0 buf 0 (put_sk 0 ?k s) = Inr (Write_Ret (int (length buf)), s1)"
    by (subst write_from_step) simp
  moreover have "out_cb ?k = out_cb k" by (rule out_cb_conn) (simp add: conn_of_def)
  ultimately show ?thesis using r 1(3,4) by (auto simp: sub_def)
qed

section \<open>Properties\<close>

text \<open>
  Property C7: A blocked write is rescued by the persist timer. After the handshake the window of the client is
  closed, so its first write sleeps and sends nothing. The second scan of the timer list
  sends a probe; the server answers it with acknowledgements; the first of them opens the window
  to two segments and wakes the writer, which then sends its data, with sequence number 1, and
  returns its length.
\<close>
theorem first_write_delivered:
  assumes "libnet Lc" "libnet Ls" "l_route Lc dip = Some sip" "port \<noteq> 0" "buf \<noteq> []" "length buf \<le> TCP_MSS"
  shows "\<exists>cl p sv q cl1 r cl2 cl3 cl4 t sv' u v cl5 cl6 d.
    tcp_client_start Lc (htonl dip) (htons port) init_tcp_stack = Inr (0, Asleep, cl) \<and> sent cl = [Ip_Send p] \<and>
    server_run Ls port [p] = Inr sv \<and> sent sv = [Ip_Send q] \<and>
    handle_tcp_packet Lc q cl = Inr cl1 \<and> sent cl1 = [Ip_Send p, Ip_Send r] \<and>
    tcp_sock_write Lc 0 buf cl1 = Inr (Write_Wait True 0, cl2) \<and> sent cl2 = sent cl1 \<and>
    tcp_scan_timer_list Lc cl2 = Inr cl3 \<and> sent cl3 = sent cl2 \<and>
    tcp_scan_timer_list Lc cl3 = Inr cl4 \<and> sent cl4 = sent cl3 @ [Ip_Send t] \<and>
    server_run Ls port [p, r, t] = Inr sv' \<and> sent sv' = [Ip_Send q, Ip_Send u, Ip_Send v] \<and>
    handle_tcp_packet Lc u cl4 = Inr cl5 \<and> sent cl5 = sent cl4 \<and>
    tcp_sock_write_resume Lc 0 buf 0 cl5 = Inr (Write_Ret (int (length buf)), cl6) \<and> sent cl6 = sent cl5 @ [Ip_Send d] \<and>
    carries d (seg_cb sip dip 12345 port 1 (l_rand Ls 1 + 1) (TCP_PSH OR TCP_ACK) 65535 buf)"
proof -
  let ?isn = "l_rand Ls 1"
  obtain cl p sv q cl1 r sv1 c where h:
    "tcp_client_start Lc (htonl dip) (htons port) init_tcp_stack = Inr (0, Asleep, cl)" "sent cl = [Ip_Send p]"
    "server_run Ls port [p] = Inr sv" "sent sv = [Ip_Send q]" "handle_tcp_packet Lc q cl = Inr cl1"
    "sent cl1 = [Ip_Send p, Ip_Send r]" "client_ready sip dip port ?isn cl1" "server_run Ls port [p, r] = Inr sv1"
    "sent sv1 = [Ip_Send q]" "server_ready dip sip port 12345 ?isn 0 sv1 c"
    using handshake [OF assms(1-4)] by blast
  let ?w = "wait_init\<lparr>sleep := True\<rparr>"
  obtain cl2 where cl2: "tcp_sock_write Lc 0 buf cl1 = Inr (Write_Wait True 0, cl2)" "sent cl2 = sent cl1"
    "client_live sip dip port ?isn 200000 ?w cl2" using first_write_sleeps [OF h(7) assms(5)] by blast
  obtain cl3 where cl3: "tcp_scan_timer_list Lc cl2 = Inr cl3" "client_live sip dip port ?isn 100000 ?w cl3" "sent cl3 = sent cl2"
    using scan_waits [OF cl2(3)] by blast
  obtain cl4 t where cl4: "tcp_scan_timer_list Lc cl3 = Inr cl4" "client_live sip dip port ?isn 200000 ?w cl4"
    "sent cl4 = sent cl3 @ [Ip_Send t]" "carries t (seg_cb sip dip 12345 port 0 (?isn + 1) (TCP_PSH OR TCP_ACK) 65535 [probe_byte])"
    using scan_probes [OF assms(1) cl3(2)] by blast
  obtain sv' u v where sv': "handle_tcp_packet Ls t sv1 = Inr sv'" "sent sv' = sent sv1 @ [Ip_Send u, Ip_Send v]"
    "carries u (seg_cb dip sip port 12345 (?isn + 1) 1 TCP_ACK 65535 [])"
    using server_probed [OF assms(2) h(10) cl4(4)] by blast
  have run: "server_run Ls port [p, r, t] = Inr sv'"
    using h(8) sv'(1) by (auto simp: server_run_def res_bind_Inr_iff split: prod.splits)
  obtain cl5 k where cl5: "handle_tcp_packet Lc u cl4 = Inr cl5" "can_send 0 cl5 k" "snd_nxt k = 1" "inflight k = 0" "snd_wnd k = 2920"
    "sent cl5 = sent cl4" "rcv_nxt k = ?isn + 1" "rcv_wnd k = 65535" "same_conn sip dip 12345 port k"
    using window_opens [OF cl4(2) sv'(3), of Lc] by blast
  obtain cl6 d where cl6: "tcp_sock_write_resume Lc 0 buf 0 cl5 = Inr (Write_Ret (int (length buf)), cl6)"
    "sent cl6 = sent cl5 @ [Ip_Send d]" "carries d (out_cb k (snd_nxt k) buf)"
    using write_resumes [OF assms(1) cl5(2,4,5) assms(5)] assms(6) by auto
  have "out_cb k (snd_nxt k) buf = seg_cb sip dip 12345 port 1 (?isn + 1) (TCP_PSH OR TCP_ACK) 65535 buf"
    using cl5(3,7-9) by (simp add: out_cb_def same_conn_def)
  with cl6(3) have "carries d (seg_cb sip dip 12345 port 1 (?isn + 1) (TCP_PSH OR TCP_ACK) 65535 buf)" by simp
  moreover have "sent sv' = [Ip_Send q, Ip_Send u, Ip_Send v]" using sv'(2) h(9) by simp
  ultimately show ?thesis
    by (intro exI conjI) (rule h(1-6) cl2(1,2) cl3(1,3) cl4(1,3) run cl5(1,6) cl6(1,2) | assumption)+
qed

theorem first_write_delivered_witness:
  "\<exists>cl p sv q cl1 r cl2 cl3 cl4 t sv' u v cl5 cl6 d.
    tcp_client_start lab_env (htonl 0x0a000002) (htons 80) init_tcp_stack = Inr (0, Asleep, cl) \<and> sent cl = [Ip_Send p] \<and>
    server_run lab_env 80 [p] = Inr sv \<and> sent sv = [Ip_Send q] \<and>
    handle_tcp_packet lab_env q cl = Inr cl1 \<and> sent cl1 = [Ip_Send p, Ip_Send r] \<and>
    tcp_sock_write lab_env 0 [1, 2, 3] cl1 = Inr (Write_Wait True 0, cl2) \<and> sent cl2 = sent cl1 \<and>
    tcp_scan_timer_list lab_env cl2 = Inr cl3 \<and> sent cl3 = sent cl2 \<and>
    tcp_scan_timer_list lab_env cl3 = Inr cl4 \<and> sent cl4 = sent cl3 @ [Ip_Send t] \<and>
    server_run lab_env 80 [p, r, t] = Inr sv' \<and> sent sv' = [Ip_Send q, Ip_Send u, Ip_Send v] \<and>
    handle_tcp_packet lab_env u cl4 = Inr cl5 \<and> sent cl5 = sent cl4 \<and>
    tcp_sock_write_resume lab_env 0 [1, 2, 3] 0 cl5 = Inr (Write_Ret (int (length [1, 2, 3 :: u8])), cl6) \<and> sent cl6 = sent cl5 @ [Ip_Send d] \<and>
    carries d (seg_cb 0x0a000001 0x0a000002 12345 80 1 (l_rand lab_env 1 + 1) (TCP_PSH OR TCP_ACK) 65535 [1, 2, 3])"
  by (rule first_write_delivered [OF ln.libnet_axioms ln.libnet_axioms]) (simp_all add: router_env_def)

end
