(* ===== verification/Tcp_Retrans.thy ===== *)
theory Tcp_Retrans
  imports Tcp_Life
begin

text \<open>
  Segments that get lost: the retransmission timer of \<^verbatim>\<open>tcp_timer.c\<close>. A segment that is not
  acknowledged is sent again after 200, 400 and 800 milliseconds; after another 1600 the connection
  is given up, with a null pointer followed where the socket never was in the table of bound ports.
  A segment whose first transmission is lost reaches the other side this way.
\<close>

section \<open>Scanning a list with one timer\<close>

definition only_timer :: "node \<Rightarrow> tcp_stack \<Rightarrow> bool" where
  "only_timer n s \<longleftrightarrow> nxt (lh s) Timer_List = Some n \<and> nxt (lh s) n = Some Timer_List \<and>
     prv (lh s) Timer_List = Some n \<and> prv (lh s) n = Some Timer_List \<and> n \<noteq> Timer_List"

lemma scan_only_timer:
  assumes "only_timer n s"
  shows "tcp_scan_timer_list L s = scan_timer L n s"
  using assms by (intro scan_one_timer) (simp_all add: only_timer_def)

lemma steps_append: "steps (fs @ gs) s = res_bind (steps fs s) (steps gs)"
proof (induction fs arbitrary: s)
  case (Cons f fs)
  then have "steps (fs @ gs) = (\<lambda>s. res_bind (steps fs s) (steps gs))" by (rule ext)
  then show ?case by (simp add: res_bind_assoc)
qed simp

section \<open>Waiting for an acknowledgement\<close>

text \<open>
  Socket \<open>a\<close> waits with \<open>c\<close> retransmissions made and \<open>t\<close> microseconds left; connection, send buffer
  and references are those of \<open>k0\<close>.
\<close>

definition awaiting :: "nat \<Rightarrow> nat \<Rightarrow> int \<Rightarrow> tcp_sock \<Rightarrow> tcp_stack \<Rightarrow> bool" where
  "awaiting a c t k0 s \<longleftrightarrow> only_timer (Retrans_Timer a) s \<and>
     (\<exists>k. socks s a = Some k \<and> retrans_timer k = \<lparr>timeout = t, enable = True, retrans_cnt = c\<rparr> \<and>
        conn_of k = conn_of k0 \<and> send_buf k = send_buf k0 \<and> ref_cnt k = ref_cnt k0)"

lemma scan_counts_down:
  assumes "awaiting a c t k0 s" "100000 < t"
  shows "\<exists>s'. tcp_scan_timer_list L s = Inr s' \<and> awaiting a c (t - 100000) k0 s' \<and> sent s' = sent s \<and> lh s' = lh s"
proof -
  obtain k where k: "socks s a = Some k" "retrans_timer k = \<lparr>timeout = t, enable = True, retrans_cnt = c\<rparr>"
    "conn_of k = conn_of k0" "send_buf k = send_buf k0" "ref_cnt k = ref_cnt k0" and only: "only_timer (Retrans_Timer a) s"
    using assms(1) by (auto simp: awaiting_def)
  let ?k = "k\<lparr>retrans_timer := \<lparr>timeout = t - 100000, enable = True, retrans_cnt = c\<rparr>\<rparr>"
  have "tcp_scan_timer_list L s = Inr (put_sk a ?k s)"
    using assms(2) k(1,2) by (simp add: scan_only_timer [OF only] scan_timer_def upd_timer_def)
  moreover have "awaiting a c (t - 100000) k0 (put_sk a ?k s)"
    using only k(3-5) by (simp add: awaiting_def only_timer_def conn_of_def)
  ultimately show ?thesis by simp
qed

lemma scans_count_down:
  assumes "awaiting a c (100000 * int (n + m)) k0 s" "0 < m"
  shows "\<exists>s'. steps (replicate n (tcp_scan_timer_list L)) s = Inr s' \<and> awaiting a c (100000 * int m) k0 s' \<and>
    sent s' = sent s \<and> lh s' = lh s"
  using assms(1)
proof (induction n arbitrary: s)
  case (Suc n)
  obtain s1 where 1: "tcp_scan_timer_list L s = Inr s1" "awaiting a c (100000 * int (Suc n + m) - 100000) k0 s1"
    "sent s1 = sent s" "lh s1 = lh s"
    using scan_counts_down [OF Suc.prems] assms(2) by auto
  have "100000 * int (Suc n + m) - 100000 = 100000 * int (n + m)" by simp
  with 1(2) have "awaiting a c (100000 * int (n + m)) k0 s1" by simp
  from Suc.IH [OF this] 1 show ?case by auto
qed simp

lemma retrans_fires:
  assumes "libnet L" "awaiting a c 100000 k0 s" "c < 3" "state k0 \<noteq> TCP_CLOSED" "send_buf k0 = e # es"
    "length (se_packet e) \<le> 65495"
  shows "\<exists>s' p. tcp_scan_timer_list L s = Inr s' \<and> awaiting a (Suc c) (200000 * 2 ^ Suc c) k0 s' \<and>
    sent s' = sent s @ [Ip_Send p] \<and> carries p (out_cb k0 (se_seq e) (se_packet e)) \<and> lh s' = lh s"
proof -
  obtain k where k: "socks s a = Some k" "retrans_timer k = \<lparr>timeout = 100000, enable = True, retrans_cnt = c\<rparr>"
    "conn_of k = conn_of k0" "send_buf k = send_buf k0" "ref_cnt k = ref_cnt k0" and only: "only_timer (Retrans_Timer a) s"
    using assms(2) by (auto simp: awaiting_def)
  let ?k = "k\<lparr>retrans_timer := \<lparr>timeout = 200000 * 2 ^ Suc c, enable = True, retrans_cnt = Suc c\<rparr>,
     ssthresh := fl_u32 (cwnd k / 2), cwnd := of_nat TCP_MSS, dup_ack_count := 0, cc_state := TCP_SLOW_START\<rparr>"
  have st: "state k \<noteq> TCP_CLOSED" using k(3) assms(4) by (simp add: conn_of_def)
  have "send_buf ?k = e # es" using k(4) assms(5) by simp
  from retrans_carries [OF assms(1) _ this assms(6), of "put_sk a ?k s" a] obtain p where
    p: "tcp_retrans_send_buffer L a (put_sk a ?k s) = Inr ((put_sk a ?k s)\<lparr>sent := sent s @ [Ip_Send p]\<rparr>)"
    "carries p (out_cb ?k (se_seq e) (se_packet e))" by auto
  have "put_sk a ?k (put_sk a (k\<lparr>retrans_timer := \<lparr>timeout = 0, enable = True, retrans_cnt = c\<rparr>\<rparr>) s) = put_sk a ?k s"
    by (simp add: put_sk_def)
  then have "tcp_scan_timer_list L s = tcp_retrans_send_buffer L a (put_sk a ?k s)"
    using assms(3) k(1,2) st
    by (simp add: scan_only_timer [OF only] scan_timer_def upd_timer_def timer_expired_def retrans_again_def)
  moreover have "conn_of ?k = conn_of k0" using k(3) by (simp add: conn_of_def)
  ultimately show ?thesis
    using p out_cb_conn [of ?k k0] only k(4,5)
    by (intro exI [of _ "(put_sk a ?k s)\<lparr>sent := sent s @ [Ip_Send p]\<rparr>"] exI [of _ p])
      (simp add: awaiting_def only_timer_def)
qed

lemma retrans_round:
  assumes "libnet L" "awaiting a c (200000 * 2 ^ c) k0 s" "c < 3" "state k0 \<noteq> TCP_CLOSED" "send_buf k0 = e # es"
    "length (se_packet e) \<le> 65495" "n = 2 ^ Suc c" "c' = Suc c"
  shows "\<exists>s' p. steps (replicate n (tcp_scan_timer_list L)) s = Inr s' \<and>
    awaiting a c' (200000 * 2 ^ c') k0 s' \<and> sent s' = sent s @ [Ip_Send p] \<and>
    carries p (out_cb k0 (se_seq e) (se_packet e)) \<and> lh s' = lh s"
proof -
  obtain m where m: "n = m + 1" using assms(7) by (metis add.commute le_add_diff_inverse one_le_numeral one_le_power)
  have "100000 * int n = 200000 * 2 ^ c" using assms(7) by simp
  with assms(2) have "awaiting a c (100000 * int (m + 1)) k0 s" by (simp only: m)
  from scans_count_down [OF this, of L] obtain s1 where 1: "steps (replicate m (tcp_scan_timer_list L)) s = Inr s1"
    "awaiting a c 100000 k0 s1" "sent s1 = sent s" "lh s1 = lh s" by auto
  have "steps (replicate n (tcp_scan_timer_list L)) s = tcp_scan_timer_list L s1"
    unfolding m replicate_add by (simp add: steps_append 1(1))
  then show ?thesis using retrans_fires [OF assms(1) 1(2) assms(3-6)] 1(3,4) assms(8) by simp
qed

text \<open>The retransmissions due \<open>t\<close> microseconds after the segment was sent: the waits are 0.2, 0.4 and 0.8 seconds.\<close>

definition resends_due :: "nat \<Rightarrow> nat" where
  "resends_due t = length (filter (\<lambda>d. d \<le> t) [200000, 200000 + 400000, 200000 + 400000 + 800000])"

lemma waits_between:
  assumes "steps (replicate m (tcp_scan_timer_list L)) s0 = Inr s" "awaiting a c (100000 * int N) k0 s" "m \<le> n" "n < m + N"
  shows "\<exists>t c' w. steps (replicate n (tcp_scan_timer_list L)) s0 = Inr t \<and> sent t = sent s \<and> awaiting a c' w k0 t"
proof -
  obtain j i where j: "n = m + j" "N = j + i" "0 < i"
    using assms(3,4) by (metis add_less_cancel_left le_Suc_ex less_imp_add_positive)
  then obtain t where t: "steps (replicate j (tcp_scan_timer_list L)) s = Inr t" "awaiting a c (100000 * int i) k0 t" "sent t = sent s"
    using scans_count_down [of a c j i k0 s L] assms(2) by blast
  have "steps (replicate n (tcp_scan_timer_list L)) s0 = Inr t"
    unfolding j(1) replicate_add by (simp add: steps_append assms(1) t(1))
  then show ?thesis using t(2,3) by blast
qed

lemma retrans_rounds:
  assumes "libnet L" "awaiting a 0 200000 k0 s" "state k0 \<noteq> TCP_CLOSED" "send_buf k0 = e # es"
    "length (se_packet e) \<le> 65495"
  shows "\<exists>s' ps. steps (replicate 14 (tcp_scan_timer_list L)) s = Inr s' \<and> awaiting a 3 1600000 k0 s' \<and> lh s' = lh s \<and>
    length ps = 3 \<and> (\<forall>p\<in>set ps. carries p (out_cb k0 (se_seq e) (se_packet e))) \<and>
    (\<forall>n<30. \<exists>t c w. steps (replicate n (tcp_scan_timer_list L)) s = Inr t \<and> awaiting a c w k0 t \<and>
      sent t = sent s @ map Ip_Send (take (resends_due (n * 100000)) ps))"
proof -
  let ?f = "tcp_scan_timer_list L"
  let ?P = "\<lambda>n c s t p. steps (replicate n ?f) s = Inr t \<and> awaiting a c (200000 * 2 ^ c) k0 t \<and> sent t = sent s @ [Ip_Send p] \<and>
    carries p (out_cb k0 (se_seq e) (se_packet e)) \<and> lh t = lh s"
  have "\<exists>t p. ?P 2 1 s t p" by (rule retrans_round [OF assms(1) _ _ assms(3-5), of a 0]) (use assms(2) in simp_all)
  then obtain s1 p1 where 1: "?P 2 1 s s1 p1" by blast
  have "\<exists>t p. ?P 4 2 s1 t p" by (rule retrans_round [OF assms(1) _ _ assms(3-5), of a 1]) (use 1 in simp_all)
  then obtain s2 p2 where 2: "?P 4 2 s1 s2 p2" by blast
  have "\<exists>t p. ?P 8 3 s2 t p" by (rule retrans_round [OF assms(1) _ _ assms(3-5), of a 2]) (use 2 in simp_all)
  then obtain s3 p3 where 3: "?P 8 3 s2 s3 p3" by blast
  have r: "replicate 6 ?f = replicate 2 ?f @ replicate 4 ?f" "replicate 14 ?f = replicate 6 ?f @ replicate 8 ?f"
    by (simp_all flip: replicate_add)
  have s6: "steps (replicate 6 ?f) s = Inr s2" using 1 2 unfolding r(1) by (simp only: steps_append res_bind_simps)
  have s14: "steps (replicate 14 ?f) s = Inr s3" using s6 3 unfolding r(2) by (simp only: steps_append res_bind_simps)
  have w0: "steps (replicate 0 ?f) s = Inr s" "awaiting a 0 (100000 * int 2) k0 s" using assms(2) by simp_all
  have w: "awaiting a 1 (100000 * int 4) k0 s1" "awaiting a 2 (100000 * int 8) k0 s2" "awaiting a 3 (100000 * int 16) k0 s3"
    using 1 2 3 by simp_all
  have "\<exists>t c w. steps (replicate n ?f) s = Inr t \<and> awaiting a c w k0 t \<and>
      sent t = sent s @ map Ip_Send (take (resends_due (n * 100000)) [p1, p2, p3])" if n: "n < 30" for n
  proof -
    consider "n < 2" | "2 \<le> n" "n < 6" | "6 \<le> n" "n < 14" | "14 \<le> n" using n by linarith
    then show ?thesis
    proof cases
      case 1
      then show ?thesis using waits_between [OF w0, of n] by (auto simp: resends_due_def)
    next
      case 2
      then show ?thesis using waits_between [OF conjunct1 [OF 1] w(1), of n] 1 by (auto simp: resends_due_def)
    next
      case 3
      then show ?thesis using waits_between [OF s6 w(2), of n] 1 2 by (auto simp: resends_due_def)
    next
      case 4
      then show ?thesis using waits_between [OF s14 w(3), of n] n 1 2 3 by (auto simp: resends_due_def)
    qed
  qed
  moreover have "awaiting a 3 1600000 k0 s3" "lh s3 = lh s" using 1 2 3 by simp_all
  ultimately show ?thesis using s14 1 2 3 by (intro exI [of _ s3] exI [of _ "[p1, p2, p3]"]) simp
qed

lemma last_scan:
  assumes "awaiting a 3 1600000 k0 s"
  shows "\<exists>s'. steps (replicate 16 (tcp_scan_timer_list L)) s = tcp_scan_timer_list L s' \<and> awaiting a 3 100000 k0 s' \<and>
    sent s' = sent s \<and> lh s' = lh s"
proof -
  obtain s' where s': "steps (replicate 15 (tcp_scan_timer_list L)) s = Inr s'" "awaiting a 3 100000 k0 s'" "sent s' = sent s" "lh s' = lh s"
    using scans_count_down [of a 3 15 1 k0 s L] assms by auto
  have "replicate 16 (tcp_scan_timer_list L) = replicate 15 (tcp_scan_timer_list L) @ [tcp_scan_timer_list L]"
    by (simp add: replicate_append_same flip: replicate_Suc)
  then have "steps (replicate 16 (tcp_scan_timer_list L)) s = tcp_scan_timer_list L s'"
    by (simp only: steps_append s'(1) res_bind_simps) (cases "tcp_scan_timer_list L s'"; simp)
  with s' show ?thesis by blast
qed

lemma give_up_reached:
  assumes "awaiting a 3 100000 k0 s" "state k0 \<noteq> TCP_CLOSED"
  shows "\<exists>k. socks s a = Some k \<and> retrans_timer k = \<lparr>timeout = 100000, enable = True, retrans_cnt = 3\<rparr> \<and>
    state k \<noteq> TCP_CLOSED \<and> ref_cnt k = ref_cnt k0 \<and> tcp_scan_timer_list L s =
      retrans_give_up a (put_sk a (k\<lparr>retrans_timer := \<lparr>timeout = 0, enable = True, retrans_cnt = 3\<rparr>\<rparr>) s)"
proof -
  obtain k where k: "socks s a = Some k" "retrans_timer k = \<lparr>timeout = 100000, enable = True, retrans_cnt = 3\<rparr>"
    "state k \<noteq> TCP_CLOSED" "ref_cnt k = ref_cnt k0" and only: "only_timer (Retrans_Timer a) s"
    using assms by (auto simp: awaiting_def conn_of_def)
  then show ?thesis by (simp add: scan_only_timer [OF only] scan_timer_def upd_timer_def timer_expired_def)
qed

lemma retrans_gives_up:
  assumes "awaiting a 3 100000 k0 s" "state k0 \<noteq> TCP_CLOSED" "4 \<le> ref_cnt k0"
    and "nxt (lh s) (Bind_Hash_List a) \<noteq> None" "prv (lh s) (Bind_Hash_List a) \<noteq> None"
  shows "\<exists>s' k'. tcp_scan_timer_list L s = Inr s' \<and> socks s' a = Some k' \<and> state k' = TCP_CLOSED \<and>
    \<not> enable (retrans_timer k') \<and> sent s' = sent s"
proof -
  obtain k where k: "socks s a = Some k" "retrans_timer k = \<lparr>timeout = 100000, enable = True, retrans_cnt = 3\<rparr>"
    "ref_cnt k = ref_cnt k0" "tcp_scan_timer_list L s =
      retrans_give_up a (put_sk a (k\<lparr>retrans_timer := \<lparr>timeout = 0, enable = True, retrans_cnt = 3\<rparr>\<rparr>) s)"
    using give_up_reached [OF assms(1,2)] by blast
  have only: "only_timer (Retrans_Timer a) s" using assms(1) by (simp add: awaiting_def)
  obtain x y where b: "nxt (lh s) (Bind_Hash_List a) = Some x" "prv (lh s) (Bind_Hash_List a) = Some y"
    using assms(4,5) by auto
  show ?thesis
    using k b only assms(3) unfolding only_timer_def
    by (simp add: retrans_give_up_def tcp_unset_retrans_timer_def upd_lh_def list_delete_entry_def tcp_bind_unhash_def
        list_empty_def free_tcp_sock_def tcp_set_state_def put_sk_def Let_def)
qed

text \<open>A socket that was never entered into the table of bound ports has a zeroed node there.\<close>

lemma giving_up_faults:
  assumes "awaiting a 3 100000 k0 s" "state k0 \<noteq> TCP_CLOSED" "nxt (lh s) (Bind_Hash_List a) = None"
  shows "tcp_scan_timer_list L s = Inl Null_Deref"
proof -
  obtain k where k: "socks s a = Some k" "retrans_timer k = \<lparr>timeout = 100000, enable = True, retrans_cnt = 3\<rparr>"
    "tcp_scan_timer_list L s =
      retrans_give_up a (put_sk a (k\<lparr>retrans_timer := \<lparr>timeout = 0, enable = True, retrans_cnt = 3\<rparr>\<rparr>) s)"
    using give_up_reached [OF assms(1,2)] by blast
  have only: "only_timer (Retrans_Timer a) s" using assms(1) by (simp add: awaiting_def)
  show ?thesis
    using k assms(3) only unfolding only_timer_def
    by (simp add: retrans_give_up_def tcp_unset_retrans_timer_def upd_lh_def list_delete_entry_def tcp_bind_unhash_def
        list_empty_def)
qed

section \<open>Writing one segment\<close>

text \<open>A socket with an open window, nothing unacknowledged and no timer running.\<close>

definition idle_sender :: "nat \<Rightarrow> tcp_stack \<Rightarrow> tcp_sock \<Rightarrow> bool" where
  "idle_sender a s k \<longleftrightarrow> can_send a s k \<and> inflight k + TCP_MSS \<le> unat (snd_wnd k) \<and> send_buf k = [] \<and>
     retrans_timer k = zero_timer \<and> nxt (lh s) Timer_List = Some Timer_List \<and> prv (lh s) Timer_List = Some Timer_List"

lemma write_starts_timer:
  assumes "libnet L" "idle_sender a s k" "buf \<noteq> []" "length buf \<le> TCP_MSS"
  defines "k0 \<equiv> k\<lparr>send_buf := [\<lparr>se_seq = snd_nxt k, se_packet = buf\<rparr>], ref_cnt := ref_cnt k + 1\<rparr>"
  shows "\<exists>s' p. tcp_sock_write L a buf s = Inr (Write_Ret (int (length buf)), s') \<and> sent s' = sent s @ [Ip_Send p] \<and>
    carries p (out_cb k (snd_nxt k) buf) \<and> awaiting a 0 200000 k0 s' \<and>
    (\<forall>n. n \<noteq> Timer_List \<longrightarrow> n \<noteq> Retrans_Timer a \<longrightarrow> nxt (lh s') n = nxt (lh s) n \<and> prv (lh s') n = prv (lh s) n)"
proof -
  note st = assms(2) [unfolded idle_sender_def can_send_def zero_timer_def]
  let ?f = "l_malloc L (length (sent s)) (54 + length buf)"
  let ?k1 = "k0\<lparr>retrans_timer := \<lparr>timeout = 200000, enable = True, retrans_cnt = 0\<rparr>\<rparr>"
  have win: "tcp_tx_window_test k" "1460 \<le> unat (snd_wnd k)" using window_test [of k] st by simp_all
  then have len: "min (length buf - 0) (min (unat (snd_wnd k)) TCP_MSS) = length buf" using assms(4) by simp
  have f: "length ?f = 54 + length buf" by (rule libnet.malloc_size [OF assms(1)])
  have l: "length (put 54 buf ?f) = 54 + length buf" "drop 54 (put 54 buf ?f) = buf" using f by (simp_all add: put_def)
  define p where "p = data_packet L (length (sent s)) ?k1 (snd_nxt k) (put 54 buf ?f)"
  define s1 where "s1 = s\<lparr>lh := list_insert (lh s) (Retrans_Timer a) Timer_List Timer_List,
     socks := (socks s)(a \<mapsto> ?k1\<lparr>snd_nxt := snd_nxt k + of_nat (length buf)\<rparr>), sent := sent s @ [Ip_Send p]\<rparr>"
  define u where "u = s\<lparr>lh := list_insert (lh s) (Retrans_Timer a) Timer_List Timer_List, socks := (socks s)(a \<mapsto> ?k1)\<rparr>"
  have k: "socks s a = Some k" "retrans_timer k = \<lparr>timeout = 0, enable = False, retrans_cnt = 0\<rparr>" "send_buf k = []"
    "prv (lh s) Timer_List = Some Timer_List" using st by simp_all
  have "tcp_send_buffer_add_packet a buf s = Inr u"
    using k by (simp add: tcp_send_buffer_add_packet_def tcp_set_retrans_timer_def upd_lh_def list_add_tail_def put_sk_def u_def k0_def)
  moreover have "tcp_send_packet L a (put 54 buf ?f) u = Inr s1"
    using l(1) by (simp add: tcp_send_packet_def ip_send_def put_sk_def u_def s1_def p_def k0_def Let_def)
  moreover have "sub 0 (length buf) buf = buf" by (simp add: sub_def)
  ultimately have "send_segment L a buf 0 (length buf) s = Inr s1" by (simp add: send_segment_def Let_def)
  then have "write_round L a buf 0 s = Inr (Write_More (length buf), s1)"
    using st win(1) len assms(3) by (simp add: write_round_def Let_def)
  moreover have "write_from L a buf (length buf) s1 = Inr (Write_Ret (int (length buf)), s1)"
    by (subst write_from_step) (simp add: write_round_def s1_def)
  ultimately have w: "write_from L a buf 0 s = Inr (Write_Ret (int (length buf)), s1)"
    by (subst write_from_step) simp
  then have "tcp_sock_write L a buf s = Inr (Write_Ret (int (length buf)), s1)"
    using st by (auto simp: tcp_sock_write_def)
  moreover have "carries p (out_cb ?k1 (snd_nxt k) buf)"
    using libnet.data_carries [OF assms(1) l(1), of "length (sent s)" ?k1 "snd_nxt k", unfolded l(2)] assms(4)
    by (simp add: p_def out_cb_def)
  moreover have "out_cb ?k1 = out_cb k" by (rule out_cb_conn) (simp add: conn_of_def k0_def)
  moreover have "awaiting a 0 200000 k0 s1"
    by (simp add: awaiting_def only_timer_def s1_def list_insert_def conn_of_def k0_def)
  ultimately show ?thesis
    by (intro exI [of _ s1] exI [of _ p]) (simp add: s1_def list_insert_def)
qed

section \<open>Properties\<close>

text \<open>
  Property C8: A lost segment arrives in the end. An idle socket with an open window writes a buffer of at
  most one segment, and the packet is lost. The second scan of the timer list sends the segment
  again; when that packet arrives at an established socket of the other side that expects the first
  byte, however often and however the other application reads, the bytes it has read followed by
  those in its receive buffer are exactly the buffer.
\<close>

theorem lost_segment_recovered:
  assumes "libnet L" "idle_sender a s k" "buf \<noteq> []" "length buf \<le> TCP_MSS" "fits (snd_nxt k) buf"
    and "socks t b = Some c" "fresh_receiver (snd_nxt k) c"
  shows "\<exists>s1 p s2 q. tcp_sock_write L a buf s = Inr (Write_Ret (int (length buf)), s1) \<and> sent s1 = sent s @ [Ip_Send p] \<and>
    steps [tcp_scan_timer_list L, tcp_scan_timer_list L] s1 = Inr s2 \<and> sent s2 = sent s1 @ [Ip_Send q] \<and>
    (\<forall>ops. (\<forall>cb. Arrive cb \<in> set ops \<longleftrightarrow> carries q cb) \<longrightarrow>
      (\<exists>d t' c'. rx_run L' b ops t = Inr (d, t') \<and> socks t' b = Some c' \<and> d @ rb_list (rcv_buf c') = buf))"
proof -
  let ?k0 = "k\<lparr>send_buf := [\<lparr>se_seq = snd_nxt k, se_packet = buf\<rparr>], ref_cnt := ref_cnt k + 1\<rparr>"
  obtain s1 p where 1: "tcp_sock_write L a buf s = Inr (Write_Ret (int (length buf)), s1)" "sent s1 = sent s @ [Ip_Send p]"
    "awaiting a 0 200000 ?k0 s1" using write_starts_timer [OF assms(1-4)] by blast
  have open_k: "state ?k0 \<noteq> TCP_CLOSED" using assms(2) by (auto simp: idle_sender_def can_send_def)
  have "\<exists>s2 q. steps (replicate 2 (tcp_scan_timer_list L)) s1 = Inr s2 \<and> awaiting a 1 (200000 * 2 ^ 1) ?k0 s2 \<and>
      sent s2 = sent s1 @ [Ip_Send q] \<and> carries q (out_cb ?k0 (snd_nxt k) buf) \<and> lh s2 = lh s1"
    by (rule retrans_round [OF assms(1) _ _ open_k, of a 0 s1 "\<lparr>se_seq = snd_nxt k, se_packet = buf\<rparr>" "[]" 2 1,
          unfolded send_buffer_entry.select_convs]) (use 1(3) assms(4) in simp_all)
  then obtain s2 q where 2: "steps [tcp_scan_timer_list L, tcp_scan_timer_list L] s1 = Inr s2" "sent s2 = sent s1 @ [Ip_Send q]"
    "carries q (out_cb ?k0 (snd_nxt k) buf)" by (auto simp: numeral_2_eq_2)
  have k0: "out_cb ?k0 = out_cb k" by (rule out_cb_conn) (simp add: conn_of_def)
  have seg: "data_seg (snd_nxt k) buf (0, length buf) (out_cb k (snd_nxt k) buf)"
    using assms(3) by (simp add: data_seg_def pair_ok_def out_cb_def seg_cb_def sq_def sub_def)
  have "\<exists>d t' c'. rx_run L' b ops t = Inr (d, t') \<and> socks t' b = Some c' \<and> d @ rb_list (rcv_buf c') = buf"
    if ops: "\<forall>cb. Arrive cb \<in> set ops \<longleftrightarrow> carries q cb" for ops
  proof -
    have cb: "Arrive cb \<in> set ops \<longleftrightarrow> cb = out_cb k (snd_nxt k) buf" for cb
      using ops 2(3) carries_unique unfolding k0 by blast
    have "\<exists>d t' c'. rx_run L' b ops t = Inr (d, t') \<and> socks t' b = Some c' \<and> d @ rb_list (rcv_buf c') = buf \<and>
        rcv_ofo_buf c' = [] \<and> rcv_nxt c' = snd_nxt k + of_nat (length buf)"
      by (rule reassembled [OF assms(5) _ _ _ assms(6,7), of "[length buf]"]) (use assms(3,4) seg cb in auto)
    then show ?thesis by blast
  qed
  then have "\<forall>ops. (\<forall>cb. Arrive cb \<in> set ops \<longleftrightarrow> carries q cb) \<longrightarrow>
      (\<exists>d t' c'. rx_run L' b ops t = Inr (d, t') \<and> socks t' b = Some c' \<and> d @ rb_list (rcv_buf c') = buf)" by simp
  with 1(1,2) 2(1,2) show ?thesis by blast
qed

theorem lost_segment_recovered_witness:
  "\<exists>s1 p s2 q. tcp_sock_write lab_env 0 [1, 2, 3] sender_stack = Inr (Write_Ret (int (length [1, 2, 3 :: u8])), s1) \<and>
    sent s1 = sent sender_stack @ [Ip_Send p] \<and>
    steps [tcp_scan_timer_list lab_env, tcp_scan_timer_list lab_env] s1 = Inr s2 \<and> sent s2 = sent s1 @ [Ip_Send q] \<and>
    (\<forall>ops. (\<forall>cb. Arrive cb \<in> set ops \<longleftrightarrow> carries q cb) \<longrightarrow>
      (\<exists>d t' c'. rx_run lab_env 0 ops example_stack = Inr (d, t') \<and> socks t' 0 = Some c' \<and> d @ rb_list (rcv_buf c') = [1, 2, 3]))"
proof (rule lost_segment_recovered [OF ln.libnet_axioms _ _ _ _ example_receiver(2)])
  show "idle_sender 0 sender_stack example_sender"
    using example_can_send by (simp add: idle_sender_def sender_stack_def example_stack_def init_list_head_def example_sender_def
        new_sock_def)
qed (simp_all add: example_can_send(2) example_receiver(1) fits_def)

text \<open>
  Property C9: A segment that is never acknowledged. The timer list is scanned every
  \<^verbatim>\<open>TCP_TIMER_SCAN_INTERVAL\<close> (0.1 seconds). After any number of scans below 30 the socket is in its old
  state, and the segment has been sent again exactly as often as the waits of 0.2, 0.4 and 0.8
  seconds allow, always with the same sequence number and data. The 30th scan, 1.6 seconds after
  the last retransmission, gives up. A socket of the table of bound ports, such as the client's, is
  closed, its timer is off, and reading and writing fail. For a socket that never entered that
  table, such as the one the server gets from an accept, the scan follows a null pointer.
\<close>

theorem unanswered_segment_given_up:
  assumes "libnet L" "idle_sender a s k" "buf \<noteq> []" "length buf \<le> TCP_MSS"
  shows "\<exists>s1 p ps. tcp_sock_write L a buf s = Inr (Write_Ret (int (length buf)), s1) \<and> sent s1 = sent s @ [Ip_Send p] \<and>
    length ps = 3 \<and> (\<forall>q\<in>set (p # ps). carries q (out_cb k (snd_nxt k) buf)) \<and>
    (\<forall>n<30. \<exists>t k'. steps (replicate n (tcp_scan_timer_list L)) s1 = Inr t \<and> socks t a = Some k' \<and> state k' = state k \<and>
      sent t = sent s1 @ map Ip_Send (take (resends_due (n * nat TCP_TIMER_SCAN_INTERVAL)) ps)) \<and>
    (nxt (lh s) (Bind_Hash_List a) \<noteq> None \<and> prv (lh s) (Bind_Hash_List a) \<noteq> None \<and> 3 \<le> ref_cnt k \<longrightarrow>
      (\<exists>s3 k3. steps (replicate 30 (tcp_scan_timer_list L)) s1 = Inr s3 \<and> sent s3 = sent s1 @ map Ip_Send ps \<and>
        socks s3 a = Some k3 \<and> state k3 = TCP_CLOSED \<and> \<not> enable (retrans_timer k3) \<and>
        tcp_sock_read a m s3 = Inr (Read_Ret (-1) [], s3) \<and> tcp_sock_write L a d s3 = Inr (Write_Ret (-1), s3))) \<and>
    (nxt (lh s) (Bind_Hash_List a) = None \<longrightarrow> steps (replicate 30 (tcp_scan_timer_list L)) s1 = Inl Null_Deref)"
proof -
  let ?f = "tcp_scan_timer_list L"
  let ?k0 = "k\<lparr>send_buf := [\<lparr>se_seq = snd_nxt k, se_packet = buf\<rparr>], ref_cnt := ref_cnt k + 1\<rparr>"
  obtain s1 p where 1: "tcp_sock_write L a buf s = Inr (Write_Ret (int (length buf)), s1)" "sent s1 = sent s @ [Ip_Send p]"
    "carries p (out_cb k (snd_nxt k) buf)" "awaiting a 0 200000 ?k0 s1"
    "nxt (lh s1) (Bind_Hash_List a) = nxt (lh s) (Bind_Hash_List a)" "prv (lh s1) (Bind_Hash_List a) = prv (lh s) (Bind_Hash_List a)"
    using write_starts_timer [OF assms] by auto
  have open_k: "state ?k0 \<noteq> TCP_CLOSED" using assms(2) by (auto simp: idle_sender_def can_send_def)
  have k0: "out_cb ?k0 = out_cb k" by (rule out_cb_conn) (simp add: conn_of_def)
  obtain s2 ps where 2: "steps (replicate 14 ?f) s1 = Inr s2" "awaiting a 3 1600000 ?k0 s2" "lh s2 = lh s1"
    "length ps = 3" "\<forall>q\<in>set ps. carries q (out_cb k (snd_nxt k) buf)"
    and sched: "\<forall>n<30. \<exists>t c w. steps (replicate n ?f) s1 = Inr t \<and> awaiting a c w ?k0 t \<and>
      sent t = sent s1 @ map Ip_Send (take (resends_due (n * 100000)) ps)"
    using retrans_rounds [OF assms(1) 1(4) open_k, of "\<lparr>se_seq = snd_nxt k, se_packet = buf\<rparr>" "[]"] assms(4) unfolding k0 by auto
  have "sent s2 = sent s1 @ map Ip_Send ps" using spec [OF sched, of 14] 2(1,4) by (simp add: resends_due_def)
  then obtain s' where s': "steps (replicate 16 ?f) s2 = ?f s'" "awaiting a 3 100000 ?k0 s'"
    "sent s' = sent s1 @ map Ip_Send ps" "lh s' = lh s1"
    using last_scan [OF 2(2), of L] 2(3) by auto
  have "replicate 30 ?f = replicate 14 ?f @ replicate 16 ?f" by (simp flip: replicate_add)
  then have r30: "steps (replicate 30 ?f) s1 = ?f s'" by (simp only: steps_append 2(1) res_bind_simps s'(1))
  have wait: "\<exists>t k'. steps (replicate n ?f) s1 = Inr t \<and> socks t a = Some k' \<and> state k' = state k \<and>
      sent t = sent s1 @ map Ip_Send (take (resends_due (n * nat TCP_TIMER_SCAN_INTERVAL)) ps)" if n: "n < 30" for n
    using sched n by (fastforce simp: awaiting_def conn_of_def TCP_TIMER_SCAN_INTERVAL_def)
  have close: "\<exists>s3 k3. steps (replicate 30 ?f) s1 = Inr s3 \<and> sent s3 = sent s1 @ map Ip_Send ps \<and>
      socks s3 a = Some k3 \<and> state k3 = TCP_CLOSED \<and> \<not> enable (retrans_timer k3) \<and>
      tcp_sock_read a m s3 = Inr (Read_Ret (-1) [], s3) \<and> tcp_sock_write L a d s3 = Inr (Write_Ret (-1), s3)"
    if "nxt (lh s) (Bind_Hash_List a) \<noteq> None \<and> prv (lh s) (Bind_Hash_List a) \<noteq> None \<and> 3 \<le> ref_cnt k"
  proof -
    have "4 \<le> ref_cnt ?k0" "nxt (lh s') (Bind_Hash_List a) \<noteq> None" "prv (lh s') (Bind_Hash_List a) \<noteq> None"
      using that 1(5,6) s'(4) by simp_all
    then obtain s3 k3 where "?f s' = Inr s3" "socks s3 a = Some k3" "state k3 = TCP_CLOSED" "\<not> enable (retrans_timer k3)"
      "sent s3 = sent s'" using retrans_gives_up [OF s'(2) open_k, of L] by blast
    then show ?thesis using r30 s'(3) by (simp add: tcp_sock_read_def tcp_sock_write_def)
  qed
  have fault: "steps (replicate 30 ?f) s1 = Inl Null_Deref" if "nxt (lh s) (Bind_Hash_List a) = None"
    using giving_up_faults [OF s'(2) open_k, of L] that 1(5) s'(4) r30 by simp
  have carry: "\<forall>q\<in>set (p # ps). carries q (out_cb k (snd_nxt k) buf)" using 1(3) 2(5) by simp
  show ?thesis
    by (rule exI [of _ s1], rule exI [of _ p], rule exI [of _ ps], intro conjI impI allI)
      (fact 1(1), fact 1(2), fact 2(4), fact carry, rule wait, assumption, rule close, assumption, rule fault, assumption)
qed

definition bound_sender :: tcp_sock where
  "bound_sender = example_sender\<lparr>ref_cnt := 3\<rparr>"

definition bound_stack :: tcp_stack where
  "bound_stack = sender_stack\<lparr>socks := [0 \<mapsto> bound_sender],
     lh := list_insert (init_list_head (lh sender_stack) (Bnd 5)) (Bind_Hash_List 0) (Bnd 5) (Bnd 5)\<rparr>"

lemma example_idle: "idle_sender 0 sender_stack example_sender" "idle_sender 0 bound_stack bound_sender"
  using example_can_send by (simp_all add: idle_sender_def bound_stack_def bound_sender_def can_send_def in_window_def inflight_def
      sender_stack_def example_stack_def init_list_head_def list_insert_def example_sender_def new_sock_def)

theorem unanswered_segment_given_up_witness:
  "(\<exists>s1 s2 s3 k3. tcp_sock_write lab_env 0 [1, 2, 3] bound_stack = Inr (Write_Ret 3, s1) \<and>
    steps (replicate 6 (tcp_scan_timer_list lab_env)) s1 = Inr s2 \<and> length (sent s2) = length (sent s1) + 2 \<and>
    steps (replicate 30 (tcp_scan_timer_list lab_env)) s1 = Inr s3 \<and> socks s3 0 = Some k3 \<and> state k3 = TCP_CLOSED) \<and>
   (\<exists>s1. tcp_sock_write lab_env 0 [1, 2, 3] sender_stack = Inr (Write_Ret 3, s1) \<and>
    steps (replicate 30 (tcp_scan_timer_list lab_env)) s1 = Inl Null_Deref)"
proof
  obtain s1 p ps where 1: "tcp_sock_write lab_env 0 [1, 2, 3] bound_stack = Inr (Write_Ret 3, s1)" "length ps = 3"
    "\<forall>n<30. \<exists>t k'. steps (replicate n (tcp_scan_timer_list lab_env)) s1 = Inr t \<and> socks t 0 = Some k' \<and> state k' = state bound_sender \<and>
      sent t = sent s1 @ map Ip_Send (take (resends_due (n * nat TCP_TIMER_SCAN_INTERVAL)) ps)"
    "\<exists>s3 k3. steps (replicate 30 (tcp_scan_timer_list lab_env)) s1 = Inr s3 \<and> socks s3 0 = Some k3 \<and> state k3 = TCP_CLOSED"
    using unanswered_segment_given_up [OF ln.libnet_axioms example_idle(2), of "[1, 2, 3]"]
    by (fastforce simp: bound_stack_def bound_sender_def init_list_head_def list_insert_def)
  have "resends_due (6 * nat TCP_TIMER_SCAN_INTERVAL) = 2" by (simp add: resends_due_def TCP_TIMER_SCAN_INTERVAL_def)
  with spec [OF 1(3), of 6] 1(2) obtain s2 where "steps (replicate 6 (tcp_scan_timer_list lab_env)) s1 = Inr s2"
    "length (sent s2) = length (sent s1) + 2" by auto
  with 1 show "\<exists>s1 s2 s3 k3. tcp_sock_write lab_env 0 [1, 2, 3] bound_stack = Inr (Write_Ret 3, s1) \<and>
    steps (replicate 6 (tcp_scan_timer_list lab_env)) s1 = Inr s2 \<and> length (sent s2) = length (sent s1) + 2 \<and>
    steps (replicate 30 (tcp_scan_timer_list lab_env)) s1 = Inr s3 \<and> socks s3 0 = Some k3 \<and> state k3 = TCP_CLOSED" by blast
  show "\<exists>s1. tcp_sock_write lab_env 0 [1, 2, 3] sender_stack = Inr (Write_Ret 3, s1) \<and>
    steps (replicate 30 (tcp_scan_timer_list lab_env)) s1 = Inl Null_Deref"
    using unanswered_segment_given_up [OF ln.libnet_axioms example_idle(1), of "[1, 2, 3]"]
    by (fastforce simp: sender_stack_def example_stack_def init_list_head_def)
qed

text \<open>
  An acknowledgement behind the only segment in the send buffer ends the waiting: the segment and
  the timer's reference are released, and the list of timers is empty.
\<close>

theorem acknowledged_segment_released:
  assumes "awaiting a c t k0 s" "send_buf k0 = [e]" "less_than_32b (se_seq e) ack"
  shows "\<exists>s' k. tcp_update_send_buffer a ack s = Inr s' \<and> socks s' a = Some k \<and> send_buf k = [] \<and> \<not> enable (retrans_timer k) \<and>
    ref_cnt k = ref_cnt k0 - 1 \<and> conn_of k = conn_of k0 \<and> nxt (lh s') Timer_List = Some Timer_List \<and>
    tcp_scan_timer_list L s' = Inr s'"
proof -
  obtain k where k: "socks s a = Some k" "retrans_timer k = \<lparr>timeout = t, enable = True, retrans_cnt = c\<rparr>"
    "conn_of k = conn_of k0" "send_buf k = [e]" "ref_cnt k = ref_cnt k0" and only: "only_timer (Retrans_Timer a) s"
    using assms(1,2) by (auto simp: awaiting_def)
  let ?k = "k\<lparr>send_buf := [], retrans_timer := (retrans_timer k)\<lparr>enable := False\<rparr>, ref_cnt := ref_cnt k - 1\<rparr>"
  obtain h where h: "list_delete_entry (lh s) (Retrans_Timer a) = Inr h" "nxt h Timer_List = Some Timer_List"
    using only by (simp add: only_timer_def list_delete_entry_def)
  have "tcp_update_send_buffer a ack s = Inr ((put_sk a ?k s)\<lparr>lh := h\<rparr>)"
    using k(1,2,4) assms(3) h(1)
    by (simp add: tcp_update_send_buffer_def tcp_unset_retrans_timer_def tcp_update_retrans_timer_def upd_lh_def put_sk_def)
  moreover have "tcp_scan_timer_list L ((put_sk a ?k s)\<lparr>lh := h\<rparr>) = Inr ((put_sk a ?k s)\<lparr>lh := h\<rparr>)"
    using h(2) by (simp add: tcp_scan_timer_list_def scan_loop.simps)
  moreover have "conn_of ?k = conn_of k0" using k(3) by (simp add: conn_of_def)
  ultimately show ?thesis using k h(2) by simp
qed

end
