(* ===== verification/Tcp_Close.thy ===== *)
theory Tcp_Close
  imports Tcp_Life
begin

text \<open>
  The end of a connection, and the applications: what the server loses when the other side
  closes, how a passive close fails, which data a long write retransmits, and the files the
  two applications of \<^verbatim>\<open>tcp_apps.c\<close> read and write.
\<close>

section \<open>The end of a connection\<close>

lemma fin_received:
  assumes "socks s a = Some k" "state k = TCP_ESTABLISHED" "has (cb_flags cb) TCP_FIN"
  shows "\<exists>s' k'. tcp_process L (Some a) cb s = Inr s' \<and> socks s' = (socks s)(a \<mapsto> k') \<and> lh s' = lh s \<and>
    k' = k\<lparr>rcv_nxt := cb_seq cb + 1, state := TCP_CLOSE_WAIT, wait_recv := wake (wait_recv k)\<rparr>"
  using assms
  by (simp add: tcp_process_def established_fin_def tcp_set_state_def wake_recv_def tcp_send_control_packet_def ip_send_def
      put_sk_def Let_def)

lemma steps_snoc: "steps (fs @ [f]) = (\<lambda>s. res_bind (steps fs s) f)"
proof (induction fs)
  case (Cons g gs)
  then show ?case by (intro ext) (simp add: res_bind_assoc)
qed (simp add: fun_eq_iff)

lemma server_run_snoc: "server_run L port ps = Inr s \<Longrightarrow> server_run L port (ps @ [p]) = handle_tcp_packet L p s"
  by (auto simp: server_run_def steps_snoc res_bind_Inr_iff split: prod.splits)

lemma server_established:
  assumes "libnet L" "port \<noteq> 0" "carries p (seg_cb dip sip cport port seq a0 TCP_SYN w0 [])"
    "carries r (seg_cb dip sip cport port s1 (l_rand L 1 + 1) TCP_ACK w1 [])"
  shows "\<exists>sv c. server_run L port [p, r] = Inr sv \<and> server_ready sip dip port cport (l_rand L 1) seq sv c"
proof -
  obtain sv0 where sv0: "tcp_server_start (htons port) init_tcp_stack = Inr (Some 0, sv0)" "listening port sv0"
    using server_start [OF assms(2)] by blast
  obtain sv1 where sv1: "handle_tcp_packet L p sv0 = Inr sv1" "half_open sip dip port cport (l_rand L 1) seq sv1"
    using server_syn [OF assms(1) sv0(2) assms(3)] by blast
  obtain sv2 c where "handle_tcp_packet L r sv1 = Inr sv2" "server_ready sip dip port cport (l_rand L 1) seq sv2 c"
    using server_ack [OF sv1(2) assms(4), of L] by blast
  then show ?thesis using sv0(1) sv1(1) by (auto simp: server_run_def)
qed

lemma last_ack_faults:
  assumes "child_of sip dip port cport s k" "state k = TCP_LAST_ACK" "carries g (seg_cb dip sip cport port seq ack TCP_ACK wnd [])"
  shows "handle_tcp_packet L g s = Inl Null_Deref"
proof -
  let ?cb = "seg_cb dip sip cport port seq ack TCP_ACK wnd []"
  have k: "socks s 1 = Some k" "send_buf k = []" "\<not> enable (retrans_timer k)" "nxt (lh s) (Bind_Hash_List 1) = None"
    using assms(1) by (simp_all add: child_of_def)
  have "k\<lparr>send_buf := []\<rparr> = k" using k(2) by simp
  then have "tcp_update_send_buffer 1 ack s = Inr s"
    using k by (simp add: tcp_update_send_buffer_def tcp_unset_retrans_timer_def tcp_update_retrans_timer_def put_sk_id)
  then show ?thesis
    using child_handle [OF assms(1,3), of L] k assms(2)
    by (simp add: tcp_process_def seg_cb_def tcp_set_state_def tcp_bind_unhash_def list_op_defs)
qed

section \<open>Properties\<close>

text \<open>
  Property C14: A passive close stops the server. The client connects, closes its side with a \<^verbatim>\<open>FIN\<close>, and the
  server closes its socket, as \<^verbatim>\<open>tcp_server\<close> does. The acknowledgement of the server's \<^verbatim>\<open>FIN\<close> then
  makes \<^verbatim>\<open>tcp_bind_unhash\<close> unlink a socket that was never in the table of bound ports, and
  the server follows a null pointer.
\<close>
theorem passive_close_faults:
  assumes "libnet L" "port \<noteq> 0" "carries p (seg_cb dip sip cport port seq a0 TCP_SYN w0 [])"
    "carries r (seg_cb dip sip cport port s1 (l_rand L 1 + 1) TCP_ACK w1 [])"
    "carries f (seg_cb dip sip cport port s2 a2 (TCP_FIN OR TCP_ACK) w2 [])"
    "carries g (seg_cb dip sip cport port s3 a3 TCP_ACK w3 [])"
  shows "\<exists>sv t. server_run L port [p, r, f] = Inr sv \<and> tcp_sock_close L 1 sv = Inr t \<and> handle_tcp_packet L g t = Inl Null_Deref"
proof -
  obtain sv c where sv: "server_run L port [p, r] = Inr sv" "server_ready sip dip port cport (l_rand L 1) seq sv c"
    using server_established [OF assms(1-4)] by blast
  let ?cb = "seg_cb dip sip cport port s2 a2 (TCP_FIN OR TCP_ACK) w2 []"
  have c: "child_of sip dip port cport sv c" "state c = TCP_ESTABLISHED" using sv(2) by (simp_all add: server_ready_def)
  obtain sv' c' where sv': "tcp_process L (Some 1) ?cb sv = Inr sv'" "socks sv' = (socks sv)(1 \<mapsto> c')" "lh sv' = lh sv"
    "c' = c\<lparr>rcv_nxt := s2 + 1, state := TCP_CLOSE_WAIT, wait_recv := wake (wait_recv c)\<rparr>"
    using fin_received [of sv 1 c ?cb L] c by (auto simp: child_of_def seg_cb_def)
  have run: "server_run L port [p, r, f] = Inr sv'"
    using server_run_snoc [OF sv(1), of f] child_handle [OF c(1) assms(5), of L] sv'(1) by simp
  let ?c = "c'\<lparr>state := TCP_LAST_ACK, snd_nxt := snd_nxt c' + 1\<rparr>"
  obtain t where t: "tcp_sock_close L 1 sv' = Inr t" "socks t 1 = Some ?c" "lh t = lh sv'"
    using sv'(2,4) by (simp add: tcp_sock_close_def tcp_set_state_def tcp_send_control_packet_def ip_send_def Let_def)
  have "child_of sip dip port cport t ?c"
    using c(1) t(2,3) sv'(3,4) by (simp add: child_of_def same_conn_def)
  from last_ack_faults [OF this _ assms(6), of L] show ?thesis using run t(1) by auto
qed

theorem passive_close_faults_witness:
  "\<exists>sv t. server_run lab_env 80 [control_packet lab_env 0 1 2 9 80 0 0 TCP_SYN 0 (replicate 54 0),
      control_packet lab_env 0 1 2 9 80 1 (l_rand lab_env 1 + 1) TCP_ACK 0 (replicate 54 0),
      control_packet lab_env 0 1 2 9 80 1 0 (TCP_FIN OR TCP_ACK) 0 (replicate 54 0)] = Inr sv \<and>
    tcp_sock_close lab_env 1 sv = Inr t \<and>
    handle_tcp_packet lab_env (control_packet lab_env 0 1 2 9 80 2 0 TCP_ACK 0 (replicate 54 0)) t = Inl Null_Deref"
  by (rule passive_close_faults [OF ln.libnet_axioms _ ln.control_carries ln.control_carries ln.control_carries ln.control_carries]) simp_all

text \<open>
  A \<^verbatim>\<open>FIN\<close> makes unread data unreadable. A segment with the flag \<^verbatim>\<open>FIN\<close> is accepted in the
  established state whatever its sequence number, and moves the expected number past it. From
  then on every \<^verbatim>\<open>tcp_sock_read\<close> returns -1 and reads nothing, although the receive buffer still
  holds all the bytes that had arrived and were not yet read.
\<close>
theorem fin_discards_unread:
  assumes "socks s a = Some k" "state k = TCP_ESTABLISHED" "has (cb_flags cb) TCP_FIN"
  shows "\<exists>s' k'. tcp_process L (Some a) cb s = Inr s' \<and> socks s' a = Some k' \<and> rcv_nxt k' = cb_seq cb + 1 \<and>
    rb_list (rcv_buf k') = rb_list (rcv_buf k) \<and> rcv_ofo_buf k' = rcv_ofo_buf k \<and>
    (\<forall>len. tcp_sock_read a len s' = Inr (Read_Ret (-1) [], s'))"
proof -
  obtain s' k' where "tcp_process L (Some a) cb s = Inr s'" "socks s' = (socks s)(a \<mapsto> k')"
    "k' = k\<lparr>rcv_nxt := cb_seq cb + 1, state := TCP_CLOSE_WAIT, wait_recv := wake (wait_recv k)\<rparr>"
    using fin_received [OF assms, of L] by blast
  then show ?thesis by (intro exI [of _ s'] exI [of _ k']) (simp add: tcp_sock_read_def)
qed

theorem fin_discards_unread_witness:
  "\<exists>s' k'. tcp_process example_env (Some 0) ((example_cb 9 [])\<lparr>cb_flags := TCP_FIN OR TCP_ACK\<rparr>)
      (example_stack\<lparr>socks := [0 \<mapsto> example_established\<lparr>rcv_buf := \<lparr>rsize = 4, head = 0, tail = 2, rbuf = [1, 2, 3, 4]\<rparr>\<rparr>]\<rparr>) = Inr s' \<and>
    socks s' 0 = Some k' \<and> rb_list (rcv_buf k') = [1, 2] \<and> (\<forall>len. tcp_sock_read 0 len s' = Inr (Read_Ret (-1) [], s'))"
  using fin_discards_unread [of "example_stack\<lparr>socks := [0 \<mapsto> example_established\<lparr>rcv_buf := \<lparr>rsize = 4, head = 0, tail = 2, rbuf = [1, 2, 3, 4]\<rparr>\<rparr>]\<rparr>"
      0 "example_established\<lparr>rcv_buf := \<lparr>rsize = 4, head = 0, tail = 2, rbuf = [1, 2, 3, 4]\<rparr>\<rparr>"
      "(example_cb 9 [])\<lparr>cb_flags := TCP_FIN OR TCP_ACK\<rparr>" example_env]
  by (auto simp: example_established_def rb_list_def ring_buffer_used_def smod_int_alt_def numeral_2_eq_2)

section \<open>Retransmission of long writes\<close>

lemma two_segments:
  assumes "libnet L" "can_send a s k" "TCP_MSS < length buf" "length buf \<le> 2 * TCP_MSS" "inflight k + 2 * TCP_MSS \<le> unat (snd_wnd k)"
  shows "\<exists>s' k'. tcp_sock_write L a buf s = Inr (Write_Ret (int (length buf)), s') \<and> socks s' a = Some k' \<and>
    send_buf k' = send_buf k @ [\<lparr>se_seq = snd_nxt k, se_packet = buf\<rparr>, \<lparr>se_seq = snd_nxt k + 1460, se_packet = buf\<rparr>]"
proof -
  from assms(2) have k: "socks s a = Some k" "prv (lh s) Timer_List \<noteq> None" "in_window k"
    "tcp_sock_write L a buf s = write_from L a buf 0 s" by (auto simp: can_send_def tcp_sock_write_def)
  obtain s1 k1 where 1: "send_segment L a buf 0 1460 s = Inr s1" "socks s1 a = Some k1" "conn_of k1 = conn_of k"
    "snd_nxt k1 = snd_nxt k + of_nat 1460" "send_buf k1 = send_buf k @ [\<lparr>se_seq = snd_nxt k, se_packet = buf\<rparr>]"
    "prv (lh s1) Timer_List \<noteq> None"
    using segment_sent [OF assms(1) k(1,2), of 0 1460 buf] assms(3) by auto
  have w: "snd_una k1 = snd_una k" "snd_wnd k1 = snd_wnd k" using 1(3) by (simp_all add: conn_of_def)
  note adv = inflight_advance [OF k(3) _ 1(4) w]
  have win: "in_window k1" "inflight k1 = inflight k + 1460" using adv assms(5) by simp_all
  have fit: "1460 + (length buf - 1460) \<le> length buf" "length buf - 1460 \<le> 1460" using assms(3,4) by simp_all
  obtain s2 k2 where 2: "send_segment L a buf 1460 (length buf - 1460) s1 = Inr s2" "socks s2 a = Some k2"
    "send_buf k2 = send_buf k1 @ [\<lparr>se_seq = snd_nxt k1, se_packet = buf\<rparr>]"
    using segment_sent [OF assms(1) 1(2,6) fit] by blast
  have "write_round L a buf 0 s = Inr (Write_More 1460, s1)"
    using k(1) 1(1) assms(3,5) window_test [OF k(3)] by (auto simp: write_round_def Let_def min_def)
  moreover have "write_round L a buf 1460 s1 = Inr (Write_More (length buf), s2)"
    using 1(2) 2(1) fit assms(3-5) window_test [OF win(1)] win(2) w(2) by (auto simp: write_round_def Let_def min_def)
  moreover have "write_round L a buf (length buf) s2 = Inr (Write_Ret (int (length buf)), s2)"
    using 2(2) by (simp add: write_round_def)
  ultimately have "write_from L a buf 0 s = Inr (Write_Ret (int (length buf)), s2)"
    by (simp add: write_from_step [of L a buf 0] write_from_step [of L a buf 1460] write_from_step [of L a buf "length buf"])
  then show ?thesis using k(4) 2(2,3) 1(4,5) by simp
qed

text \<open>
  Property C15: A long write retransmits the wrong data. \<^verbatim>\<open>tcp_sock_write\<close> stores its whole buffer in the send
  buffer for every segment. After a write of two segments, once the first is acknowledged, a
  retransmission of the second carries the whole buffer at the sequence number of the second
  segment: a control block that is not a piece of the stream.
\<close>
theorem long_write_retransmits_wrong_data:
  assumes "libnet L" "can_send a s k" "send_buf k = []" "TCP_MSS < length buf" "length buf \<le> 2 * TCP_MSS"
    "inflight k + 2 * TCP_MSS \<le> unat (snd_wnd k)" "fits (snd_nxt k) buf"
  shows "\<exists>s' k'. tcp_sock_write L a buf s = Inr (Write_Ret (int (length buf)), s') \<and> socks s' a = Some k' \<and>
    (\<forall>t. socks t a = Some (k'\<lparr>send_buf := drop_acked (snd_nxt k + of_nat TCP_MSS) (send_buf k')\<rparr>) \<longrightarrow>
      (\<exists>t' p cb. tcp_retrans_send_buffer L a t = Inr t' \<and> sent t' = sent t @ [Ip_Send p] \<and> carries p cb \<and>
         cb_seq cb = snd_nxt k + of_nat TCP_MSS \<and> payload cb = buf \<and> (\<nexists>q. data_seg (snd_nxt k) buf q cb)))"
proof -
  let ?base = "snd_nxt k"
  let ?e = "\<lparr>se_seq = ?base + 1460, se_packet = buf\<rparr>"
  obtain s' k' where w: "tcp_sock_write L a buf s = Inr (Write_Ret (int (length buf)), s')" "socks s' a = Some k'"
    "send_buf k' = [\<lparr>se_seq = ?base, se_packet = buf\<rparr>, ?e]"
    using two_segments [OF assms(1,2,4-6)] assms(3) by auto
  have "less_than_32b (sq ?base 0) (sq ?base 1460)" "\<not> less_than_32b (sq ?base 1460) (sq ?base 1460)"
    using sq_cmp(2) [OF assms(7), of 0 1460] sq_cmp(2) [OF assms(7), of 1460 1460] assms(4) by simp_all
  then have d: "drop_acked (?base + 1460) (send_buf k') = [?e]" using w(3) by (simp add: sq_def)
  have no: "\<not> data_seg ?base buf q (out_cb k'' (?base + 1460) buf)" for q k''
  proof
    assume "data_seg ?base buf q (out_cb k'' (?base + 1460) buf)"
    then have q: "pair_ok buf q" "sq ?base 1460 = sq ?base (fst q)" "snd q = length buf"
      by (simp_all add: data_seg_def out_cb_def seg_cb_def sq_def)
    then have "fst q = 1460" using sq_cmp(3) [OF assms(7), of 1460 "fst q"] assms(4) by (simp add: pair_ok_def)
    then show False using q by (simp add: pair_ok_def)
  qed
  have "\<exists>t' p cb. tcp_retrans_send_buffer L a t = Inr t' \<and> sent t' = sent t @ [Ip_Send p] \<and> carries p cb \<and>
         cb_seq cb = ?base + of_nat TCP_MSS \<and> payload cb = buf \<and> (\<nexists>q. data_seg ?base buf q cb)"
    if t: "socks t a = Some (k'\<lparr>send_buf := drop_acked (?base + of_nat TCP_MSS) (send_buf k')\<rparr>)" for t
  proof -
    let ?k = "k'\<lparr>send_buf := [?e]\<rparr>"
    have "socks t a = Some ?k" using t d by simp
    from retrans_carries [OF assms(1) this, of ?e "[]"] assms(5) obtain p where
      p: "tcp_retrans_send_buffer L a t = Inr (t\<lparr>sent := sent t @ [Ip_Send p]\<rparr>)" "carries p (out_cb ?k (?base + 1460) buf)" by auto
    then show ?thesis using no
      by (intro exI [of _ "t\<lparr>sent := sent t @ [Ip_Send p]\<rparr>"] exI [of _ p] exI [of _ "out_cb ?k (?base + 1460) buf"])
        (simp add: out_cb_def seg_cb_def)
  qed
  then show ?thesis using w by blast
qed

theorem long_write_retransmits_wrong_data_witness:
  "\<exists>s' k'. tcp_sock_write (router_env example_router (\<lambda>_. None) 0) 0 (replicate 1461 7) sender_stack =
      Inr (Write_Ret (int (length (replicate 1461 (7 :: u8)))), s') \<and> socks s' 0 = Some k' \<and>
    (\<forall>t. socks t 0 = Some (k'\<lparr>send_buf := drop_acked (snd_nxt example_sender + of_nat TCP_MSS) (send_buf k')\<rparr>) \<longrightarrow>
      (\<exists>t' p cb. tcp_retrans_send_buffer (router_env example_router (\<lambda>_. None) 0) 0 t = Inr t' \<and> sent t' = sent t @ [Ip_Send p] \<and>
         carries p cb \<and> cb_seq cb = snd_nxt example_sender + of_nat TCP_MSS \<and> payload cb = replicate 1461 7 \<and>
         (\<nexists>q. data_seg (snd_nxt example_sender) (replicate 1461 7) q cb)))"
  by (rule long_write_retransmits_wrong_data [OF ln.libnet_axioms example_can_send(1)])
    (simp_all add: example_can_send(2-4) inflight_def example_sender_def new_sock_def fits_def)

section \<open>The applications\<close>

lemma chunk_Cons:
  assumes "concat bs = g \<and> (\<forall>b\<in>set bs. b \<noteq> [] \<and> length b \<le> n) \<and> (\<forall>b\<in>set (butlast bs). length b = n)"
    "b @ g = f" "b \<noteq> []" "length b = n"
  shows "concat (b # bs) = f \<and> (\<forall>b\<in>set (b # bs). b \<noteq> [] \<and> length b \<le> n) \<and> (\<forall>b\<in>set (butlast (b # bs)). length b = n)"
  using assms by auto

text \<open>
  The client sends its file. The buffers that \<^verbatim>\<open>tcp_client\<close> writes are the contents of its file in
  order; each has between 1 and 1000 bytes, and all but the last have 1000.
\<close>
theorem client_writes_file:
  "concat (client_writes f) = f \<and> (\<forall>b\<in>set (client_writes f). b \<noteq> [] \<and> length b \<le> 1000) \<and>
   (\<forall>b\<in>set (butlast (client_writes f)). length b = 1000)"
proof (induction f rule: client_writes.induct)
  case (1 f)
  show ?case
  proof (cases "length f < 1000")
    case True
    then show ?thesis by (subst (1 2 3) client_writes.simps) (auto simp: Let_def)
  next
    case False
    then have f: "client_writes f = take 1000 f # client_writes (drop 1000 f)"
      by (subst client_writes.simps) (auto simp: Let_def)
    have len: "length (take 1000 f) = 1000" "f \<noteq> []" using False by auto
    have ih: "concat (client_writes (drop 1000 f)) = drop 1000 f \<and>
      (\<forall>b\<in>set (client_writes (drop 1000 f)). b \<noteq> [] \<and> length b \<le> 1000) \<and>
      (\<forall>b\<in>set (butlast (client_writes (drop 1000 f))). length b = 1000)"
      by (rule 1 [OF refl refl]) (simp_all add: len(1) del: length_take)
    have "take 1000 f \<noteq> []" using len by auto
    then show ?thesis unfolding f by (rule chunk_Cons [OF ih append_take_drop_id _ len(1)])
  qed
qed

theorem client_writes_file_witness:
  "concat (client_writes [1, 2, 3]) = [1, 2, 3] \<and> (\<forall>b\<in>set (client_writes [1, 2, 3]). b \<noteq> [] \<and> length b \<le> 1000) \<and>
   (\<forall>b\<in>set (butlast (client_writes [1, 2, 3])). length b = 1000)"
  by (rule client_writes_file)

text \<open>
  A full read overruns the server's array. When at least 1000 bytes wait in the receive buffer, the
  read of the server returns 1000, and storing the terminating zero writes behind the last
  element of its array. A shorter read appends its bytes to the output file.
\<close>
theorem full_read_overruns:
  assumes "socks s a = Some k" "state k = TCP_ESTABLISHED" "\<not> rcv_buf_lock k" "rb_inv (rcv_buf k)" "rb_list (rcv_buf k) \<noteq> []"
  shows "\<exists>n d s'. tcp_sock_read a 1000 s = Inr (Read_Ret n d, s') \<and> d = take 1000 (rb_list (rcv_buf k)) \<and> n = int (length d) \<and>
    server_store n d file = (if 1000 \<le> length (rb_list (rcv_buf k)) then Inl Out_Of_Bounds else Inr (Some (file @ d)))"
proof -
  define avail where "avail = min 1000 (ring_buffer_used (rcv_buf k))"
  have u: "ring_buffer_used (rcv_buf k) = int (length (rb_list (rcv_buf k)))" using length_rb_list [OF assms(4)] by simp
  have e: "\<not> ring_buffer_empty (rcv_buf k)"
    using u assms(5) by (simp add: ring_buffer_empty_def)
  obtain m rb where r: "read_ring_buffer (rcv_buf k) avail = (m, take (nat avail) (rb_list (rcv_buf k)), rb)"
    using read_ring_buffer_spec [OF assms(4), of avail] u by (auto simp: avail_def)
  have "take (nat avail) (rb_list (rcv_buf k)) = take 1000 (rb_list (rcv_buf k))" using u by (auto simp: avail_def min_def)
  with r have "\<exists>s'. tcp_sock_read a 1000 s = Inr (Read_Ret avail (take 1000 (rb_list (rcv_buf k))), s')"
    using assms(1-3) e by (simp add: tcp_sock_read_def read_loop_def lock_rcv_buf_def avail_def Let_def split_beta)
  moreover have "avail = int (length (take 1000 (rb_list (rcv_buf k))))" using u by (simp add: avail_def)
  moreover have "length (rb_list (rcv_buf k)) > 0" using assms(5) by simp
  ultimately show ?thesis by (auto simp: server_store_def avail_def)
qed

definition full_sock :: tcp_sock where
  "full_sock = new_sock\<lparr>state := TCP_ESTABLISHED, rcv_buf := \<lparr>rsize = 1001, head = 0, tail = 1000, rbuf = replicate 1001 7\<rparr>\<rparr>"

lemma full_sock_list: "rb_list (rcv_buf full_sock) = replicate 1000 7" "rb_inv (rcv_buf full_sock)"
  unfolding full_sock_def by (simp_all add: rb_list_def ring_buffer_used_def rb_inv_def smod_int_alt_def)

theorem full_read_overruns_witness:
  "\<exists>d s'. tcp_sock_read 0 1000 (example_stack\<lparr>socks := [0 \<mapsto> full_sock]\<rparr>) = Inr (Read_Ret 1000 d, s') \<and>
     server_store 1000 d [] = Inl Out_Of_Bounds"
proof -
  have "\<exists>n d s'. tcp_sock_read 0 1000 (example_stack\<lparr>socks := [0 \<mapsto> full_sock]\<rparr>) = Inr (Read_Ret n d, s') \<and>
      d = take 1000 (rb_list (rcv_buf full_sock)) \<and> n = int (length d) \<and>
      server_store n d [] = (if 1000 \<le> length (rb_list (rcv_buf full_sock)) then Inl Out_Of_Bounds else Inr (Some ([] @ d)))"
    by (rule full_read_overruns) (use full_sock_list in \<open>simp_all add: full_sock_def new_sock_def\<close>)
  then show ?thesis by (auto simp: full_sock_list(1))
qed

end
