(* ===== verification/C_Text.thy ===== *)
theory C_Text
  imports Net_Prelude
begin

text \<open>
  Numbers as text, as the C library reads and prints them: the conversion \<^verbatim>\<open>%ld\<close> of \<^verbatim>\<open>sscanf\<close>, which
  the web server uses, \<^verbatim>\<open>atoi\<close> and \<^verbatim>\<open>inet_addr\<close>, which the TCP program applies to its command line,
  and decimal notation. A number that does not fit the type it is read into is undefined in C and the
  fault \<open>Int_Overflow\<close> here.
\<close>

section \<open>Decimal numbers\<close>

definition is_space :: "char \<Rightarrow> bool" where
  "is_space c = (c \<in> {CHR 0x20, CHR 0x09, CHR 0x0A, CHR 0x0B, CHR 0x0C, CHR 0x0D})"

definition is_digit :: "char \<Rightarrow> bool" where
  "is_digit c = (48 \<le> (of_char c :: nat) \<and> (of_char c :: nat) \<le> 57)"

definition digits_val :: "string \<Rightarrow> int" where
  "digits_val ds = foldl (\<lambda>n c. 10 * n + (int (of_char c) - 48)) 0 ds"

text \<open>The conversion \<^verbatim>\<open>%ld\<close>, before the number is stored.\<close>

definition scan_long :: "string \<Rightarrow> (int \<times> string) option" where
  "scan_long s =
     (let t = dropWhile is_space s;
          neg = (t \<noteq> [] \<and> hd t = CHR ''-'');
          u = (if t \<noteq> [] \<and> hd t \<in> {CHR ''-'', CHR ''+''} then tl t else t);
          ds = takeWhile is_digit u
      in if ds = [] then None else Some (if neg then - digits_val ds else digits_val ds, drop (length ds) u))"

fun dec :: "nat \<Rightarrow> string" where
  "dec n = (if n < 10 then [char_of (48 + n)] else dec (n div 10) @ [char_of (48 + n mod 10)])"

declare dec.simps [simp del]

definition in_long :: "int \<Rightarrow> bool" where
  "in_long z = (- (2 ^ 63) \<le> z \<and> z < 2 ^ 63)"

text \<open>\<^verbatim>\<open>atoi\<close>: zero if there is no number.\<close>

definition atoi :: "string \<Rightarrow> int res" where
  "atoi s =
     (case scan_long s of None \<Rightarrow> Inr 0
      | Some (z, _) \<Rightarrow> if - (2 ^ 31) \<le> z \<and> z < 2 ^ 31 then Inr z else Inl Int_Overflow)"

section \<open>Internet addresses\<close>

text \<open>
  \<^verbatim>\<open>inet_addr\<close>: up to four numbers with dots between them, each in decimal, in octal after a \<^verbatim>\<open>0\<close> or in
  hexadecimal after \<^verbatim>\<open>0x\<close>. All but the last are bytes, the last fills the rest of the address.
  White space may follow. The result is in network byte order; \<^verbatim>\<open>INADDR_NONE\<close> is a malformed
  address.
\<close>

definition INADDR_NONE :: u32 where "INADDR_NONE = 0xffffffff"

definition digit_value :: "char \<Rightarrow> nat option" where
  "digit_value c =
     (let n = of_char c in
      if 48 \<le> n \<and> n \<le> 57 then Some (n - 48)
      else if 97 \<le> n \<and> n \<le> 102 then Some (n - 87)
      else if 65 \<le> n \<and> n \<le> 70 then Some (n - 55) else None)"

fun scan_base :: "nat \<Rightarrow> nat \<Rightarrow> string \<Rightarrow> nat \<times> string" where
  "scan_base b n [] = (n, [])"
| "scan_base b n (c # cs) =
     (case digit_value c of None \<Rightarrow> (n, c # cs)
      | Some d \<Rightarrow> if d < b then scan_base b (b * n + d) cs else (n, c # cs))"

definition scan_number :: "string \<Rightarrow> nat \<times> string" where
  "scan_number s =
     (if 3 \<le> length s \<and> hd s = CHR ''0'' \<and> s ! 1 \<in> {CHR ''x'', CHR ''X''} \<and> digit_value (s ! 2) \<noteq> None
      then scan_base 16 0 (drop 2 s)
      else if s \<noteq> [] \<and> hd s = CHR ''0'' then scan_base 8 0 s else scan_base 10 0 s)"

fun inet_parts :: "nat \<Rightarrow> string \<Rightarrow> (nat list \<times> string) option" where
  "inet_parts 0 s = None"
| "inet_parts (Suc n) s =
     (if s = [] \<or> \<not> is_digit (hd s) then None
      else let (v, r) = scan_number s
           in if r \<noteq> [] \<and> hd r = CHR ''.''
              then if v > 255 then None else map_option (\<lambda>(vs, r). (v # vs, r)) (inet_parts n (tl r))
              else Some ([v], r))"

fun inet_value :: "nat \<Rightarrow> nat list \<Rightarrow> nat option" where
  "inet_value w [] = None"
| "inet_value w [v] = (if v < 2 ^ w then Some v else None)"
| "inet_value w (v # vs) = map_option (\<lambda>x. v * 2 ^ (w - 8) + x) (inet_value (w - 8) vs)"

definition inet_addr :: "string \<Rightarrow> u32" where
  "inet_addr s =
     (case inet_parts 4 s of None \<Rightarrow> INADDR_NONE
      | Some (vs, r) \<Rightarrow>
          if r \<noteq> [] \<and> \<not> is_space (hd r) then INADDR_NONE
          else case inet_value 32 vs of None \<Rightarrow> INADDR_NONE | Some a \<Rightarrow> htonl (of_nat a))"

section \<open>Reading what was printed\<close>

lemma is_space_20 [simp]: "is_space (CHR 0x20)" "is_space (CHR 0x0D)" "is_space (CHR 0x0A)" "\<not> is_space (CHR ''-'')"
  by (simp_all add: is_space_def)

lemma of_char_digit: "n < 10 \<Longrightarrow> of_char (char_of (48 + n) :: char) = (48 + n :: nat)"
  by simp

lemma dec_digits: "\<forall>c\<in>set (dec n). is_digit c" "dec n \<noteq> []"
proof -
  show "\<forall>c\<in>set (dec n). is_digit c"
    by (induction n rule: dec.induct) (subst dec.simps, auto simp: is_digit_def)
  show "dec n \<noteq> []" by (subst dec.simps) simp
qed

lemma digits_val_snoc: "digits_val (ds @ [c]) = 10 * digits_val ds + (int (of_char c) - 48)"
  by (simp add: digits_val_def)

lemma digits_val_dec: "digits_val (dec n) = int n"
proof (induction n rule: dec.induct)
  case (1 n)
  show ?case
  proof (cases "n < 10")
    case True
    then show ?thesis by (subst dec.simps) (simp add: digits_val_def)
  next
    case False
    then have "digits_val (dec n) = 10 * int (n div 10) + int (n mod 10)"
      using 1 by (subst dec.simps) (simp add: digits_val_snoc)
    also have "\<dots> = int n" using mult_div_mod_eq [of 10 n] by (metis of_nat_add of_nat_mult of_nat_numeral)
    finally show ?thesis .
  qed
qed

lemma length_dec: "0 < k \<Longrightarrow> n < 10 ^ k \<Longrightarrow> length (dec n) \<le> k"
proof (induction n arbitrary: k rule: dec.induct)
  case (1 n)
  show ?case
  proof (cases "n < 10")
    case True
    then show ?thesis using 1(2) by (subst dec.simps) simp
  next
    case False
    then obtain j where j: "k = Suc j" "0 < j" using 1(2,3) by (cases k; cases "k = 1") auto
    then have "n div 10 < 10 ^ j" using 1(3) by (simp add: div_less_iff_less_mult)
    then have "length (dec (n div 10)) \<le> j" using 1(1) [OF False] j(2) by blast
    then show ?thesis using False j(1) by (subst dec.simps) simp
  qed
qed

lemma digit_not_space: "is_digit c \<Longrightarrow> \<not> is_space c" "is_digit c \<Longrightarrow> c \<noteq> CHR ''-'' \<and> c \<noteq> CHR ''+''"
  by (auto simp: is_digit_def is_space_def)

lemma scan_long_dec:
  assumes "r = [] \<or> \<not> is_digit (hd r)"
  shows "scan_long (dec n @ r) = Some (int n, r)"
proof -
  obtain c cs where c: "dec n = c # cs" using dec_digits(2) [of n] by (cases "dec n") auto
  have d: "is_digit c" using dec_digits(1) [of n] c by simp
  have "dropWhile is_space (dec n @ r) = dec n @ r" using c digit_not_space(1) [OF d] by simp
  moreover have "takeWhile is_digit (dec n @ r) = dec n"
    using assms dec_digits(1) [of n] by (cases r) (auto simp: takeWhile_append)
  moreover have "hd (dec n @ r) \<noteq> CHR ''-''" "hd (dec n @ r) \<noteq> CHR ''+''" using c digit_not_space(2) [OF d] by auto
  ultimately show ?thesis using dec_digits(2) [of n] digits_val_dec [of n] by (simp add: scan_long_def Let_def)
qed

lemma scan_long_neg:
  assumes "r = [] \<or> \<not> is_digit (hd r)"
  shows "scan_long (''-'' @ dec n @ r) = Some (- int n, r)"
proof -
  have "takeWhile is_digit (dec n @ r) = dec n"
    using assms dec_digits(1) [of n] by (cases r) (auto simp: takeWhile_append)
  then show ?thesis using dec_digits(2) [of n] digits_val_dec [of n] by (simp add: scan_long_def Let_def)
qed

lemma atoi_dec: "n < 2 ^ 31 \<Longrightarrow> atoi (dec n) = Inr (int n)"
  using scan_long_dec [of "[]" n] by (simp add: atoi_def)

text \<open>An address in the usual notation.\<close>

definition dotted :: "u32 \<Rightarrow> string" where
  "dotted a = dec (unat a div 2 ^ 24) @ ''.'' @ dec (unat a div 2 ^ 16 mod 256) @ ''.'' @
     dec (unat a div 2 ^ 8 mod 256) @ ''.'' @ dec (unat a mod 256)"

definition stops :: "string \<Rightarrow> bool" where
  "stops r \<longleftrightarrow> r = [] \<or> hd r = CHR ''.'' \<or> is_space (hd r)"

lemma stops_no_digit: "stops (c # cs) \<Longrightarrow> digit_value c = None \<and> \<not> is_digit c \<and> c \<noteq> CHR ''x'' \<and> c \<noteq> CHR ''X''"
  by (auto simp: stops_def is_space_def digit_value_def is_digit_def)

lemma scan_base_digits:
  assumes "stops r"
  shows "\<forall>c\<in>set ds. is_digit c \<Longrightarrow> scan_base 10 m (ds @ r) = (foldl (\<lambda>n c. 10 * n + (of_char c - 48)) m ds, r)"
proof (induction ds arbitrary: m)
  case Nil
  then show ?case using assms by (cases r) (auto dest: stops_no_digit)
next
  case (Cons c ds)
  then have "digit_value c = Some (of_char c - 48)" "(of_char c - 48 :: nat) < 10"
    by (auto simp: digit_value_def is_digit_def Let_def)
  then show ?case using Cons by simp
qed

lemma digits_val_nat:
  "\<forall>c\<in>set ds. is_digit c \<Longrightarrow>
   int (foldl (\<lambda>n c. 10 * n + (of_char c - 48)) m ds) = foldl (\<lambda>n c. 10 * n + (int (of_char c) - 48)) (int m) ds"
  by (induction ds arbitrary: m) (auto simp: is_digit_def of_nat_diff add_diff_eq)

lemma scan_base_dec: "stops r \<Longrightarrow> scan_base 10 0 (dec n @ r) = (n, r)"
proof -
  assume "stops r"
  have "int (foldl (\<lambda>n c. 10 * n + (of_char c - 48)) 0 (dec n)) = int n"
    using digits_val_nat [OF dec_digits(1), of 0 n] digits_val_dec [of n] by (simp add: digits_val_def)
  then show ?thesis using scan_base_digits [OF \<open>stops r\<close> dec_digits(1), of 0 n] by simp
qed

lemma hd_dec: "hd (dec n) = CHR ''0'' \<longleftrightarrow> n = 0"
proof (induction n rule: dec.induct)
  case (1 n)
  show ?case
  proof (cases "n < 10")
    case True
    then have "of_char (hd (dec n)) = 48 + n" by (subst dec.simps) simp
    moreover have "(of_char (CHR ''0'') :: nat) = 48" by simp
    ultimately show ?thesis by (metis add_cancel_right_right of_char_eq_iff)
  next
    case False
    then show ?thesis using 1 dec_digits(2) [of "n div 10"] by (subst dec.simps) (auto simp: hd_append)
  qed
qed

lemma scan_number_dec: "stops r \<Longrightarrow> scan_number (dec n @ r) = (n, r)"
proof (cases "n = 0")
  case True
  assume r: "stops r"
  have d: "dec 0 = [CHR ''0'']" by code_simp
  have "scan_base 8 0 (CHR ''0'' # r) = (0, r)"
    using r by (cases r) (auto simp: digit_value_def dest: stops_no_digit)
  moreover have "\<not> (3 \<le> length (CHR ''0'' # r) \<and> (CHR ''0'' # r) ! 1 \<in> {CHR ''x'', CHR ''X''})"
    using r by (cases r) (auto dest: stops_no_digit)
  ultimately show ?thesis using True d by (auto simp: scan_number_def)
next
  case False
  assume r: "stops r"
  have "hd (dec n @ r) \<noteq> CHR ''0''" using False hd_dec dec_digits(2) [of n] by simp
  then show ?thesis using scan_base_dec [OF r, of n] by (simp add: scan_number_def)
qed

lemma inet_parts_last:
  assumes "stops r" "r = [] \<or> hd r \<noteq> CHR ''.''"
  shows "inet_parts (Suc k) (dec n @ r) = Some ([n], r)"
proof -
  have "dec n @ r \<noteq> []" "is_digit (hd (dec n @ r))" using dec_digits [of n] by (cases "dec n"; simp)+
  then show ?thesis using assms(2) by (auto simp: scan_number_dec [OF assms(1)])
qed

lemma inet_parts_dot:
  assumes "n < 256"
  shows "inet_parts (Suc k) (dec n @ CHR ''.'' # r) = map_option (\<lambda>(vs, r). (n # vs, r)) (inet_parts k r)"
proof -
  have "scan_number (dec n @ CHR ''.'' # r) = (n, CHR ''.'' # r)" by (rule scan_number_dec) (simp add: stops_def)
  then show ?thesis using dec_digits [of n] assms by (cases "dec n") auto
qed

text \<open>\<^verbatim>\<open>inet_addr\<close> reads every address back from the usual notation.\<close>

lemma inet_addr_dotted: "inet_addr (dotted a) = htonl a"
proof -
  define x0 where "x0 = unat a"
  define x1 where "x1 = x0 div 256"
  define x2 where "x2 = x1 div 256"
  define x3 where "x3 = x2 div 256"
  have d: "x0 div 2 ^ 8 = x1" "x0 div 2 ^ 16 = x2" "x0 div 2 ^ 24 = x3"
    by (simp_all add: x1_def x2_def x3_def div_mult2_eq [symmetric])
  have "x3 < 256" using unat_u32_less [of a] by (simp add: x0_def x1_def x2_def x3_def div_less_iff_less_mult)
  have dot: "dotted a = dec x3 @ CHR ''.'' # dec (x2 mod 256) @ CHR ''.'' # dec (x1 mod 256) @ CHR ''.'' # dec (x0 mod 256) @ []"
    unfolding dotted_def x0_def [symmetric] d by simp
  have "inet_parts (Suc (Suc (Suc (Suc 0)))) (dotted a) = Some ([x3, x2 mod 256, x1 mod 256, x0 mod 256], [])"
    unfolding dot using \<open>x3 < 256\<close> by (simp add: inet_parts_dot inet_parts_last stops_def del: inet_parts.simps append_Nil2)
  then have s: "inet_parts 4 (dotted a) = Some ([x3, x2 mod 256, x1 mod 256, x0 mod 256], [])"
    by (metis Suc_1 Suc_numeral add_2_eq_Suc' numeral_2_eq_2 numeral_Bit0 semiring_norm(2))
  have "x0 = 256 * x1 + x0 mod 256" "x1 = 256 * x2 + x1 mod 256" "x2 = 256 * x3 + x2 mod 256"
    by (simp_all add: x1_def x2_def x3_def)
  then have "x3 * 2 ^ 24 + (x2 mod 256 * 2 ^ 16 + (x1 mod 256 * 2 ^ 8 + x0 mod 256)) = x0"
    by simp
  then have "inet_value 32 [x3, x2 mod 256, x1 mod 256, x0 mod 256] = Some x0"
    by simp
  then show ?thesis by (simp add: inet_addr_def s x0_def)
qed

end
