(* ===== verification/Tcp_Main.thy ===== *)
theory Tcp_Main
  imports Tcp_Close Device_Init C_Text
begin

text \<open>
  The TCP program around its stack: \<^verbatim>\<open>code-exp2/main.c\<close> with the dispatch of frames, the command
  line and the start of the application thread, the loops of the two applications of
  \<^verbatim>\<open>tcp_apps.c\<close>, and \<^verbatim>\<open>tcp_copy_flags_to_str\<close> of \<^verbatim>\<open>tcp.c\<close>. The packet loop is
  \<open>unchecked_round\<close>. The interfaces, the ARP cache and the routing table are initialised by
  \<^verbatim>\<open>libnet.a\<close>, which keeps their state; its ARP handler does not change the TCP stack.
\<close>

section \<open>Frames\<close>

definition handle_packet2 :: "tcp_env \<Rightarrow> iface_info option \<Rightarrow> bytes \<Rightarrow> tcp_stack \<Rightarrow> tcp_stack res" where
  "handle_packet2 L iface packet s =
     (if length packet < ETHER_HDR_SIZE then Inl Out_Of_Bounds
      else if ntohs (ether_type packet) = ETH_P_IP
        then (case iface of
                None \<Rightarrow> if length packet < ETHER_HDR_SIZE + IP_BASE_HDR_SIZE then Inl Out_Of_Bounds else Inl Null_Deref
              | Some i \<Rightarrow> handle_ip_packet2 L i packet s)
      else Inr s)"

section \<open>The command line\<close>

text \<open>The argument of the thread that is started: a port, or an address and a port, in network byte order.\<close>

datatype app = App_Server u16 | App_Client u32 u16

definition port_arg :: "string \<Rightarrow> u16 res" where
  "port_arg s = res_map (\<lambda>n. htons (of_int n)) (atoi s)"

definition run_application :: "string list \<Rightarrow> app res" where
  "run_application args =
     (if args ! 0 = ''server''
      then if length args \<noteq> 2 then Inl Exited else res_map App_Server (port_arg (args ! 1))
      else if args ! 0 = ''client''
      then if length args \<noteq> 3 then Inl Exited
           else res_map (App_Client (inet_addr (args ! 1))) (port_arg (args ! 2))
      else Inl Exited)"

text \<open>
  The thread reads its argument through a pointer to a local variable of \<^verbatim>\<open>run_application\<close>. Whether it
  does so before that function returns is up to the scheduler (\<open>in_time\<close>).
\<close>

definition app_thread :: "tcp_env \<Rightarrow> bool \<Rightarrow> app \<Rightarrow> tcp_stack \<Rightarrow> tcp_stack res" where
  "app_thread L in_time a s =
     (if \<not> in_time then Inl Use_After_Free
      else case a of
        App_Server port \<Rightarrow>
          res_bind (tcp_server_start port s) (\<lambda>(r, s). case r of None \<Rightarrow> Inl Exited | Some _ \<Rightarrow> Inr s)
      | App_Client ip port \<Rightarrow>
          res_bind (tcp_client_start L ip port s) (\<lambda>(a, r, s).
            case r of Ret n \<Rightarrow> if n < 0 then Inl Exited else Inr s | Asleep \<Rightarrow> Inr s))"

definition tcp_main :: "tcp_env \<Rightarrow> int \<Rightarrow> int \<Rightarrow> string list \<Rightarrow> bool \<Rightarrow> tcp_stack res" where
  "tcp_main L uid euid argv in_time =
     (if uid \<noteq> 0 \<and> euid \<noteq> 0 then Inl Exited
      else if length argv < 2 then Inl Exited
      else res_bind (run_application (tl argv)) (\<lambda>a. app_thread L in_time a init_tcp_stack))"

section \<open>The loops of the applications\<close>

text \<open>
  The loop of \<^verbatim>\<open>tcp_server\<close> for the results of its reads so far: the contents of the output file and
  whether the loop has ended. \<^verbatim>\<open>fopen\<close> gives \<open>False\<close> when the file cannot be opened.
\<close>

fun server_loop :: "(int \<times> bytes) list \<Rightarrow> bytes \<Rightarrow> (bytes \<times> bool) res" where
  "server_loop [] f = Inr (f, False)"
| "server_loop ((rlen, d) # rs) f =
     res_bind (server_store rlen d f) (\<lambda>r. case r of None \<Rightarrow> Inr (f, True) | Some f' \<Rightarrow> server_loop rs f')"

definition server_output :: "bool \<Rightarrow> (int \<times> bytes) list \<Rightarrow> (bytes \<times> bool) res" where
  "server_output fopen rs = (if \<not> fopen then Inl Exited else server_loop rs [])"

text \<open>The loop of \<^verbatim>\<open>tcp_client\<close>; whether its file could be opened is not tested.\<close>

definition client_input :: "bytes option \<Rightarrow> bytes list res" where
  "client_input fopen = (case fopen of None \<Rightarrow> Inl Null_Deref | Some f \<Rightarrow> Inr (client_writes f))"

section \<open>Flags as text\<close>

definition copy_flag_str :: "u8 \<Rightarrow> u8 \<Rightarrow> string \<Rightarrow> nat \<times> string \<Rightarrow> (nat \<times> string) res" where
  "copy_flag_str flags flag str = (\<lambda>(len, buf).
     if flags AND flag \<noteq> 0
     then if len + length str + 1 \<le> length buf then Inr (len + 4, put len (str @ [CHR 0x00]) buf) else Inl Out_Of_Bounds
     else Inr (len, buf))"

definition tcp_copy_flags_to_str :: "u8 \<Rightarrow> string res" where
  "tcp_copy_flags_to_str flags =
     res_bind (copy_flag_str flags TCP_FIN ''FIN|'' (0, replicate 32 (CHR 0x00))) (\<lambda>st.
     res_bind (copy_flag_str flags TCP_SYN ''SYN|'' st) (\<lambda>st.
     res_bind (copy_flag_str flags TCP_RST ''RST|'' st) (\<lambda>st.
     res_bind (copy_flag_str flags TCP_PSH ''PSH|'' st) (\<lambda>st.
     res_bind (copy_flag_str flags TCP_ACK ''ACK|'' st) (\<lambda>st.
     res_bind (copy_flag_str flags TCP_URG ''URG|'' st) (\<lambda>(len, buf).
       Inr (if len \<noteq> 0 then buf[len - 1 := CHR 0x00] else buf)))))))"

section \<open>Starting the programs\<close>

lemma port_arg_dec: "n < 2 ^ 31 \<Longrightarrow> port_arg (dec n) = Inr (htons (of_nat n))"
  by (simp add: port_arg_def atoi_dec)

lemma tcp_main_server:
  assumes "uid = 0 \<or> euid = 0" "n < 2 ^ 31" "(of_nat n :: u16) \<noteq> 0"
  shows "\<exists>s. tcp_main L uid euid [prog, ''server'', dec n] True = Inr s \<and> listening (of_nat n) s"
  using server_start [OF assms(3)] assms(1,2)
  by (auto simp: tcp_main_def run_application_def port_arg_dec app_thread_def)

lemma tcp_main_client:
  assumes "uid = 0 \<or> euid = 0" "n < 2 ^ 31" "libnet L" "l_route L dip = Some sip"
  shows "\<exists>s. tcp_main L uid euid [prog, ''client'', dotted dip, dec n] True = Inr s \<and> connecting sip dip (of_nat n) s"
  using client_start [OF assms(3,4), of "of_nat n"] assms(1,2)
  by (auto simp: tcp_main_def run_application_def port_arg_dec app_thread_def inet_addr_dotted)

text \<open>
  Property C11: the programs do what their command lines say. Started with \<^verbatim>\<open>server p\<close>, the program has
  one socket, which listens on port \<^verbatim>\<open>p\<close>; started with \<^verbatim>\<open>client a.b.c.d p\<close>, it has one socket, which waits for
  the answer to the \<^verbatim>\<open>SYN\<close> it has sent to port \<^verbatim>\<open>p\<close> of that address. Both hold if the thread reads its
  argument before \<^verbatim>\<open>run_application\<close> returns; if it does not, it reads a variable that is gone.
\<close>

theorem command_line_obeyed:
  assumes "uid = 0 \<or> euid = 0" "port \<noteq> 0" "libnet L" "l_route L dip = Some sip"
  shows "(\<exists>s. tcp_main L uid euid [prog, ''server'', dec (unat port)] True = Inr s \<and>
      socks s = [0 \<mapsto> listen_sock port] \<and> sent s = []) \<and>
    (\<exists>s p. tcp_main L uid euid [prog, ''client'', dotted dip, dec (unat port)] True = Inr s \<and>
      socks s = [0 \<mapsto> client_sock sip dip port] \<and> sent s = [Ip_Send p] \<and>
      carries p (seg_cb sip dip 12345 port 0 0 TCP_SYN 65535 [])) \<and>
    tcp_main L uid euid [prog, ''server'', dec (unat port)] False = Inl Use_After_Free \<and>
    tcp_main L uid euid [prog, ''client'', dotted dip, dec (unat port)] False = Inl Use_After_Free"
proof -
  have n: "unat port < 2 ^ 31" by (rule less_trans [OF unat_u16_less]) simp
  have p: "of_nat (unat port) = port" by simp
  have late: "tcp_main L uid euid [prog, ''server'', dec (unat port)] False = Inl Use_After_Free"
    "tcp_main L uid euid [prog, ''client'', dotted dip, dec (unat port)] False = Inl Use_After_Free"
    using assms(1) n by (auto simp: tcp_main_def run_application_def port_arg_dec app_thread_def)
  have "listening port s \<Longrightarrow> socks s = [0 \<mapsto> listen_sock port] \<and> sent s = []" for s by (simp add: listening_def)
  moreover have "connecting sip dip port s \<Longrightarrow> socks s = [0 \<mapsto> client_sock sip dip port] \<and>
      (\<exists>p. sent s = [Ip_Send p] \<and> carries p (seg_cb sip dip 12345 port 0 0 TCP_SYN 65535 []))" for s
    by (auto simp: connecting_def)
  ultimately show ?thesis
    using tcp_main_server [OF assms(1) n, unfolded p, OF assms(2), of L prog]
      tcp_main_client [OF assms(1) n assms(3,4), unfolded p, of prog] late by blast
qed

theorem command_line_obeyed_witness:
  "\<exists>s. tcp_main lab_env 0 0 [''tcp_stack'', ''server'', ''10001''] True = Inr s \<and> socks s = [0 \<mapsto> listen_sock 10001]"
proof -
  have d: "dec (unat (10001 :: u16)) = ''10001''"
    by (simp add: dec.simps) code_simp
  show ?thesis
    using command_line_obeyed [of 0 0 10001 lab_env "0x0a000002" "0x0a000001" "''tcp_stack''"] d ln.libnet_axioms
    by (auto simp: router_env_def)
qed

text \<open>
  The port is not checked: a number above 65535 stands for the port it has modulo 65536, and what
  is not a number for port 0. A command line with the wrong number of words, or another first
  word, ends the program, and so does a user who is not root.
\<close>

theorem port_wraps: "n + 65536 < 2 ^ 31 \<Longrightarrow> port_arg (dec (n + 65536)) = port_arg (dec n)"
  by (simp add: port_arg_dec)

theorem bad_command_line_exits:
  assumes "args \<noteq> []" "args ! 0 = ''server'' \<longrightarrow> length args \<noteq> 2" "args ! 0 = ''client'' \<longrightarrow> length args \<noteq> 3"
  shows "tcp_main L uid euid (prog # args) t = Inl Exited"
  using assms by (cases args) (auto simp: tcp_main_def run_application_def)

section \<open>The file arrives\<close>

text \<open>
  The output file holds what was read, in order, until a read gives nothing more. A read of 1000
  bytes overruns the array before the file is complete.
\<close>

lemma server_loop_reads:
  assumes "\<forall>d\<in>set ds. d \<noteq> [] \<and> length d < 1000"
  shows "server_loop (map (\<lambda>d. (int (length d), d)) ds @ rs) f = server_loop rs (f @ concat ds)"
  using assms by (induction ds arbitrary: f) (auto simp: server_store_def)

theorem file_copied:
  assumes "\<forall>d\<in>set ds. d \<noteq> [] \<and> length d < 1000" "rlen \<le> 0" "client_input (Some f) = Inr bs" "concat ds = concat bs"
  shows "server_output True (map (\<lambda>d. (int (length d), d)) ds @ [(rlen, x)]) = Inr (f, True)"
proof -
  have "concat bs = f" using assms(3) client_writes_file by (auto simp: client_input_def)
  then show ?thesis
    using assms(2,4) by (simp add: server_output_def server_loop_reads [OF assms(1)] server_store_def)
qed

section \<open>Flags\<close>

definition flag_text :: "u8 \<Rightarrow> string" where
  "flag_text flags =
     concat (map (\<lambda>(flag, str). if flags AND flag \<noteq> 0 then str else [])
       [(TCP_FIN, ''FIN|''), (TCP_SYN, ''SYN|''), (TCP_RST, ''RST|''), (TCP_PSH, ''PSH|''), (TCP_ACK, ''ACK|''),
        (TCP_URG, ''URG|'')])"

definition zeros_from :: "string \<Rightarrow> nat \<times> string" where
  "zeros_from t = (length t, t @ replicate (32 - length t) (CHR 0x00))"

lemma copy_flag_step:
  assumes "length str = 4" "length t + 5 \<le> 32"
  shows "copy_flag_str flags flag str (zeros_from t) = Inr (zeros_from (t @ (if flags AND flag \<noteq> 0 then str else [])))"
proof -
  have "drop 5 (replicate (32 - length t) (CHR 0x00)) = replicate (27 - length t) (CHR 0x00)"
    using assms(2) by simp
  moreover have "CHR 0x00 # replicate (27 - length t) (CHR 0x00) = replicate (28 - length t) (CHR 0x00)"
    using assms(2) by (simp flip: replicate_Suc add: Suc_diff_le)
  ultimately show ?thesis
    using assms by (simp add: copy_flag_str_def zeros_from_def put_def)
qed

lemma zeros_text:
  assumes "length t \<le> 24" "CHR 0x00 \<notin> set t"
  shows "let (len, buf) = zeros_from t; buf = (if len \<noteq> 0 then buf[len - 1 := CHR 0x00] else buf)
    in length buf = 32 \<and> takeWhile (\<lambda>c. c \<noteq> CHR 0x00) buf = butlast t"
proof (cases t rule: rev_cases)
  case Nil
  then show ?thesis by (simp add: zeros_from_def)
next
  case (snoc u c)
  have "(t @ zs)[length t - 1 := x] = u @ x # zs" for x zs by (simp add: snoc list_update_append)
  moreover have "takeWhile (\<lambda>c. c \<noteq> CHR 0x00) (u @ CHR 0x00 # zs) = u" for zs
    using assms(2) snoc by (auto simp: takeWhile_append)
  ultimately show ?thesis using assms(1) snoc by (simp add: zeros_from_def)
qed

text \<open>
  The text for the flags of a segment stays within the 32 bytes of the caller's buffer, and is
  the names of the flags with bars between them.
\<close>

theorem flags_text_in_bounds:
  "\<exists>buf. tcp_copy_flags_to_str flags = Inr buf \<and> length buf = 32 \<and> takeWhile (\<lambda>c. c \<noteq> CHR 0x00) buf = butlast (flag_text flags)"
proof -
  define c where "c = (\<lambda>flag str. if flags AND flag \<noteq> 0 then str else [] :: string)"
  have len: "length (c flag str) \<le> 4" if "length str = 4" for flag str using that by (simp add: c_def)
  have t: "flag_text flags = c TCP_FIN ''FIN|'' @ c TCP_SYN ''SYN|'' @ c TCP_RST ''RST|'' @ c TCP_PSH ''PSH|'' @
      c TCP_ACK ''ACK|'' @ c TCP_URG ''URG|''" by (simp add: flag_text_def c_def)
  note l = len [of "''FIN|''" TCP_FIN] len [of "''SYN|''" TCP_SYN] len [of "''RST|''" TCP_RST] len [of "''PSH|''" TCP_PSH]
    len [of "''ACK|''" TCP_ACK] len [of "''URG|''" TCP_URG]
  have step: "copy_flag_str flags flag str (zeros_from t) = Inr (zeros_from (t @ c flag str))"
    if "length str = 4" "length t + 5 \<le> 32" for flag str t
    using copy_flag_step [OF that] by (simp add: c_def)
  have "tcp_copy_flags_to_str flags = Inr (case zeros_from (flag_text flags) of (len, buf) \<Rightarrow> if len \<noteq> 0 then buf[len - 1 := CHR 0x00] else buf)"
    using l unfolding tcp_copy_flags_to_str_def t
    by (simp add: step zeros_from_def [of "[]", simplified, symmetric] split_beta)
  moreover have "length (flag_text flags) \<le> 24" using l by (simp add: t)
  moreover have "CHR 0x00 \<notin> set (flag_text flags)" by (auto simp: flag_text_def)
  ultimately show ?thesis using zeros_text by fastforce
qed

section \<open>The threads of the stack\<close>

text \<open>
  \<^verbatim>\<open>tcp_timer_thread\<close> up to its \<open>n\<close>-th scan, run without a step of another thread in between. The list
  head is initialised by the thread itself, after \<^verbatim>\<open>init_tcp_stack\<close> has created it and returned.
\<close>

definition tcp_timer_thread :: "tcp_env \<Rightarrow> nat \<Rightarrow> tcp_stack \<Rightarrow> tcp_stack res" where
  "tcp_timer_thread L n =
     steps (upd_lh (\<lambda>h. Inr (init_list_head h Timer_List)) # replicate n (tcp_scan_timer_list L))"

text \<open>
  \<^verbatim>\<open>tcp_cwnd_thread\<close> over the stack as it finds it at each test of the loop and at each of the
  reports: what it prints, the time in microseconds first. It keeps a pointer to the socket without
  a reference count.
\<close>

fun tcp_cwnd_thread :: "nat \<Rightarrow> nat \<Rightarrow> (tcp_stack \<times> tcp_stack) list \<Rightarrow> (nat \<times> rat \<times> u32 \<times> u16 \<times> tcp_cc_state) list res" where
  "tcp_cwnd_thread a time_us [] = Inr []"
| "tcp_cwnd_thread a time_us ((s, s') # later) =
     with_sk a (\<lambda>k _. if state k \<noteq> TCP_ESTABLISHED then Inr []
       else with_sk a (\<lambda>k' _. res_map (\<lambda>out. (time_us + 10, cwnd k', ssthresh k', adv_wnd k', cc_state k') # out)
              (tcp_cwnd_thread a (time_us + 10) later)) s') s"

lemma empty_timer_list_scanned:
  assumes "nxt (lh s) Timer_List = Some Timer_List"
  shows "tcp_scan_timer_list L s = Inr s"
  using assms by (simp add: tcp_scan_timer_list_def scan_loop.simps)

text \<open>
  A timer that is started before the timer thread has run for the first time is lost: the
  thread empties the list and no later scan reaches the timer. As the timer stays marked as
  enabled, starting it again has no effect either.
\<close>

theorem late_timer_thread_forgets:
  assumes "socks s a = Some k" "enable (persist_timer k)"
  shows "\<exists>s'. tcp_timer_thread L n s = Inr s' \<and> socks s' = socks s \<and> sent s' = sent s \<and>
    nxt (lh s') Timer_List = Some Timer_List \<and> tcp_set_persist_timer a s' = Inr s'"
proof -
  define s' where "s' = s\<lparr>lh := init_list_head (lh s) Timer_List\<rparr>"
  have empty: "nxt (lh s') Timer_List = Some Timer_List" by (simp add: s'_def init_list_head_def)
  have "steps (replicate n (tcp_scan_timer_list L)) s' = Inr s'"
    by (induction n) (simp_all add: empty_timer_list_scanned [OF empty])
  then have "tcp_timer_thread L n s = Inr s'"
    by (simp add: tcp_timer_thread_def upd_lh_def s'_def)
  then show ?thesis
    using assms empty by (simp add: s'_def tcp_set_persist_timer_def with_sk_def)
qed

text \<open>
  The recording thread touches a freed socket when the connection goes from established to freed
  between two of its looks at it; had the state change been visible once, it would have stopped.
\<close>

theorem cwnd_thread_outlives_socket:
  assumes "socks s a = Some k" "state k = TCP_ESTABLISHED" "socks s' a = None"
  shows "tcp_cwnd_thread a t ((s, s') # later) = Inl Use_After_Free"
    "tcp_cwnd_thread a t ((s, s) # (s', s'') # later) = Inl Use_After_Free"
    "socks s'' a = Some k' \<Longrightarrow> state k' \<noteq> TCP_ESTABLISHED \<Longrightarrow>
      tcp_cwnd_thread a t ((s, s) # (s'', s') # later) = Inr [(t + 10, cwnd k, ssthresh k, adv_wnd k, cc_state k)]"
  using assms by (simp_all add: with_sk_def)

end
