(* ===== verification/Https_Server.thy ===== *)
theory Https_Server
  imports C_Text "HOL-Library.Sublist"
begin

text \<open>
  The web server of \<^verbatim>\<open>code-exp1/https-server.c\<close>: the two request handlers, with what they use of the C
  library (\<^verbatim>\<open>sscanf\<close>, \<^verbatim>\<open>snprintf\<close>, \<^verbatim>\<open>strstr\<close>, \<^verbatim>\<open>fseek\<close> and \<^verbatim>\<open>fread\<close>). A handler gets the bytes that were read from the
  connection (none when the read fails) and gives the calls it makes on the connection, in order;
  the results of writes are not used by the code. The file system is a function from path names to
  the contents of regular files; opening a directory is left out. The accept loops around the handlers only call the operating system and OpenSSL.
\<close>

section \<open>The C library\<close>

abbreviation NUL :: char where "NUL \<equiv> CHR 0x00"

abbreviation crlf :: string where "crlf \<equiv> [CHR 0x0D, CHR 0x0A]"

text \<open>A buffer of \<open>n\<close> bytes that was zero and into which \<open>d\<close> was read, as a string: it must have a terminator.\<close>

definition c_string :: "nat \<Rightarrow> string \<Rightarrow> string res" where
  "c_string n d = (if length d < n \<or> NUL \<in> set d then Inr (takeWhile (\<lambda>c. c \<noteq> NUL) d) else Inl Out_Of_Bounds)"

text \<open>The conversions \<^verbatim>\<open>%s\<close> (without a limit) and \<^verbatim>\<open>%255s\<close>: the word and the rest of the input.\<close>

definition scan_word :: "nat option \<Rightarrow> string \<Rightarrow> (string \<times> string) option" where
  "scan_word lim s =
     (let t = dropWhile is_space s;
          w = takeWhile (\<lambda>c. \<not> is_space c) t;
          w = (case lim of None \<Rightarrow> w | Some n \<Rightarrow> take n w)
      in if w = [] then None else Some (w, drop (length w) t))"

fun strstr :: "string \<Rightarrow> string \<Rightarrow> string option" where
  "strstr [] needle = (if needle = [] then Some [] else None)"
| "strstr (c # cs) needle = (if prefix needle (c # cs) then Some (c # cs) else strstr cs needle)"

definition snprintf :: "nat \<Rightarrow> string \<Rightarrow> string" where
  "snprintf n s = take (n - 1) s"

definition show_long :: "int \<Rightarrow> string" where
  "show_long z = (if z < 0 then CHR ''-'' # dec (nat (- z)) else dec (nat z))"

section \<open>The handlers\<close>

datatype conn_event = Sent string | Ssl_Free | Closed

text \<open>
  \<^verbatim>\<open>sscanf(buf, "%s %255s %s", method, path, protocol)\<close> into arrays of 10, 256 and 20 bytes. The result is the
  path, if one was converted.
\<close>

definition scan_request :: "string \<Rightarrow> string option res" where
  "scan_request buf =
     (case scan_word None buf of None \<Rightarrow> Inr None
      | Some (method, r) \<Rightarrow>
         if 10 \<le> length method then Inl Out_Of_Bounds
         else case scan_word (Some 255) r of None \<Rightarrow> Inr None
         | Some (path, r) \<Rightarrow>
            (case scan_word None r of None \<Rightarrow> Inr (Some path)
             | Some (protocol, r) \<Rightarrow> if 20 \<le> length protocol then Inl Out_Of_Bounds else Inr (Some path)))"

definition handle_http_request :: "string \<Rightarrow> conn_event list res" where
  "handle_http_request req =
     res_bind (c_string 1024 req) (\<lambda>buffer.
     res_bind (scan_request buffer) (\<lambda>path.
       case path of None \<Rightarrow> Inl Uninitialised
       | Some path \<Rightarrow>
          Inr [Sent (snprintf 1024 (''HTTP/1.1 301 Moved Permanently'' @ crlf @
                 ''Location: https://10.0.0.1'' @ path @ crlf @ ''Content-Length: 0'' @ crlf @ crlf)), Closed]))"

definition not_found_response :: string where
  "not_found_response = ''HTTP/1.1 404 Not Found'' @ crlf @ ''Content-Type: text/html'' @ crlf @
     ''Content-Length: 13'' @ crlf @ ''Connection: close'' @ crlf @ crlf @ ''404 Not Found''"

definition partial_header :: "int \<Rightarrow> int \<Rightarrow> int \<Rightarrow> int \<Rightarrow> string" where
  "partial_header start stop file_size content_length =
     ''HTTP/1.1 206 Partial Content'' @ crlf @
     ''Content-Range: bytes '' @ show_long start @ ''-'' @ show_long stop @ ''/'' @ show_long file_size @ crlf @
     ''Content-Length: '' @ show_long content_length @ crlf @
     ''Content-Type: text/html'' @ crlf @ ''Connection: close'' @ crlf @ crlf"

definition ok_header :: "int \<Rightarrow> string" where
  "ok_header file_size = ''HTTP/1.1 200 OK'' @ crlf @ ''Content-Length: '' @ show_long file_size @ crlf @
     ''Content-Type: text/html'' @ crlf @ ''Connection: close'' @ crlf @ crlf"

text \<open>\<^verbatim>\<open>sscanf(range_header, "Range: bytes=%ld-%ld", &start, &end)\<close>, where the header starts with these 13 characters.\<close>

definition scan_range :: "string \<Rightarrow> int \<Rightarrow> (int \<times> int) res" where
  "scan_range range_header file_size =
     (case scan_long (drop 13 range_header) of None \<Rightarrow> Inr (0, file_size - 1)
      | Some (start, r) \<Rightarrow>
         if \<not> in_long start then Inl Int_Overflow
         else if r \<noteq> [] \<and> hd r = CHR ''-''
           then (case scan_long (tl r) of None \<Rightarrow> Inr (start, file_size - 1)
                 | Some (stop, r) \<Rightarrow> if in_long stop then Inr (start, stop) else Inl Int_Overflow)
         else Inr (start, file_size - 1))"

text \<open>The loop over \<^verbatim>\<open>fread\<close> and \<^verbatim>\<open>SSL_write\<close>; \<open>rest\<close> is what the file holds from its position on.\<close>

function send_range :: "nat \<Rightarrow> string \<Rightarrow> string list" where
  "send_range remaining rest =
     (let bytes_read = min (if remaining > 1024 then 1024 else remaining) (length rest)
      in if remaining > 0 \<and> bytes_read > 0
         then take bytes_read rest # send_range (remaining - bytes_read) (drop bytes_read rest) else [])"
  by pat_completeness auto

termination
  by (relation "measure (\<lambda>(n, rest). length rest)") (auto simp: Let_def)

function send_all :: "string \<Rightarrow> string list" where
  "send_all rest =
     (let bytes_read = min 1024 (length rest)
      in if bytes_read > 0 then take bytes_read rest # send_all (drop bytes_read rest) else [])"
  by pat_completeness auto

termination
  by (relation "measure length") (auto simp: Let_def)

declare send_range.simps [simp del] send_all.simps [simp del]

text \<open>
  The file is at position 0 when \<^verbatim>\<open>fseek\<close> is called for the start of the range; a negative position is
  refused and leaves it there. \<^verbatim>\<open>remaining\<close> is a \<^verbatim>\<open>size_t\<close>.
\<close>

definition serve_range :: "string \<Rightarrow> string \<Rightarrow> conn_event list res" where
  "serve_range range_header file =
     (let file_size = int (length file)
      in res_bind (scan_range range_header file_size) (\<lambda>(start, stop).
        let stop = (if stop \<ge> file_size \<or> stop < start then file_size - 1 else stop);
            pos = (if start < 0 then 0 else nat start);
            content_length = stop - start + 1
        in if \<not> in_long (stop - start) \<or> \<not> in_long content_length then Inl Int_Overflow
           else Inr (Sent (snprintf 256 (partial_header start stop file_size content_length)) #
                  map Sent (send_range (nat (content_length mod 2 ^ 64)) (drop pos file)))))"

definition serve_file :: "string \<Rightarrow> string \<Rightarrow> conn_event list res" where
  "serve_file buf file =
     (case strstr buf ''Range: bytes='' of
        Some range_header \<Rightarrow> serve_range range_header file
      | None \<Rightarrow> Inr (Sent (snprintf 1024 (ok_header (int (length file)))) # map Sent (send_all file)))"

definition handle_https_request :: "int \<Rightarrow> string \<Rightarrow> (string \<Rightarrow> string option) \<Rightarrow> conn_event list res" where
  "handle_https_request accepted req fs =
     (if accepted = - 1 then Inr [Ssl_Free, Closed]
      else if req = [] then Inr [Ssl_Free]
      else res_bind (c_string 1024 req) (\<lambda>buf.
        res_bind (scan_request buf) (\<lambda>path.
          case path of None \<Rightarrow> Inl Uninitialised
          | Some path \<Rightarrow>
             res_map (\<lambda>evs. evs @ [Ssl_Free, Closed])
               (case fs (snprintf 256 (''./'' @ take 250 path)) of
                  None \<Rightarrow> Inr [Sent not_found_response]
                | Some file \<Rightarrow> serve_file buf file))))"

section \<open>Words and numbers\<close>

definition word_ok :: "string \<Rightarrow> bool" where
  "word_ok w \<longleftrightarrow> w \<noteq> [] \<and> (\<forall>c\<in>set w. \<not> is_space c \<and> c \<noteq> NUL)"

definition ends_word :: "string \<Rightarrow> bool" where
  "ends_word r \<longleftrightarrow> r = [] \<or> is_space (hd r)"

lemma word_prefix: "word_ok w \<Longrightarrow> ends_word r \<Longrightarrow> takeWhile (\<lambda>c. \<not> is_space c) (w @ r) = w"
  by (cases r) (auto simp: word_ok_def ends_word_def takeWhile_append)

lemma word_start: "word_ok w \<Longrightarrow> dropWhile is_space (w @ r) = w @ r"
  by (cases w) (auto simp: word_ok_def)

lemma scan_word_ok:
  assumes "word_ok w" "ends_word r" "case lim of None \<Rightarrow> True | Some n \<Rightarrow> length w \<le> n" "\<forall>c\<in>set sp. is_space c"
  shows "scan_word lim (sp @ w @ r) = Some (w, r)"
proof -
  have "dropWhile is_space (sp @ w @ r) = w @ r" using assms(4) word_start [OF assms(1)] by (induction sp) auto
  moreover have "w \<noteq> []" using assms(1) by (simp add: word_ok_def)
  ultimately show ?thesis using assms(3) unfolding scan_word_def Let_def
    by (cases lim) (simp_all only: word_prefix [OF assms(1,2)] option.case take_all if_False append_eq_conv_conj simp_thms, simp_all)
qed

text \<open>The start of a request: method, path and protocol.\<close>

definition request_line :: "string \<Rightarrow> string \<Rightarrow> string \<Rightarrow> string \<Rightarrow> bool" where
  "request_line req m p rest \<longleftrightarrow> (\<exists>v. req = m @ '' '' @ p @ '' '' @ v @ rest \<and> word_ok m \<and> word_ok p \<and> word_ok v \<and> ends_word rest \<and>
     length p \<le> 255 \<and> length v < 20)"

lemma scan_request_line:
  assumes "request_line req m p rest"
  shows "scan_request req = (if length m < 10 then Inr (Some p) else Inl Out_Of_Bounds)"
proof -
  obtain v where v: "req = m @ '' '' @ p @ '' '' @ v @ rest" "word_ok m" "word_ok p" "word_ok v" "ends_word rest"
    "length p \<le> 255" "length v < 20" using assms by (auto simp: request_line_def)
  have "scan_word None ([] @ m @ '' '' @ p @ '' '' @ v @ rest) = Some (m, '' '' @ p @ '' '' @ v @ rest)"
    using v by (intro scan_word_ok) (auto simp: ends_word_def)
  moreover have "scan_word (Some 255) ('' '' @ p @ '' '' @ v @ rest) = Some (p, '' '' @ v @ rest)"
    using v by (intro scan_word_ok) (auto simp: ends_word_def)
  moreover have "scan_word None ('' '' @ v @ rest) = Some (v, rest)"
    using v by (intro scan_word_ok) (auto simp: ends_word_def)
  ultimately show ?thesis using v(1,7) by (simp add: scan_request_def)
qed

lemma c_string_request: "length req < n \<Longrightarrow> NUL \<notin> set req \<Longrightarrow> c_string n req = Inr req"
  by (auto simp: c_string_def takeWhile_eq_all_conv)

section \<open>Sending\<close>

lemma send_range_concat: "concat (send_range n rest) = take n rest"
proof (induction n rest rule: send_range.induct)
  case (1 n rest)
  define m where "m = min (if n > 1024 then 1024 else n) (length rest)"
  show ?case
  proof (cases "n > 0 \<and> m > 0")
    case True
    then have "concat (send_range n rest) = take m rest @ take (n - m) (drop m rest)"
      using 1 [OF m_def] by (subst send_range.simps) (simp add: m_def [symmetric] Let_def)
    also have "\<dots> = take n rest"
    proof -
      have "m \<le> n" by (auto simp: m_def)
      then show ?thesis by (metis le_add_diff_inverse take_add)
    qed
    finally show ?thesis .
  next
    case False
    then have "send_range n rest = []" by (subst send_range.simps) (auto simp: m_def Let_def)
    moreover have "n = 0 \<or> rest = []" using False by (auto simp: m_def split: if_splits)
    ultimately show ?thesis by auto
  qed
qed

lemma send_all_concat: "concat (send_all rest) = rest"
proof (induction rest rule: send_all.induct)
  case (1 rest)
  define m where "m = min 1024 (length rest)"
  show ?case
  proof (cases "m > 0")
    case True
    then show ?thesis using 1 [OF m_def] by (subst send_all.simps) (simp add: m_def [symmetric] Let_def)
  next
    case False
    then have "send_all rest = []" by (subst send_all.simps) (auto simp: m_def Let_def)
    then show ?thesis using False by (auto simp: m_def)
  qed
qed

lemma length_show_long: "0 \<le> z \<Longrightarrow> z < 2 ^ 63 \<Longrightarrow> length (show_long z) \<le> 19"
  using length_dec [of 19 "nat z"] by (simp add: show_long_def nat_less_iff)

lemma partial_header_fits:
  assumes "0 \<le> a" "a < 2 ^ 63" "0 \<le> b" "b < 2 ^ 63" "0 \<le> c" "c < 2 ^ 63" "0 \<le> d" "d < 2 ^ 63"
  shows "snprintf 256 (partial_header a b c d) = partial_header a b c d"
proof -
  have "length (partial_header a b c d) \<le> 255"
    using length_show_long [OF assms(1,2)] length_show_long [OF assms(3,4)] length_show_long [OF assms(5,6)]
      length_show_long [OF assms(7,8)] by (simp add: partial_header_def)
  then show ?thesis by (simp add: snprintf_def)
qed

lemma ok_header_fits: "n < 2 ^ 63 \<Longrightarrow> snprintf 1024 (ok_header (int n)) = ok_header (int n)"
  using length_show_long [of "int n"] by (simp add: ok_header_def snprintf_def)

lemma scan_range_closed:
  assumes "a < 2 ^ 63" "b < 2 ^ 63" "ends_word r"
  shows "scan_range (''Range: bytes='' @ dec a @ ''-'' @ dec b @ r) n = Inr (int a, int b)"
proof -
  have nd: "r = [] \<or> \<not> is_digit (hd r)" using assms(3) digit_not_space(1) by (auto simp: ends_word_def)
  have "scan_long (dec a @ (''-'' @ dec b @ r)) = Some (int a, ''-'' @ dec b @ r)"
    by (rule scan_long_dec) (simp add: is_digit_def)
  moreover have "scan_long (dec b @ r) = Some (int b, r)" using nd by (rule scan_long_dec)
  moreover have "in_long (int a)" "in_long (int b)" using assms(1,2) by (simp_all add: in_long_def)
  moreover have "drop 13 (''Range: bytes='' @ t) = t" for t :: string by simp
  ultimately show ?thesis unfolding scan_range_def by simp
qed

lemma serve_range_in_file:
  assumes "scan_range h (int (length file)) = Inr (int a, int b)" "a \<le> b" "a < length file" "length file < 2 ^ 63"
  defines "e \<equiv> min b (length file - 1)"
  shows "\<exists>chunks. serve_range h file = Inr (Sent (partial_header (int a) (int e) (int (length file)) (int (e - a + 1))) # map Sent chunks) \<and>
    concat chunks = sub a (e - a + 1) file"
proof -
  have e: "a \<le> e" "e < length file" using assms(2,3) by (auto simp: e_def)
  have stop: "(if int b \<ge> int (length file) \<or> int b < int a then int (length file) - 1 else int b) = int e"
    using assms(2,3) by (auto simp: e_def min_def)
  define c where "c = e - a + 1"
  have len: "int e - int a + 1 = int c" using e by (simp add: c_def)
  have "c \<le> length file" using e by (simp add: c_def)
  then have "int c mod 2 ^ 64 = int c" using assms(4) by (intro mod_pos_pos_trivial) auto
  then have "nat (int c mod 2 ^ 64) = c" by simp
  moreover have "in_long (int e - int a)" "in_long (int c)" using e assms(4) by (auto simp: in_long_def c_def)
  moreover have "snprintf 256 (partial_header (int a) (int e) (int (length file)) (int c)) =
      partial_header (int a) (int e) (int (length file)) (int c)"
    using e assms(4) \<open>c \<le> length file\<close> by (intro partial_header_fits) auto
  ultimately have "serve_range h file = Inr (Sent (partial_header (int a) (int e) (int (length file)) (int c)) #
      map Sent (send_range c (drop a file)))"
    unfolding serve_range_def Let_def assms(1) res_bind_simps prod.case stop len by simp
  then show ?thesis using send_range_concat [of c "drop a file"] unfolding c_def [symmetric] by (auto simp: sub_def)
qed

lemma handle_request_line:
  assumes "request_line req m p rest" "length m < 10" "length req < 1024" "NUL \<notin> set req"
  shows "handle_http_request req = Inr [Sent (''HTTP/1.1 301 Moved Permanently'' @ crlf @ ''Location: https://10.0.0.1'' @ p @ crlf @
      ''Content-Length: 0'' @ crlf @ crlf), Closed]"
    "accepted \<noteq> - 1 \<Longrightarrow> handle_https_request accepted req fs = res_map (\<lambda>evs. evs @ [Ssl_Free, Closed])
      (case fs (''./'' @ take 250 p) of None \<Rightarrow> Inr [Sent not_found_response] | Some file \<Rightarrow> serve_file req file)"
proof -
  note c = c_string_request [OF assms(3,4)]
  have r: "scan_request req = Inr (Some p)" using scan_request_line [OF assms(1)] assms(2) by simp
  have p: "length p \<le> 255" "req \<noteq> []" using assms(1) by (auto simp: request_line_def)
  show "handle_http_request req = Inr [Sent (''HTTP/1.1 301 Moved Permanently'' @ crlf @ ''Location: https://10.0.0.1'' @ p @ crlf @
      ''Content-Length: 0'' @ crlf @ crlf), Closed]"
    using p(1) by (simp add: handle_http_request_def c r snprintf_def)
  have "snprintf 256 (''./'' @ take 250 p) = ''./'' @ take 250 p" by (simp add: snprintf_def)
  then show "accepted \<noteq> - 1 \<Longrightarrow> handle_https_request accepted req fs = res_map (\<lambda>evs. evs @ [Ssl_Free, Closed])
      (case fs (''./'' @ take 250 p) of None \<Rightarrow> Inr [Sent not_found_response] | Some file \<Rightarrow> serve_file req file)"
    using p(2) by (simp add: handle_https_request_def c r)
qed

lemma scan_range_open:
  assumes "a < 2 ^ 63" "scan_long r = None"
  shows "scan_range (''Range: bytes='' @ dec a @ ''-'' @ crlf @ r) n = Inr (int a, n - 1)"
proof -
  have "scan_long (dec a @ ''-'' @ crlf @ r) = Some (int a, ''-'' @ crlf @ r)"
    by (intro scan_long_dec) (simp add: is_digit_def)
  moreover have "scan_long (crlf @ r) = None" using assms(2) by (simp add: scan_long_def)
  ultimately show ?thesis using assms(1) unfolding scan_range_def by (simp add: in_long_def)
qed

section \<open>Properties\<close>

text \<open>The text of a range from \<open>a\<close>, with or without an end, and its last byte in a file of \<open>n\<close> bytes.\<close>

definition range_text :: "nat \<Rightarrow> nat option \<Rightarrow> string" where
  "range_text a b = ''Range: bytes='' @ dec a @ ''-'' @ (case b of None \<Rightarrow> [] | Some b \<Rightarrow> dec b)"

definition range_last :: "nat option \<Rightarrow> nat \<Rightarrow> nat" where
  "range_last b n = (case b of None \<Rightarrow> n - 1 | Some b \<Rightarrow> min b (n - 1))"

text \<open>
  Property C34: Ranges are served. A request line for an existing file with a header \<^verbatim>\<open>Range: bytes=a-b\<close> or
  \<^verbatim>\<open>Range: bytes=a-\<close>, where the range starts within the file, is answered with status 206. The range the answer names ends at
  \<open>b\<close> or at the last byte of the file, whichever comes first, or without \<open>b\<close> at the last byte; its length is stated correctly, and the
  bytes that follow are exactly that part of the file; then the connection is closed. \<^verbatim>\<open>sscanf\<close> skips the end of the line before it
  looks for \<open>b\<close>, so that what follows an open range must not begin with a number.
\<close>
theorem https_range_served:
  assumes "request_line req m p rest" "length m < 10" "length req < 1024" "NUL \<notin> set req" "accepted \<noteq> - 1"
    "strstr req ''Range: bytes='' = Some (range_text a b @ crlf @ more)"
    "fs (''./'' @ take 250 p) = Some file" "a < length file" "length file < 2 ^ 63"
    "case b of None \<Rightarrow> scan_long more = None | Some b \<Rightarrow> a \<le> b \<and> b < 2 ^ 63"
  shows "let e = range_last b (length file)
    in \<exists>chunks. handle_https_request accepted req fs =
        Inr (Sent (partial_header (int a) (int e) (int (length file)) (int (e - a + 1))) # map Sent chunks @ [Ssl_Free, Closed]) \<and>
      concat chunks = sub a (e - a + 1) file"
proof -
  let ?h = "range_text a b @ crlf @ more"
  define b' where "b' = (case b of None \<Rightarrow> length file - 1 | Some b \<Rightarrow> b)"
  have e: "range_last b (length file) = min b' (length file - 1)" by (simp add: range_last_def b'_def split: option.split)
  have ab: "a \<le> b'" using assms(8,10) by (auto simp: b'_def split: option.splits)
  have "scan_range ?h (int (length file)) = Inr (int a, int b')"
  proof (cases b)
    case None
    then show ?thesis
      using scan_range_open [of a more "int (length file)"] assms(8,9,10) by (simp add: range_text_def b'_def of_nat_diff)
  next
    case (Some c)
    have "scan_range (''Range: bytes='' @ dec a @ ''-'' @ dec c @ crlf @ more) (int (length file)) = Inr (int a, int c)"
      using assms(8-10) Some by (intro scan_range_closed) (auto simp: ends_word_def)
    then show ?thesis using Some by (simp add: range_text_def b'_def)
  qed
  from serve_range_in_file [OF this ab assms(8,9)] obtain chunks where
    "serve_range ?h file =
       Inr (Sent (partial_header (int a) (int (min b' (length file - 1))) (int (length file)) (int (min b' (length file - 1) - a + 1))) #
         map Sent chunks)"
    "concat chunks = sub a (min b' (length file - 1) - a + 1) file" by blast
  then show ?thesis
    using handle_request_line(2) [OF assms(1-5), of fs] assms(6,7) by (auto simp: serve_file_def e Let_def)
qed

definition example_request :: "string \<Rightarrow> string" where
  "example_request r = ''GET /index.html HTTP/1.1'' @ crlf @ ''Range: bytes='' @ r @ crlf @ crlf"

lemma example_request_line: "request_line (example_request r) ''GET'' ''/index.html'' (crlf @ ''Range: bytes='' @ r @ crlf @ crlf)"
  unfolding request_line_def
  by (rule exI [of _ "''HTTP/1.1''"]) (simp add: example_request_def word_ok_def ends_word_def is_space_def)

lemma dec_example: "dec 0 = ''0''" "dec 1 = ''1''" "dec 2 = ''2''"
  by code_simp+

lemma scan_long_end: "scan_long crlf = None"
  by (simp add: scan_long_def)

theorem https_range_served_witness:
  "(\<exists>chunks. handle_https_request 1 (example_request ''1-2'') [''./'' @ take 250 ''/index.html'' \<mapsto> ''hello''] =
      Inr (Sent (partial_header 1 2 5 2) # map Sent chunks @ [Ssl_Free, Closed]) \<and> concat chunks = ''el'') \<and>
   (\<exists>chunks. handle_https_request 1 (example_request ''0-'') [''./'' @ take 250 ''/index.html'' \<mapsto> ''hello''] =
      Inr (Sent (partial_header 0 4 5 5) # map Sent chunks @ [Ssl_Free, Closed]) \<and> concat chunks = ''hello'')"
  using https_range_served [OF example_request_line [of "''1-2''"], of 1 1 "Some 2" crlf "[''./'' @ take 250 ''/index.html'' \<mapsto> ''hello'']" "''hello''"]
    https_range_served [OF example_request_line [of "''0-''"], of 1 0 None crlf "[''./'' @ take 250 ''/index.html'' \<mapsto> ''hello'']" "''hello''"]
  by (simp add: example_request_def range_text_def range_last_def dec_example [unfolded One_nat_def] scan_long_end sub_def)

text \<open>
  Property C35: Files and redirections. On the secure port a request without a range gets the whole file with status 200 and its
  length, or the answer 404 when there is no such file; on the other port every request is redirected
  to the secure one with its path unchanged. A method of 10 characters or more overruns the array it
  is read into, on both ports.
\<close>
theorem http_requests_answered:
  assumes "request_line req m p rest" "length req < 1024" "NUL \<notin> set req" "accepted \<noteq> - 1" "strstr req ''Range: bytes='' = None"
    "\<forall>file. fs (''./'' @ take 250 p) = Some file \<longrightarrow> length file < 2 ^ 63"
  shows "(if length m < 10 then
      handle_http_request req = Inr [Sent (''HTTP/1.1 301 Moved Permanently'' @ crlf @ ''Location: https://10.0.0.1'' @ p @ crlf @
        ''Content-Length: 0'' @ crlf @ crlf), Closed] \<and>
      (case fs (''./'' @ take 250 p) of
         None \<Rightarrow> handle_https_request accepted req fs = Inr [Sent not_found_response, Ssl_Free, Closed]
       | Some file \<Rightarrow> \<exists>chunks. handle_https_request accepted req fs =
           Inr (Sent (ok_header (int (length file))) # map Sent chunks @ [Ssl_Free, Closed]) \<and> concat chunks = file)
    else handle_http_request req = Inl Out_Of_Bounds \<and> handle_https_request accepted req fs = Inl Out_Of_Bounds)"
proof (cases "length m < 10")
  case True
  note h = handle_request_line [OF assms(1) True assms(2,3)]
  show ?thesis
  proof (cases "fs (''./'' @ take 250 p)")
    case None
    then show ?thesis using True h(1) h(2) [OF assms(4), of fs] by simp
  next
    case (Some content)
    then have "handle_https_request accepted req fs = Inr (Sent (ok_header (int (length content))) # map Sent (send_all content) @ [Ssl_Free, Closed])"
      using h(2) [OF assms(4), of fs] assms(5,6) ok_header_fits [of "length content"] by (simp add: serve_file_def)
    then show ?thesis using True Some h(1) send_all_concat [of content] by auto
  qed
next
  case False
  then have "scan_request req = Inl Out_Of_Bounds" "req \<noteq> []"
    using scan_request_line [OF assms(1)] assms(1) by (auto simp: request_line_def)
  then show ?thesis
    using False assms(4) c_string_request [OF assms(2,3)] by (simp add: handle_http_request_def handle_https_request_def)
qed

theorem http_requests_answered_witness:
  "handle_http_request (''GET / HTTP/1.0'') = Inr [Sent (''HTTP/1.1 301 Moved Permanently'' @ crlf @
     ''Location: https://10.0.0.1/'' @ crlf @ ''Content-Length: 0'' @ crlf @ crlf), Closed]"
proof -
  have "request_line ''GET / HTTP/1.0'' ''GET'' ''/'' []"
    unfolding request_line_def
    by (rule exI [of _ "''HTTP/1.0''"]) (simp add: word_ok_def ends_word_def is_space_def)
  from http_requests_answered [OF this, of 1 "\<lambda>_. None"] show ?thesis by simp
qed

text \<open>
  Two kinds of ranges are answered wrongly. A range that starts behind the end of the file gets status 206, a length
  that is not positive, and no data. The header \<^verbatim>\<open>Range: bytes=-n\<close>, which asks for the last \<open>n\<close> bytes, is read as a
  range that starts at \<open>-n\<close>: the answer announces \<open>n\<close> bytes more than the file has and the whole
  file follows.
\<close>
theorem odd_ranges_misread:
  assumes "length file < 2 ^ 62" "length file \<le> a" "a < 2 ^ 62" "b < 2 ^ 62" "0 < n" "n < 2 ^ 62"
  shows "serve_range (''Range: bytes='' @ dec a @ ''-'' @ dec b @ crlf @ more) file =
      Inr [Sent (snprintf 256 (partial_header (int a) (int (length file) - 1) (int (length file)) (int (length file) - int a)))] \<and>
    (\<exists>chunks. serve_range (''Range: bytes='' @ ''-'' @ dec n @ crlf @ more) file =
       Inr (Sent (snprintf 256 (partial_header (- int n) (int (length file) - 1) (int (length file)) (int (length file) + int n))) # map Sent chunks) \<and>
     concat chunks = file)"
proof -
  let ?N = "int (length file)"
  have a: "scan_range (''Range: bytes='' @ dec a @ ''-'' @ dec b @ crlf @ more) ?N = Inr (int a, int b)"
    using assms(3,4) by (intro scan_range_closed) (auto simp: ends_word_def)
  have stop: "(if int b \<ge> ?N \<or> int b < int a then ?N - 1 else int b) = ?N - 1" using assms(2) by auto
  have "in_long (?N - 1 - int a)" "in_long (?N - 1 - int a + 1)" using assms(1,3) by (auto simp: in_long_def)
  moreover have "send_range k [] = []" for k by (simp add: send_range.simps)
  ultimately have 1: "serve_range (''Range: bytes='' @ dec a @ ''-'' @ dec b @ crlf @ more) file =
      Inr [Sent (snprintf 256 (partial_header (int a) (?N - 1) ?N (?N - int a)))]"
    using assms(2) unfolding serve_range_def Let_def a res_bind_simps prod.case stop by simp
  have "scan_long (''-'' @ dec n @ crlf @ more) = Some (- int n, crlf @ more)"
    using scan_long_neg [of "crlf @ more" n] by (simp add: is_digit_def)
  then have n: "scan_range (''Range: bytes='' @ ''-'' @ dec n @ crlf @ more) ?N = Inr (- int n, ?N - 1)"
    using assms(6) unfolding scan_range_def by (simp add: in_long_def)
  have stop: "(if ?N - 1 \<ge> ?N \<or> ?N - 1 < - int n then ?N - 1 else ?N - 1) = ?N - 1" by simp
  have len: "?N - 1 - - int n + 1 = ?N + int n" by simp
  have "in_long (?N - 1 - - int n)" "in_long (?N + int n)" using assms(1,6) by (auto simp: in_long_def)
  moreover have "(?N + int n) mod 2 ^ 64 = ?N + int n" using assms(1,6) by (intro mod_pos_pos_trivial) auto
  moreover have "nat (?N + int n) = length file + n" by (simp add: nat_add_distrib)
  ultimately have 2: "serve_range (''Range: bytes='' @ ''-'' @ dec n @ crlf @ more) file =
      Inr (Sent (snprintf 256 (partial_header (- int n) (?N - 1) ?N (?N + int n))) # map Sent (send_range (length file + n) file))"
    using assms(5) unfolding serve_range_def Let_def n res_bind_simps prod.case stop len by simp
  show ?thesis using 1 2 send_range_concat [of "length file + n" "file"] by auto
qed

theorem odd_ranges_misread_witness:
  "serve_range (''Range: bytes='' @ dec 9 @ ''-'' @ dec 12 @ crlf @ []) ''hello'' =
      Inr [Sent (snprintf 256 (partial_header (int 9) (int (length ''hello'') - 1) (int (length ''hello'')) (int (length ''hello'') - int 9)))] \<and>
    (\<exists>chunks. serve_range (''Range: bytes='' @ ''-'' @ dec 2 @ crlf @ []) ''hello'' =
       Inr (Sent (snprintf 256 (partial_header (- int 2) (int (length ''hello'') - 1) (int (length ''hello'')) (int (length ''hello'') + int 2))) # map Sent chunks) \<and>
     concat chunks = ''hello'')"
  by (rule odd_ranges_misread) simp_all

end
