(* ===== verification/Https_Loops.thy ===== *)
theory Https_Loops
  imports Https_Server
begin

text \<open>
  The accept loops of the web server, \<^verbatim>\<open>start_http_server\<close>, \<^verbatim>\<open>start_https_server\<close> and \<^verbatim>\<open>main\<close> of
  \<^verbatim>\<open>code-exp1/https-server.c\<close>, and the two programs it was made from, the draft
  \<^verbatim>\<open>https-server-temp.c\<close> and the example \<^verbatim>\<open>https-server-example.c\<close>. A loop runs over the
  results of its \<^verbatim>\<open>accept\<close> calls so far and gives, for each connection it handled, the calls it made on the
  connection.
\<close>

section \<open>The server\<close>

text \<open>For plain HTTP: \<open>None\<close> is a failed \<^verbatim>\<open>accept\<close>, otherwise the bytes that are read.\<close>

fun http_loop :: "string option list \<Rightarrow> conn_event list list res" where
  "http_loop [] = Inr []"
| "http_loop (None # cs) = http_loop cs"
| "http_loop (Some req # cs) =
     res_bind (handle_http_request req) (\<lambda>evs. res_map (Cons evs) (http_loop cs))"

definition start_http_server :: "int \<Rightarrow> string option list \<Rightarrow> conn_event list list res" where
  "start_http_server bind_result cs = (if bind_result < 0 then Inl Exited else http_loop cs)"

text \<open>For HTTPS: the result of \<^verbatim>\<open>SSL_accept\<close>, which is what tells that \<^verbatim>\<open>accept\<close> failed, and the bytes read.\<close>

fun https_loop :: "(string \<Rightarrow> string option) \<Rightarrow> (int \<times> string) list \<Rightarrow> conn_event list list res" where
  "https_loop fs [] = Inr []"
| "https_loop fs ((accepted, req) # cs) =
     res_bind (handle_https_request accepted req fs) (\<lambda>evs. res_map (Cons evs) (https_loop fs cs))"

definition start_https_server ::
    "(string \<Rightarrow> string option) \<Rightarrow> int \<Rightarrow> (int \<times> string) list \<Rightarrow> conn_event list list res" where
  "start_https_server fs bind_result cs = (if bind_result < 0 then Inl Exited else https_loop fs cs)"

text \<open>The two threads share nothing; a fault of one ends the process.\<close>

definition https_main ::
    "(string \<Rightarrow> string option) \<Rightarrow> int \<Rightarrow> int \<Rightarrow> string option list \<Rightarrow> (int \<times> string) list \<Rightarrow>
     (conn_event list list \<times> conn_event list list) res" where
  "https_main fs bind80 bind443 cs ds =
     res_bind (start_http_server bind80 cs) (\<lambda>a. res_map (Pair a) (start_https_server fs bind443 ds))"

section \<open>The draft\<close>

definition temp_response :: string where
  "temp_response = ''HTTP/1.1 301 Moved Permanently'' @ crlf @ ''Location: https://localhost/'' @ crlf @
     ''Content-Length: 0'' @ crlf @ crlf"

text \<open>The zero is stored behind the bytes read, of which there may be as many as the buffer has.\<close>

definition temp_handle_http_request :: "int \<Rightarrow> conn_event list res" where
  "temp_handle_http_request bytes =
     (if bytes < 0 then Inr []
      else if bytes \<ge> 4096 then Inl Out_Of_Bounds
      else Inr [Sent temp_response, Closed])"

text \<open>
  The thread that handles a connection is created in the branch for a failed \<^verbatim>\<open>accept\<close>, behind the
  \<^verbatim>\<open>exit\<close>. The result is the list of the connections left open.
\<close>

fun temp_accept_loop :: "int list \<Rightarrow> int list res" where
  "temp_accept_loop [] = Inr []"
| "temp_accept_loop (client_sock # cs) =
     (if client_sock < 0 then Inl Exited else res_map (Cons client_sock) (temp_accept_loop cs))"

definition http_execute :: "int \<Rightarrow> int \<Rightarrow> int \<Rightarrow> int list \<Rightarrow> int list res" where
  "http_execute server_sock opt bind_result cs =
     (if server_sock < 0 then Inl Exited
      else if opt < 0 then Inl Exited
      else if bind_result < 0 then Inl Exited
      else temp_accept_loop cs)"

definition temp_main :: "int \<Rightarrow> int \<Rightarrow> int \<Rightarrow> int \<Rightarrow> int \<Rightarrow> int list \<Rightarrow> int list res" where
  "temp_main cert key server_sock opt bind_result cs =
     (if cert \<le> 0 then Inl Exited
      else if key \<le> 0 then Inl Exited
      else http_execute server_sock opt bind_result cs)"

section \<open>The example\<close>

definition example_response :: string where
  "example_response = ''HTTP/1.0 200 OK'' @ crlf @ ''Content-Length: 27'' @ crlf @ crlf @ ''CNLab 2: Socket programming''"

definition example_handle_https_request :: "int \<Rightarrow> int \<Rightarrow> conn_event list res" where
  "example_handle_https_request accepted bytes =
     (if accepted = - 1 then Inl Exited
      else if bytes < 0 then Inl Exited
      else Inr [Sent example_response, Ssl_Free, Closed])"

text \<open>The results of \<^verbatim>\<open>accept\<close>, \<^verbatim>\<open>SSL_accept\<close> and \<^verbatim>\<open>SSL_read\<close> for each connection.\<close>

fun example_loop :: "(int \<times> int \<times> int) list \<Rightarrow> conn_event list list res" where
  "example_loop [] = Inr []"
| "example_loop ((csock, accepted, bytes) # cs) =
     (if csock < 0 then Inl Exited
      else res_bind (example_handle_https_request accepted bytes) (\<lambda>evs. res_map (Cons evs) (example_loop cs)))"

definition example_main :: "int \<Rightarrow> int \<Rightarrow> int \<Rightarrow> int \<Rightarrow> int \<Rightarrow> (int \<times> int \<times> int) list \<Rightarrow> conn_event list list res" where
  "example_main cert key sock opt bind_result cs =
     (if cert \<le> 0 then Inl Exited
      else if key \<le> 0 then Inl Exited
      else if sock < 0 then Inl Exited
      else if opt < 0 then Inl Exited
      else if bind_result < 0 then Inl Exited
      else example_loop cs)"

section \<open>Serving\<close>

definition good_request :: "string \<Rightarrow> string \<Rightarrow> bool" where
  "good_request req p \<longleftrightarrow> (\<exists>m rest. request_line req m p rest \<and> length m < 10) \<and> length req < 1024 \<and> NUL \<notin> set req"

definition redirection :: "string \<Rightarrow> conn_event list" where
  "redirection p = [Sent (''HTTP/1.1 301 Moved Permanently'' @ crlf @ ''Location: https://10.0.0.1'' @ p @ crlf @
      ''Content-Length: 0'' @ crlf @ crlf), Closed]"

definition answer_of :: "(string \<Rightarrow> string option) \<Rightarrow> string \<Rightarrow> string \<Rightarrow> conn_event list" where
  "answer_of fs req p = (case fs (''./'' @ take 250 p) of None \<Rightarrow> [Sent not_found_response]
     | Some f \<Rightarrow> Sent (ok_header (int (length f))) # map Sent (send_all f)) @ [Ssl_Free, Closed]"

lemma http_loop_append: "http_loop (as @ bs) = res_bind (http_loop as) (\<lambda>xs. res_map (append xs) (http_loop bs))"
proof (induction as rule: http_loop.induct)
  case 1
  then show ?case by (cases "http_loop bs") auto
next
  case (3 req cs)
  then show ?case
    by (cases "handle_http_request req"; cases "http_loop cs"; cases "http_loop bs") auto
qed simp

lemma good_request_redirected: "good_request req p \<Longrightarrow> handle_http_request req = Inr (redirection p)"
  unfolding good_request_def redirection_def by (elim conjE exE) (rule handle_request_line(1))

text \<open>
  Every request that is well formed is redirected, in the order of the connections; a failed
  \<^verbatim>\<open>accept\<close> is skipped.
\<close>

lemma http_loop_redirects:
  "list_all2 (\<lambda>c p. case c of None \<Rightarrow> p = None | Some req \<Rightarrow> \<exists>q. p = Some q \<and> good_request req q) cs ps \<Longrightarrow>
   http_loop cs = Inr (map (redirection \<circ> the) (filter (\<lambda>p. p \<noteq> None) ps))"
  by (induction rule: list_all2_induct) (auto simp: good_request_redirected split: option.splits)

lemma good_request_served:
  assumes "good_request req p" "accepted \<noteq> - 1" "strstr req ''Range: bytes='' = None"
    "\<And>f. fs (''./'' @ take 250 p) = Some f \<Longrightarrow> length f < 2 ^ 63"
  shows "handle_https_request accepted req fs = Inr (answer_of fs req p)"
proof -
  obtain m rest where "request_line req m p rest" "length m < 10" "length req < 1024" "NUL \<notin> set req"
    using assms(1) by (auto simp: good_request_def)
  from handle_request_line(2) [OF this assms(2), of fs] show ?thesis
    using assms(3,4) by (auto simp: answer_of_def serve_file_def ok_header_fits split: option.split)
qed

section \<open>Properties\<close>

text \<open>
  The two servers run on. Every well-formed request to the HTTP port is redirected, and every one to
  the HTTPS port without a range gets its file or a 404, each in the order of the connections.
\<close>

theorem https_main_serves:
  assumes "list_all2 (\<lambda>c p. case c of None \<Rightarrow> p = None | Some req \<Rightarrow> \<exists>q. p = Some q \<and> good_request req q) cs ps"
    and "list_all2 (\<lambda>(a, req) p. a \<noteq> - 1 \<and> good_request req p \<and> strstr req ''Range: bytes='' = None) ds qs"
    and "\<And>n f. fs n = Some f \<Longrightarrow> length f < 2 ^ 63" "0 \<le> bind80" "0 \<le> bind443"
  shows "https_main fs bind80 bind443 cs ds =
    Inr (map (redirection \<circ> the) (filter (\<lambda>p. p \<noteq> None) ps), map2 (\<lambda>(a, req) p. answer_of fs req p) ds qs)"
proof -
  have "https_loop fs ds = Inr (map2 (\<lambda>(a, req) p. answer_of fs req p) ds qs)"
    using assms(2)
  proof (induction rule: list_all2_induct)
    case (Cons x xs y ys)
    then obtain a req where x: "x = (a, req)" "a \<noteq> - 1" "good_request req y" "strstr req ''Range: bytes='' = None"
      by (cases x) auto
    have "handle_https_request a req fs = Inr (answer_of fs req y)"
      using x assms(3) by (intro good_request_served) auto
    then show ?case using Cons x(1) by simp
  qed simp
  then show ?thesis
    using http_loop_redirects [OF assms(1)] assms(4,5)
    by (simp add: https_main_def start_http_server_def start_https_server_def)
qed

text \<open>
  One request with a method of 10 characters or more ends the server, whatever was asked before
  and whoever is connected: the connections behind it are not served.
\<close>

theorem long_method_stops_server:
  assumes "list_all2 (\<lambda>c p. case c of None \<Rightarrow> p = None | Some req \<Rightarrow> \<exists>q. p = Some q \<and> good_request req q) cs ps"
    and "request_line req m p rest" "10 \<le> length m" "length req < 1024" "NUL \<notin> set req"
  shows "https_main fs bind80 bind443 (cs @ Some req # later) ds = (if bind80 < 0 then Inl Exited else Inl Out_Of_Bounds)"
proof -
  have "handle_http_request req = Inl Out_Of_Bounds"
    using assms(3-5) scan_request_line [OF assms(2)] by (simp add: handle_http_request_def c_string_request)
  then show ?thesis
    using http_loop_redirects [OF assms(1)]
    by (simp add: https_main_def start_http_server_def http_loop_append)
qed

text \<open>
  The draft answers nobody: however many connections it accepts, it leaves them all open and
  calls no handler.
\<close>

theorem draft_answers_nobody:
  "\<forall>c\<in>set cs. 0 \<le> c \<Longrightarrow> 0 \<le> sock \<Longrightarrow> 0 \<le> opt \<Longrightarrow> 0 \<le> bound \<Longrightarrow> 0 < cert \<Longrightarrow> 0 < key \<Longrightarrow>
   temp_main cert key sock opt bound cs = Inr cs"
proof -
  assume *: "\<forall>c\<in>set cs. 0 \<le> c" "0 \<le> sock" "0 \<le> opt" "0 \<le> bound" "0 < cert" "0 < key"
  from *(1) have "temp_accept_loop cs = Inr cs" by (induction cs) auto
  with * show ?thesis by (simp add: temp_main_def http_execute_def)
qed

text \<open>The length that the example announces is the length of its body.\<close>

theorem example_response_length:
  "\<exists>hdr body. example_response = hdr @ crlf @ crlf @ body \<and> hdr = ''HTTP/1.0 200 OK'' @ crlf @ ''Content-Length: '' @ dec (length body)"
proof -
  let ?body = "''CNLab 2: Socket programming''"
  have "dec (length ?body) = ''27''" by code_simp
  moreover have "example_response = (''HTTP/1.0 200 OK'' @ crlf @ ''Content-Length: '' @ ''27'') @ crlf @ crlf @ ?body"
    by (simp add: example_response_def)
  ultimately show ?thesis by metis
qed

end
