(* ===== verification/Threads.thy ===== *)
theory Threads
  imports C_Text
begin

text \<open>
  The example of the switch directory, \<^verbatim>\<open>code-exp9/example/pthread_example.c\<close>: two threads that sleep and
  then print a line while they hold a lock. Each call of a thread is a step, the threads and \<^verbatim>\<open>main\<close> are
  interleaved in any order, and time passes between steps. \<open>rnd\<close> gives the results of \<^verbatim>\<open>rand\<close> and \<open>creates\<close>
  tells which calls of \<^verbatim>\<open>pthread_create\<close> succeed; \<^verbatim>\<open>main\<close> tests none of them, and joining a
  thread that was not created reads a handle that was never set.
\<close>

section \<open>The code\<close>

record thread_arg =
  index :: nat
  duration :: nat

text \<open>Where a thread is: asleep until a time, before each of its calls, or returned.\<close>

datatype thread_pc = Missing | Asleep nat | Before_Lock | Before_Print | Before_Flush | Before_Unlock | Returned

datatype main_pc = Creating nat | Joining nat | Main_Returned

record example =
  main_at :: main_pc
  threads :: "thread_pc list"
  output_lock :: "nat option"
  buffer :: string
  stdout :: string
  now_s :: nat

definition thread_line :: "thread_arg \<Rightarrow> string" where
  "thread_line a = ''Thread '' @ dec (index a) @ '' wakes up after '' @ dec (duration a) @ '' seconds.'' @ [CHR 0x0A]"

text \<open>\<open>None\<close> is a thread that cannot go on now: it sleeps, waits for the lock or has returned.\<close>

definition thread_step :: "thread_arg list \<Rightarrow> nat \<Rightarrow> example \<Rightarrow> example option" where
  "thread_step as i s =
     (let at = (\<lambda>pc. s\<lparr>threads := (threads s)[i := pc]\<rparr>)
      in case threads s ! i of
           Missing \<Rightarrow> None
         | Asleep t \<Rightarrow> if t \<le> now_s s then Some (at Before_Lock) else None
         | Before_Lock \<Rightarrow> if output_lock s = None then Some ((at Before_Print)\<lparr>output_lock := Some i\<rparr>) else None
         | Before_Print \<Rightarrow> Some ((at Before_Flush)\<lparr>buffer := buffer s @ thread_line (as ! i)\<rparr>)
         | Before_Flush \<Rightarrow> Some ((at Before_Unlock)\<lparr>stdout := stdout s @ buffer s, buffer := []\<rparr>)
         | Before_Unlock \<Rightarrow> Some ((at Returned)\<lparr>output_lock := None\<rparr>)
         | Returned \<Rightarrow> None)"

definition main_args :: "(nat \<Rightarrow> nat) \<Rightarrow> thread_arg list" where
  "main_args rnd = [\<lparr>index = 1, duration = rnd 0 mod 5\<rparr>, \<lparr>index = 2, duration = rnd 1 mod 5\<rparr>]"

definition main_init :: "nat \<Rightarrow> example" where
  "main_init t = \<lparr>main_at = Creating 0, threads = [], output_lock = None, buffer = [], stdout = [], now_s = t\<rparr>"

definition main_step :: "(nat \<Rightarrow> bool) \<Rightarrow> thread_arg list \<Rightarrow> example \<Rightarrow> example res option" where
  "main_step creates as s =
     (case main_at s of
        Creating n \<Rightarrow>
          if n < length as
          then Some (Inr (s\<lparr>main_at := Creating (Suc n),
                 threads := threads s @ [if creates n then Asleep (now_s s + duration (as ! n)) else Missing]\<rparr>))
          else Some (Inr (s\<lparr>main_at := Joining 0\<rparr>))
      | Joining n \<Rightarrow>
          if n < length as
          then (case threads s ! n of
                  Missing \<Rightarrow> Some (Inl Uninitialised)
                | Returned \<Rightarrow> Some (Inr (s\<lparr>main_at := Joining (Suc n)\<rparr>))
                | _ \<Rightarrow> None)
          else Some (Inr (s\<lparr>main_at := Main_Returned, stdout := stdout s @ buffer s, buffer := []\<rparr>))
      | Main_Returned \<Rightarrow> None)"

inductive example_step :: "(nat \<Rightarrow> bool) \<Rightarrow> thread_arg list \<Rightarrow> example \<Rightarrow> example \<Rightarrow> bool" for creates as where
  thread: "i < length (threads s) \<Longrightarrow> thread_step as i s = Some t \<Longrightarrow> example_step creates as s t"
| main: "main_step creates as s = Some (Inr t) \<Longrightarrow> example_step creates as s t"
| tick: "example_step creates as s (s\<lparr>now_s := Suc (now_s s)\<rparr>)"

inductive example_steps :: "(nat \<Rightarrow> bool) \<Rightarrow> thread_arg list \<Rightarrow> example \<Rightarrow> example \<Rightarrow> bool" for creates as s where
  none: "example_steps creates as s s"
| more: "example_steps creates as s t \<Longrightarrow> example_step creates as t u \<Longrightarrow> example_steps creates as s u"

inductive_cases example_stepE: "example_step creates as s t"

section \<open>The invariant\<close>

definition critical :: "thread_pc \<Rightarrow> bool" where
  "critical pc \<longleftrightarrow> pc \<in> {Before_Print, Before_Flush, Before_Unlock}"

definition printed :: "thread_pc \<Rightarrow> bool" where
  "printed pc \<longleftrightarrow> pc \<in> {Before_Flush, Before_Unlock, Returned}"

text \<open>The threads \<^verbatim>\<open>main\<close> has created, and those it has joined.\<close>

definition created :: "nat \<Rightarrow> main_pc \<Rightarrow> nat" where
  "created n pc = (case pc of Creating k \<Rightarrow> k | _ \<Rightarrow> n)"

definition joined :: "nat \<Rightarrow> main_pc \<Rightarrow> nat" where
  "joined n pc = (case pc of Creating k \<Rightarrow> 0 | Joining k \<Rightarrow> k | Main_Returned \<Rightarrow> n)"

definition lines :: "thread_arg list \<Rightarrow> nat list \<Rightarrow> string" where
  "lines as order = concat (map (\<lambda>i. thread_line (as ! i)) order)"

text \<open>Who holds the lock, and what has been printed so far, in the order in which it was printed.\<close>

definition lock_inv :: "example \<Rightarrow> bool" where
  "lock_inv s \<longleftrightarrow>
     (\<forall>i < length (threads s). critical (threads s ! i) \<longleftrightarrow> output_lock s = Some i) \<and>
     (\<forall>i. output_lock s = Some i \<longrightarrow> i < length (threads s))"

definition output_inv :: "thread_arg list \<Rightarrow> nat list \<Rightarrow> example \<Rightarrow> bool" where
  "output_inv as order s \<longleftrightarrow>
     distinct order \<and> (\<forall>i. i \<in> set order \<longleftrightarrow> i < length (threads s) \<and> printed (threads s ! i)) \<and>
     stdout s @ buffer s = lines as order \<and>
     (buffer s \<noteq> [] \<longrightarrow> (\<exists>i < length (threads s). threads s ! i = Before_Flush))"

definition main_inv :: "thread_arg list \<Rightarrow> example \<Rightarrow> bool" where
  "main_inv as s \<longleftrightarrow>
     length (threads s) = created (length as) (main_at s) \<and> length (threads s) \<le> length as \<and>
     joined (length as) (main_at s) \<le> length (threads s) \<and>
     (\<forall>i < joined (length as) (main_at s). threads s ! i = Returned)"

lemma pc_simps [simp]:
  "critical Before_Print" "critical Before_Flush" "critical Before_Unlock"
  "\<not> critical Missing" "\<not> critical (Asleep n)" "\<not> critical Before_Lock" "\<not> critical Returned"
  "printed Before_Flush" "printed Before_Unlock" "printed Returned"
  "\<not> printed Missing" "\<not> printed (Asleep n)" "\<not> printed Before_Lock" "\<not> printed Before_Print"
  by (simp_all add: critical_def printed_def)

text \<open>What a step of a thread is: it moves the thread, and the lock and the output with it.\<close>

lemma thread_step_cases:
  assumes "thread_step as i s = Some t"
  obtains (wake) n where "threads s ! i = Asleep n" "n \<le> now_s s" "t = s\<lparr>threads := (threads s)[i := Before_Lock]\<rparr>"
  | (lock) "threads s ! i = Before_Lock" "output_lock s = None"
      "t = s\<lparr>threads := (threads s)[i := Before_Print], output_lock := Some i\<rparr>"
  | (print) "threads s ! i = Before_Print"
      "t = s\<lparr>threads := (threads s)[i := Before_Flush], buffer := buffer s @ thread_line (as ! i)\<rparr>"
  | (flush) "threads s ! i = Before_Flush"
      "t = s\<lparr>threads := (threads s)[i := Before_Unlock], stdout := stdout s @ buffer s, buffer := []\<rparr>"
  | (unlock) "threads s ! i = Before_Unlock" "t = s\<lparr>threads := (threads s)[i := Returned], output_lock := None\<rparr>"
  using assms that by (cases "threads s ! i") (auto simp: thread_step_def Let_def split: if_splits)

lemma holder: "lock_inv s \<Longrightarrow> i < length (threads s) \<Longrightarrow> critical (threads s ! i) \<longleftrightarrow> output_lock s = Some i"
  by (simp add: lock_inv_def)

lemma lock_inv_update:
  assumes "lock_inv s" "i < length (threads s)" "threads t = (threads s)[i := pc]"
    and "if critical pc then output_lock t = Some i \<and> (output_lock s = None \<or> output_lock s = Some i)
      else output_lock t = (if output_lock s = Some i then None else output_lock s)"
  shows "lock_inv t"
proof -
  have "critical (threads t ! j) \<longleftrightarrow> output_lock t = Some j" if "j < length (threads t)" for j
    using assms holder [OF assms(1), of j] that by (cases "j = i") (auto split: if_splits)
  moreover have "output_lock t = Some j \<Longrightarrow> j < length (threads t)" for j
    using assms by (auto simp: lock_inv_def split: if_splits)
  ultimately show ?thesis by (simp add: lock_inv_def)
qed

lemma thread_lock_inv:
  assumes "lock_inv s" "i < length (threads s)" "thread_step as i s = Some t"
  shows "lock_inv t"
  using assms(3) holder [OF assms(1,2)]
  by (cases rule: thread_step_cases) (auto intro!: lock_inv_update [OF assms(1,2)])

lemma thread_main_inv:
  assumes "main_inv as s" "i < length (threads s)" "thread_step as i s = Some t"
  shows "main_inv as t"
proof -
  have i: "threads s ! i \<noteq> Returned" using assms(3) by (auto simp: thread_step_def Let_def)
  obtain pc where t: "threads t = (threads s)[i := pc]" "main_at t = main_at s"
    using assms(3) by (cases rule: thread_step_cases) auto
  have "threads t ! j = Returned" if "j < joined (length as) (main_at s)" for j
  proof -
    have "threads s ! j = Returned" using assms(1) that by (simp add: main_inv_def)
    then show ?thesis using i t(1) by (cases "j = i") auto
  qed
  then show ?thesis using assms(1) t by (simp add: main_inv_def)
qed

text \<open>A thread that holds the lock and is not about to flush finds the buffer empty.\<close>

lemma buffer_empty:
  assumes "lock_inv s" "output_inv as order s" "i < length (threads s)" "critical (threads s ! i)" "threads s ! i \<noteq> Before_Flush"
  shows "buffer s = []"
proof (rule ccontr)
  assume "buffer s \<noteq> []"
  then obtain j where j: "j < length (threads s)" "threads s ! j = Before_Flush" using assms(2) by (auto simp: output_inv_def)
  then have "j = i" using holder [OF assms(1) j(1)] holder [OF assms(1,3)] assms(4) by simp
  then show False using assms(5) j(2) by simp
qed

lemma output_inv_update:
  assumes "output_inv as order s" "i < length (threads s)" "threads t = (threads s)[i := pc]"
    and "printed pc = printed (threads s ! i)" "stdout t @ buffer t = stdout s @ buffer s"
    and "buffer t \<noteq> [] \<Longrightarrow> buffer s \<noteq> [] \<and> threads s ! i \<noteq> Before_Flush"
  shows "output_inv as order t"
proof -
  have "j \<in> set order \<longleftrightarrow> j < length (threads t) \<and> printed (threads t ! j)" for j
    using assms(1-4) by (cases "j = i") (auto simp: output_inv_def)
  moreover have "\<exists>j<length (threads t). threads t ! j = Before_Flush" if b: "buffer t \<noteq> []"
  proof -
    obtain j where "j < length (threads s)" "threads s ! j = Before_Flush" using assms(1) assms(6) [OF b] by (auto simp: output_inv_def)
    moreover have "j \<noteq> i" using assms(6) [OF b] calculation(2) by auto
    ultimately show ?thesis using assms(3) by (intro exI [of _ j]) simp
  qed
  ultimately show ?thesis using assms(1,5) by (simp add: output_inv_def)
qed

lemma thread_output_inv:
  assumes "lock_inv s" "output_inv as order s" "i < length (threads s)" "thread_step as i s = Some t"
  shows "\<exists>order'. output_inv as order' t"
  using assms(4)
proof (cases rule: thread_step_cases)
  case print
  have empty: "buffer s = []" using buffer_empty [OF assms(1-3)] print(1) by simp
  have ord: "j \<in> set order \<longleftrightarrow> j < length (threads s) \<and> printed (threads s ! j)" for j
    using assms(2) by (simp add: output_inv_def)
  have i: "i \<notin> set order" using ord [of i] print(1) by simp
  have "j \<in> set (order @ [i]) \<longleftrightarrow> j < length (threads t) \<and> printed (threads t ! j)" for j
    using ord [of j] assms(3) print(2) by (cases "j = i") auto
  moreover have "\<exists>j<length (threads t). threads t ! j = Before_Flush"
    using assms(3) print(2) by (intro exI [of _ i]) simp
  moreover have "stdout t @ buffer t = lines as (order @ [i])"
    using assms(2) print(2) empty by (simp add: output_inv_def lines_def)
  moreover have "distinct (order @ [i])" using i assms(2) by (simp add: output_inv_def)
  ultimately have "output_inv as (order @ [i]) t" unfolding output_inv_def by blast
  then show ?thesis ..
next
  case unlock
  have "buffer s = []" using buffer_empty [OF assms(1-3)] unlock(1) by simp
  then show ?thesis using output_inv_update [OF assms(2,3), of t Returned] unlock by auto
next
  case wake
  then show ?thesis using output_inv_update [OF assms(2,3), of t Before_Lock] by auto
next
  case lock
  then show ?thesis using output_inv_update [OF assms(2,3), of t Before_Print] by auto
next
  case flush
  then show ?thesis using output_inv_update [OF assms(2,3), of t Before_Unlock] by auto
qed

text \<open>A step of \<^verbatim>\<open>main\<close> creates a thread, or leaves the threads as they are.\<close>

lemma main_step_cases:
  assumes "main_step creates as s = Some (Inr t)"
  obtains (create) n pc where "main_at s = Creating n" "n < length as" "\<not> critical pc" "\<not> printed pc"
      "pc = (if creates n then Asleep (now_s s + duration (as ! n)) else Missing)"
      "t = s\<lparr>main_at := Creating (Suc n), threads := threads s @ [pc]\<rparr>"
  | (created) n where "main_at s = Creating n" "length as \<le> n" "t = s\<lparr>main_at := Joining 0\<rparr>"
  | (join) n where "main_at s = Joining n" "n < length as" "threads s ! n = Returned" "t = s\<lparr>main_at := Joining (Suc n)\<rparr>"
  | (return) n where "main_at s = Joining n" "length as \<le> n"
      "t = s\<lparr>main_at := Main_Returned, stdout := stdout s @ buffer s, buffer := []\<rparr>"
  using assms that by (auto simp: main_step_def split: main_pc.splits if_splits thread_pc.splits)

lemma main_step_inv:
  assumes "main_step creates as s = Some (Inr t)" "lock_inv s" "main_inv as s" "output_inv as order s"
  shows "lock_inv t \<and> main_inv as t \<and> output_inv as order t"
  using assms(1)
proof (cases rule: main_step_cases)
  case (create n pc)
  have "lock_inv t"
    using assms(2) create(3,6) by (auto simp: lock_inv_def nth_append less_Suc_eq)
  moreover have "main_inv as t" using assms(3) create by (simp add: main_inv_def created_def joined_def)
  moreover have "j \<in> set order \<longleftrightarrow> j < length (threads t) \<and> printed (threads t ! j)" for j
    using assms(4) create(4,6) by (auto simp: output_inv_def nth_append less_Suc_eq)
  moreover have "buffer t \<noteq> [] \<Longrightarrow> \<exists>j<length (threads t). threads t ! j = Before_Flush"
    using assms(4) create(6) by (auto simp: output_inv_def nth_append less_Suc_eq)
  ultimately show ?thesis using assms(4) create(6) by (simp add: output_inv_def)
next
  case (created n)
  then show ?thesis using assms(2-4) by (auto simp: lock_inv_def main_inv_def output_inv_def created_def joined_def)
next
  case (join n)
  then show ?thesis
    using assms(2-4) by (auto simp: lock_inv_def main_inv_def output_inv_def created_def joined_def less_Suc_eq)
next
  case (return n)
  then show ?thesis
    using assms(2-4) by (auto simp: lock_inv_def main_inv_def output_inv_def created_def joined_def)
qed

lemma example_steps_inv:
  assumes "example_steps creates as (main_init t0) s"
  shows "lock_inv s \<and> main_inv as s \<and> (\<exists>order. output_inv as order s)"
  using assms
proof (induction rule: example_steps.induct)
  case none
  show ?case
    by (auto simp: main_init_def lock_inv_def main_inv_def output_inv_def created_def joined_def lines_def intro!: exI [of _ "[]"])
next
  case (more s t)
  from more(2) show ?case
  proof (cases rule: example_step.cases)
    case (thread i)
    then show ?thesis using more.IH thread_lock_inv thread_main_inv thread_output_inv by blast
  next
    case main
    then show ?thesis using more.IH main_step_inv by blast
  next
    case tick
    then have "lock_inv t = lock_inv s" "main_inv as t = main_inv as s" "output_inv as order t = output_inv as order s" for order
      by (simp_all add: lock_inv_def main_inv_def output_inv_def)
    then show ?thesis using more.IH by simp
  qed
qed

section \<open>Progress\<close>

definition thread_weight :: "nat \<Rightarrow> thread_pc \<Rightarrow> nat" where
  "thread_weight now pc =
     (case pc of Missing \<Rightarrow> 0 | Asleep t \<Rightarrow> 6 + (t - now) | Before_Lock \<Rightarrow> 5 | Before_Print \<Rightarrow> 4
      | Before_Flush \<Rightarrow> 3 | Before_Unlock \<Rightarrow> 2 | Returned \<Rightarrow> 1)"

definition main_weight :: "thread_arg list \<Rightarrow> main_pc \<Rightarrow> nat" where
  "main_weight as pc =
     (case pc of Creating n \<Rightarrow> sum_list (map (\<lambda>a. 7 + duration a) (drop n as)) + 2 + length as
      | Joining n \<Rightarrow> 1 + (length as - n) | Main_Returned \<Rightarrow> 0)"

definition weight :: "thread_arg list \<Rightarrow> example \<Rightarrow> nat" where
  "weight as s = sum_list (map (thread_weight (now_s s)) (threads s)) + main_weight as (main_at s)"

lemma weight_update:
  assumes "i < length (threads s)" "threads t = (threads s)[i := pc]" "now_s t = now_s s" "main_at t = main_at s"
    "thread_weight (now_s s) pc < thread_weight (now_s s) (threads s ! i)"
  shows "weight as t < weight as s"
proof -
  let ?ws = "map (thread_weight (now_s s)) (threads s)"
  have "sum_list (?ws[i := thread_weight (now_s s) pc]) < sum_list ?ws"
    using assms(1,5) member_le_sum_list [of "?ws ! i" ?ws] by (simp add: sum_list_update)
  then show ?thesis using assms by (simp add: weight_def map_update)
qed

lemma thread_step_weight:
  assumes "thread_step as i s = Some t" "i < length (threads s)"
  shows "weight as t < weight as s"
  using assms(1) by (cases rule: thread_step_cases) (auto intro!: weight_update [OF assms(2)] simp: thread_weight_def)

lemma main_step_weight:
  assumes "main_step creates as s = Some (Inr t)"
  shows "weight as t < weight as s"
  using assms
proof (cases rule: main_step_cases)
  case (create n pc)
  have "drop n as = as ! n # drop (Suc n) as" using create(2) by (simp add: Cons_nth_drop_Suc)
  then show ?thesis using create by (auto simp: weight_def main_weight_def thread_weight_def)
qed (auto simp: weight_def main_weight_def)

lemma tick_weight:
  assumes "i < length (threads s)" "threads s ! i = Asleep t" "now_s s < t"
  shows "weight as (s\<lparr>now_s := Suc (now_s s)\<rparr>) < weight as s"
proof -
  let ?f = "thread_weight (Suc (now_s s))" and ?g = "thread_weight (now_s s)"
  have le: "?f pc \<le> ?g pc" for pc by (cases pc) (simp_all add: thread_weight_def)
  have ts: "threads s = take i (threads s) @ Asleep t # drop (Suc i) (threads s)"
    using id_take_nth_drop [OF assms(1)] assms(2) by simp
  have "sum_list (map ?f xs) \<le> sum_list (map ?g xs)" for xs by (intro sum_list_mono le)
  moreover have "?f (Asleep t) < ?g (Asleep t)" using assms(3) by (simp add: thread_weight_def)
  ultimately have "sum_list (map ?f (threads s)) < sum_list (map ?g (threads s))"
    by (subst (1 2) ts) (simp add: add_le_less_mono add_less_le_mono)
  then show ?thesis by (simp add: weight_def)
qed

text \<open>
  While \<^verbatim>\<open>main\<close> has not returned, some step brings the end nearer: when \<^verbatim>\<open>main\<close> waits for a thread, the
  holder of the lock can go on; when nobody holds it, that thread can take it, or has to sleep on.
\<close>

lemma example_progress:
  assumes "lock_inv s" "main_inv as s" "main_at s \<noteq> Main_Returned" "Missing \<notin> set (threads s)"
  shows "\<exists>t. example_step creates as s t \<and> weight as t < weight as s"
proof (cases "\<exists>t. main_step creates as s = Some (Inr t)")
  case True
  then show ?thesis using main_step_weight example_step.main by blast
next
  case False
  have moves: ?thesis if "i < length (threads s)" "thread_step as i s \<noteq> None" for i
    using that thread_step_weight example_step.thread by blast
  obtain n where n: "main_at s = Joining n" "n < length as" "threads s ! n \<noteq> Returned"
    using False assms(3) that by (cases "main_at s") (auto simp: main_step_def split: if_splits thread_pc.splits)
  then have len: "n < length (threads s)" using assms(2) by (simp add: main_inv_def created_def)
  then have there: "threads s ! n \<noteq> Missing" using assms(4) nth_mem by metis
  show ?thesis
  proof (cases "output_lock s")
    case (Some j)
    then have j: "j < length (threads s)" using assms(1) by (simp add: lock_inv_def)
    then have "critical (threads s ! j)" using holder [OF assms(1) j] Some by simp
    then show ?thesis using moves [OF j] by (auto simp: critical_def thread_step_def Let_def)
  next
    case None
    then have "\<not> critical (threads s ! n)" using holder [OF assms(1) len] by simp
    then consider (lock) "threads s ! n = Before_Lock" | (asleep) t where "threads s ! n = Asleep t"
      using n(3) there by (cases "threads s ! n") auto
    then show ?thesis
    proof cases
      case lock
      then show ?thesis using moves [OF len] None by (auto simp: thread_step_def Let_def)
    next
      case (asleep t)
      show ?thesis
      proof (cases "t \<le> now_s s")
        case True
        then show ?thesis using moves [OF len] asleep by (auto simp: thread_step_def Let_def)
      next
        case False
        then show ?thesis using tick_weight [OF len asleep] example_step.tick by (metis not_le)
      qed
    qed
  qed
qed

lemma example_steps_trans:
  "example_steps creates as t u \<Longrightarrow> example_steps creates as s t \<Longrightarrow> example_steps creates as s u"
  by (induction rule: example_steps.induct) (auto intro: example_steps.more)

lemma steps_no_missing:
  assumes "example_steps (\<lambda>n. True) as (main_init t0) s"
  shows "Missing \<notin> set (threads s)"
  using assms
proof (induction rule: example_steps.induct)
  case (more s t)
  from more(2) show ?case
  proof (cases rule: example_step.cases)
    case (thread i)
    from thread(2) have "set (threads t) \<subseteq> {Before_Lock, Before_Print, Before_Flush, Before_Unlock, Returned} \<union> set (threads s)"
      by (cases rule: thread_step_cases) (auto dest!: subsetD [OF set_update_subset_insert])
    then show ?thesis using more.IH by auto
  next
    case main
    then show ?thesis using more.IH by (cases rule: main_step_cases) auto
  next
    case tick
    then show ?thesis using more.IH by simp
  qed
qed (simp add: main_init_def)

text \<open>
  No deadlock: when both threads are created, every state that is reached has a continuation in which
  \<^verbatim>\<open>main\<close> returns.
\<close>

theorem example_finishes:
  assumes "example_steps (\<lambda>n. True) as (main_init t0) s"
  shows "\<exists>t. example_steps (\<lambda>n. True) as s t \<and> main_at t = Main_Returned"
  using assms
proof (induction "weight as s" arbitrary: s rule: less_induct)
  case less
  show ?case
  proof (cases "main_at s = Main_Returned")
    case True
    then show ?thesis using example_steps.none by blast
  next
    case False
    obtain t where t: "example_step (\<lambda>n. True) as s t" "weight as t < weight as s"
      using example_progress [OF _ _ False] example_steps_inv [OF less.prems] steps_no_missing [OF less.prems] by blast
    obtain u where "example_steps (\<lambda>n. True) as t u" "main_at u = Main_Returned"
      using less.hyps [OF t(2) example_steps.more [OF less.prems t(1)]] by blast
    then show ?thesis using example_steps_trans [OF _ example_steps.more [OF example_steps.none t(1)]] by blast
  qed
qed

section \<open>Properties\<close>

lemma lines_of_two:
  assumes "distinct order" "set order = {0, 1 :: nat}"
  shows "lines as order \<in> {thread_line (as ! 0) @ thread_line (as ! 1), thread_line (as ! 1) @ thread_line (as ! 0)}"
proof -
  have "length order = 2" using distinct_card [OF assms(1)] assms(2) by simp
  then obtain a b where "order = [a, b]" by (auto simp: length_Suc_conv numeral_2_eq_2)
  then show ?thesis using assms by (auto simp: lines_def doubleton_eq_iff)
qed

text \<open>
  Property C40: The threads exclude each other. However the two threads, \<^verbatim>\<open>main\<close> and the clock are
  interleaved, and whatever \<^verbatim>\<open>rand\<close> returns, at most one thread is between the lock and the unlock,
  and once \<^verbatim>\<open>main\<close> has returned the output is the two lines, whole, in one of the two orders.
\<close>

theorem example_threads_exclude:
  assumes "example_steps creates (main_args rnd) (main_init t0) s"
  shows "(\<forall>i < length (threads s). \<forall>j < length (threads s). critical (threads s ! i) \<and> critical (threads s ! j) \<longrightarrow> i = j) \<and>
    (main_at s = Main_Returned \<longrightarrow> output_lock s = None \<and> buffer s = [] \<and>
       stdout s \<in> {thread_line (main_args rnd ! 0) @ thread_line (main_args rnd ! 1),
                   thread_line (main_args rnd ! 1) @ thread_line (main_args rnd ! 0)})"
proof -
  obtain order where l: "lock_inv s" and m: "main_inv (main_args rnd) s" and o: "output_inv (main_args rnd) order s"
    using example_steps_inv [OF assms] by blast
  have "output_lock s = None \<and> buffer s = [] \<and> stdout s = lines (main_args rnd) order \<and> set order = {0, 1}"
    if "main_at s = Main_Returned"
  proof -
    have len: "length (threads s) = 2" and ret: "\<forall>i<2. threads s ! i = Returned"
      using m that by (simp_all add: main_inv_def created_def joined_def main_args_def)
    have "\<not> critical (threads s ! i)" if "i < 2" for i using ret that by simp
    then have "output_lock s \<noteq> Some i" for i using l len by (auto simp: lock_inv_def)
    moreover have "buffer s = []" using o len ret by (auto simp: output_inv_def)
    moreover have "i \<in> set order \<longleftrightarrow> i < length (threads s) \<and> printed (threads s ! i)" for i
      using o by (simp add: output_inv_def)
    then have "i \<in> set order \<longleftrightarrow> i < 2" for i using len ret by (metis pc_simps(10))
    then have "set order = {0, 1}" by (simp add: set_eq_iff less_2_cases_iff)
    moreover have "stdout s @ buffer s = lines (main_args rnd) order" using o by (simp add: output_inv_def)
    moreover have "output_lock s = None" using calculation(1) by (cases "output_lock s") auto
    ultimately show ?thesis by simp
  qed
  moreover have "distinct order" using o by (simp add: output_inv_def)
  ultimately have "main_at s = Main_Returned \<longrightarrow> output_lock s = None \<and> buffer s = [] \<and>
       stdout s \<in> {thread_line (main_args rnd ! 0) @ thread_line (main_args rnd ! 1),
                   thread_line (main_args rnd ! 1) @ thread_line (main_args rnd ! 0)}"
    using lines_of_two [of order "main_args rnd"] by presburger
  moreover have "i = j" if "i < length (threads s)" "j < length (threads s)" "critical (threads s ! i)" "critical (threads s ! j)" for i j
    using holder [OF l that(1)] holder [OF l that(2)] that(3,4) by simp
  ultimately show ?thesis by blast
qed

theorem example_threads_exclude_witness:
  "\<exists>s. example_steps (\<lambda>n. True) (main_args (\<lambda>n. n)) (main_init 0) s \<and>
     stdout s \<in> {thread_line \<lparr>index = 1, duration = 0\<rparr> @ thread_line \<lparr>index = 2, duration = 1\<rparr>,
                 thread_line \<lparr>index = 2, duration = 1\<rparr> @ thread_line \<lparr>index = 1, duration = 0\<rparr>}"
proof -
  obtain s where s: "example_steps (\<lambda>n. True) (main_args (\<lambda>n. n)) (main_init 0) s" "main_at s = Main_Returned"
    using example_finishes [OF example_steps.none] by blast
  moreover have "main_args (\<lambda>n. n) = [\<lparr>index = 1, duration = 0\<rparr>, \<lparr>index = 2, duration = 1\<rparr>]" by (simp add: main_args_def)
  ultimately show ?thesis using example_threads_exclude [OF s(1)] by (intro exI [of _ s]) simp
qed

end
