(* ===== verification/Spec2Isabelle.thy ===== *)
theory Spec2Isabelle
  imports Checksum List_Head Ring_Buffer Synch_Wait Device Mac_Table Rtable Arp_Cache Ip_Router Arp_Sweep Router7 Mospf Mospf_Net Routers
    Device_Init Netlink Boot Tcp_Recv Tcp_Write Tcp_States Tcp_Conn Tcp_Cc Tcp_Life Tcp_Retrans Tcp_Close Tcp_Main Https_Server
    Https_Loops Threads
begin

text \<open>
  A verification development of the network programs of this repository: an Ethernet hub and a
  learning switch (\<^verbatim>\<open>src/code-exp8\<close>, \<^verbatim>\<open>src/code-exp9\<close>), an IP router with ARP and ICMP
  (\<^verbatim>\<open>src/code-exp5\<close>), a router that computes its table with the link state protocol MOSPF
  (\<^verbatim>\<open>src/code-exp7\<close>), a TCP stack with a file server and client (\<^verbatim>\<open>src/code-exp2\<close>), and a web server
  (\<^verbatim>\<open>src/code-exp1\<close>). The
  directories share their base: the checksum, intrusive lists, the packet loop over raw
  sockets. A frame received on an interface is dispatched by its type to ARP or IP; the router
  forwards IP packets through the routing table and the ARP cache, the TCP stack hands them
  to the socket found in its hash tables, and timer and protocol threads run beside the receive loop.

  \<^bold>\<open>Conventions.\<close> A definition has the name of the C function or structure it models. Machine integers
  are words of their width; \<^verbatim>\<open>int\<close> is \<open>int\<close> where the code keeps it small; memory is a list of bytes with
  fields at their offsets and in network byte order, so packets are modelled byte by byte. An
  operation that can fail returns \<open>'a res\<close>: a fault (\<open>Null_Deref\<close>, \<open>Out_Of_Bounds\<close>,
  \<open>Use_After_Free\<close>, \<open>Assert_Failed\<close>, \<open>Deadlock\<close>, \<open>Uninitialised\<close>, \<open>Int_Overflow\<close>, \<open>Diverges\<close>,
  \<open>Exited\<close>) or a result. \<open>Exited\<close> is a call of \<^verbatim>\<open>exit\<close>. Reading outside a buffer, following a null
  pointer, using freed memory and not returning are faults, not unspecified values. Loops that may not
  end are partial functions into \<open>option\<close>, and the theorems say when they do end.

  \<^bold>\<open>Theories.\<close>
  \<^item> \<open>Net_Prelude\<close>: words, byte order, buffers, the type of results, and the lemmas all others share.
  \<^item> \<open>Checksum\<close>: the three versions of \<^verbatim>\<open>checksum\<close> (\<^verbatim>\<open>include/checksum.h\<close> of \<^verbatim>\<open>code-exp2\<close>, \<^verbatim>\<open>code-exp5\<close> and
    \<^verbatim>\<open>code-exp7\<close>) and the hashes of \<^verbatim>\<open>hash.h\<close>; when they agree, that a stored checksum verifies.
  \<^item> \<open>List_Head\<close>: \<^verbatim>\<open>list.h\<close> on a heap of \<^verbatim>\<open>next\<close> and \<^verbatim>\<open>prev\<close> pointers; the operations refine operations on
    sequences, the iteration macros end, and a node linked twice makes them run for ever.
  \<^item> \<open>Ring_Buffer\<close>: \<^verbatim>\<open>ring_buffer.h\<close>, an implementation of the locale \<open>byte_fifo\<close>.
  \<^item> \<open>Synch_Wait\<close>: \<^verbatim>\<open>synch_wait.h\<close>; a blocking wait is split where it releases the mutex. No wake-up is lost when one
    thread sleeps at a time; with two sleepers one can be.
  \<^item> \<open>Device\<close>: interfaces and one round of the receive loop. \<open>Device_Init\<close>: \<^verbatim>\<open>init_ustack\<close> (\<^verbatim>\<open>device_internal.c\<close> of the
    routers and of the hub and switch) and the whole receive loop \<^verbatim>\<open>ustack_run\<close>; a stack that is
    initialised is well formed. \<open>Mac_Table\<close>: hub, switch, address table with aging, refining a map.
  \<^item> \<open>Netlink\<close>: \<^verbatim>\<open>rtable_internal.c\<close>, the request for the routing table of the kernel and the parser of the
    answer; what the kernel has is what is loaded, and the parser stays within its buffer.
  \<^item> \<open>Rtable\<close>: \<^verbatim>\<open>rtable.c\<close> and longest prefix match. \<open>Arp_Cache\<close>: \<^verbatim>\<open>arp.c\<close> and \<^verbatim>\<open>arpcache.c\<close>.
    \<open>Ip_Router\<close>: \<^verbatim>\<open>ip.c\<close>, \<^verbatim>\<open>ip_base.c\<close>, \<^verbatim>\<open>icmp.c\<close> and dispatch. \<open>Arp_Sweep\<close>: \<^verbatim>\<open>arpcache_sweep\<close>, whose errors
    are sent through the router again, and the invariant of all reachable states of the router.
    \<open>Router7\<close>: the header builder, ICMP, forwarding and the sweep of \<^verbatim>\<open>code-exp7\<close>, which run on another checksum.
    \<open>Routers\<close>: the two routers compared on every kind of packet, where they do the same and where not.
  \<^item> \<open>Spf\<close>: \<^verbatim>\<open>mospf_dijkstra\<close>; it computes shortest paths and the routes over them. \<open>Mospf\<close>: the protocol
    (\<^verbatim>\<open>mospf_daemon.c\<close>, \<^verbatim>\<open>mospf_proto.c\<close>, \<^verbatim>\<open>mospf_database.c\<close>) over that IP layer: exchange of hellos and of link
    state updates, the steps of the daemon. \<open>Mospf_Net\<close>: the threads of the daemon, and the invariant of
    the daemon and of the stack under it in all reachable states.
  \<^item> \<open>Boot\<close>: the \<^verbatim>\<open>main\<close> functions of both routers, the hub and the switch; a router that has just been started
    forwards by the routes of the kernel, and every run keeps the invariants.
  \<^item> \<open>C_Text\<close>: numbers and dotted addresses as text, \<^verbatim>\<open>atoi\<close> and \<^verbatim>\<open>inet_addr\<close>. \<open>Https_Server\<close>: the request
    handlers of \<^verbatim>\<open>https-server.c\<close>; whole files and ranges are served as asked. \<open>Https_Loops\<close>: its accept loops,
    its draft \<^verbatim>\<open>https-server-temp.c\<close> and the example \<^verbatim>\<open>https-server-example.c\<close>.
  \<^item> \<open>Tcp_Base\<close>: \<^verbatim>\<open>tcp.h\<close>, headers, control blocks, single precision numbers. \<open>Tcp_Sock\<close>: \<^verbatim>\<open>tcp_sock.h\<close>,
    sockets with reference counts, the hash tables on the pointer heap, ports, timers. \<open>Tcp_Out\<close>: \<^verbatim>\<open>tcp_out.c\<close>.
    \<open>Tcp_In\<close>: \<^verbatim>\<open>tcp_in.c\<close>, \<^verbatim>\<open>handle_tcp_packet\<close>, \<^verbatim>\<open>handle_ip_packet\<close>. \<open>Tcp_Api\<close>: the socket calls of
    \<^verbatim>\<open>tcp_sock.c\<close>, the timer thread of \<^verbatim>\<open>tcp_timer.c\<close>, the applications of \<^verbatim>\<open>tcp_apps.c\<close>.
  \<^item> \<open>Tcp_Wire\<close>: what each of the five functions that send a packet builds is parsed back to what was meant. \<open>Tcp_Recv\<close>:
    the receiver delivers a prefix of the stream, and all of it once every segment has arrived. \<open>Tcp_Write\<close>:
    writing keeps to the window; sender and receiver together transfer a buffer. \<open>Tcp_States\<close>: the
    transitions of the state machine, and the order of the states, in which a socket only advances. \<open>Tcp_Conn\<close>: the handshake between two stacks. \<open>Tcp_Cc\<close>: slow start and
    fast retransmit. \<open>Tcp_Life\<close>: the first write and the persist timer. \<open>Tcp_Retrans\<close>: the retransmission timer; a lost
    segment arrives in the end, and one that is never acknowledged is given up after three more attempts, at which the
    server's socket of a connection makes it follow a null pointer. \<open>Tcp_Close\<close>: closing, long
    writes, and the applications. \<open>Tcp_Main\<close>: \<^verbatim>\<open>main.c\<close>, the command line, the file loops of the applications,
    the threads of the stack.
  \<^item> \<open>Threads\<close>: the example of \<^verbatim>\<open>code-exp9/example\<close>, two threads and a lock, interleaved call by call: they exclude each
    other, and the program can always finish.

  \<^bold>\<open>Interfaces.\<close> The locale \<open>byte_fifo\<close> is the contract of a byte queue and is interpreted on the ring buffer. The
  locale \<open>libnet\<close> is what the TCP stack relies on in the parts of which the repository has only an
  archive (\<^verbatim>\<open>libnet.a\<close>): memory of the size asked for, and an \<^verbatim>\<open>ip_init_hdr\<close> that writes an IP header
  without options and leaves the rest of the packet alone. It is interpreted with the \<^verbatim>\<open>ip_init_hdr\<close> of
  \<^verbatim>\<open>code-exp5\<close>, which is such a function. The routing lookup of the stack and its random numbers are
  parameters without a contract. The operating system is a parameter, too: the records \<open>os\<close> (results of
  \<^verbatim>\<open>socket\<close> and the open descriptors), \<open>netdev\<close> (answers of \<^verbatim>\<open>ioctl\<close> and \<^verbatim>\<open>bind\<close>) and \<open>nlkernel\<close> (netlink datagrams), the
  result of \<^verbatim>\<open>getifaddrs\<close>, the results of \<^verbatim>\<open>poll\<close>, and the contents of files. The locale \<open>icmp_sender\<close> is what the
  sweep and the handlers rely on in \<^verbatim>\<open>icmp_send_packet\<close>; it is interpreted on the function of either router. Other locales
  state the contracts of tables and caches in their theories.

  \<^bold>\<open>Bounds.\<close> Theorems on the reassembly of a stream assume that its sequence numbers stay below \<open>2\<^sup>3\<^sup>1\<close>, where the comparison
  macros overflow, and, where all of it has to fit the receive buffer, at most 65535 bytes. A packet has at most
  65495 bytes of payload, the limit of the 16-bit length of IP. Congestion windows are exact below
  \<open>2\<^sup>2\<^sup>4\<close>, the precision of \<^verbatim>\<open>float\<close>.

  \<^bold>\<open>What the theorems show to be wrong.\<close> Some of them state faults of the code as it is: a packet whose time to live expires
  is used after it is freed; the sweep of the ARP cache can run for ever; a packet for a closed port and a
  passive close stop the TCP server; a \<^verbatim>\<open>FIN\<close> makes unread data unreadable; long writes
  retransmit wrong data; giving up on a connection the server accepted follows a null pointer; of two threads that sleep on
  one structure the second may never wake up; sequence numbers of link state updates do not wrap; an end marker
  behind routes in one netlink datagram makes a router wait for ever at its start.

  \<^bold>\<open>Concurrency.\<close> A handler, a call or the work of a thread is one step where nothing else is said. Of the TCP locks only
  \<^verbatim>\<open>rcv_buf_lock\<close> is part of the state, because \<^verbatim>\<open>tcp_sock_read\<close> can return with it; a call that sleeps is split into
  the part before and the part after it wakes up. Unlocking a mutex that is not held (\<^verbatim>\<open>tcp_out.c\<close> and \<^verbatim>\<open>tcp_in.c\<close> each do it
  once) is left out, and so is the interleaving that the loss of the lock allows. The sweep of the ARP cache releases its lock
  while it reports errors and is one step nevertheless. The two MOSPF threads that work without \<^verbatim>\<open>mospf_lock\<close> after
  their scan are split: the update is generated in one step, each packet is sent in one, and the computation of the routes
  takes a step for the kernel's table, the nodes, each visit, the routes of each database entry, and for clearing and each entry loaded. What
  holds the lock is one step there, and the steps of those threads come before or after it; a list that changes or an element that is freed
  under a thread that reads it without the lock is undefined in C and not modelled. The locks and threads of the example of
  \<^verbatim>\<open>code-exp9\<close> are modelled call by call.

  \<^bold>\<open>Not modelled.\<close> What system calls and OpenSSL do inside; their results are parameters. Printing and logging: the functions
  that only print a table, and \<^verbatim>\<open>log.h\<close>. The files of \<^verbatim>\<open>code-exp7\<close> that repeat those of
  \<^verbatim>\<open>code-exp5\<close> and do not depend on its checksum: \<^verbatim>\<open>arp.c\<close>, \<^verbatim>\<open>rtable.c\<close>, \<^verbatim>\<open>rtable_internal.c\<close>, \<^verbatim>\<open>device_internal.c\<close> and the
  rest of \<^verbatim>\<open>arpcache.c\<close> and \<^verbatim>\<open>ip_base.c\<close> are the same up to log lines that are commented out, and one model serves
  both. Scripts that build topologies and plot results.
\<close>

end
